(* ===== verification/Prelude.thy ===== *)
theory Prelude
  imports Main "HOL-Library.Word" "HOL-Library.Multiset"
begin

text \<open>
  Shared vocabulary of the development: the result type of fallible Rust code, the
  sequencing of fallible steps, the reverse search of a Rust iterator
  (\<open>Iterator::rfind\<close>), and the generic list and map lemmas that the components use.
  The collections declared here (\<open>outcome_simps\<close>, \<open>batch_simps\<close>, \<open>store_simps\<close>) are filled
  by the component theories and carry their proofs.
\<close>

named_theorems outcome_simps \<open>facts on fallible computations\<close>
named_theorems pool_simps \<open>facts on interned strings and the objects built from them\<close>
named_theorems batch_simps \<open>facts on the modifications collected in a write batch\<close>
named_theorems store_simps \<open>facts on the versioned tables of the store\<close>
named_theorems queue_simps \<open>facts on the queue of pending writes\<close>

section \<open>Fallible computations\<close>

text \<open>
  A Rust function that returns \<open>Result<A, E>\<close> and may also panic has three outcomes.
  \<open>Panic\<close> carries the message of the \<open>expect\<close>, \<open>panic!\<close>, \<open>assert!\<close> or \<open>unreachable!\<close>
  that fired.
\<close>

datatype ('a, 'e) outcome = Ok 'a | Err 'e | Panic string

fun and_then :: "('a, 'e) outcome \<Rightarrow> ('a \<Rightarrow> ('b, 'e) outcome) \<Rightarrow> ('b, 'e) outcome" where
  "and_then (Ok x) f = f x"
| "and_then (Err e) f = Err e"
| "and_then (Panic s) f = Panic s"

fun map_ok :: "('a \<Rightarrow> 'b) \<Rightarrow> ('a, 'e) outcome \<Rightarrow> ('b, 'e) outcome" where
  "map_ok f (Ok x) = Ok (f x)"
| "map_ok f (Err e) = Err e"
| "map_ok f (Panic s) = Panic s"

fun map_err :: "('e \<Rightarrow> 'f) \<Rightarrow> ('a, 'e) outcome \<Rightarrow> ('a, 'f) outcome" where
  "map_err f (Ok x) = Ok x"
| "map_err f (Err e) = Err (f e)"
| "map_err f (Panic s) = Panic s"

fun is_ok :: "('a, 'e) outcome \<Rightarrow> bool" where
  "is_ok (Ok _) = True"
| "is_ok _ = False"

text \<open>A \<open>for\<close> loop whose body ends with \<open>?\<close>: the first failing step ends the loop.\<close>

fun try_fold :: "('s \<Rightarrow> 'x \<Rightarrow> ('s, 'e) outcome) \<Rightarrow> 's \<Rightarrow> 'x list \<Rightarrow> ('s, 'e) outcome" where
  "try_fold f s [] = Ok s"
| "try_fold f s (x # xs) = and_then (f s x) (\<lambda>s'. try_fold f s' xs)"

lemma and_then_eq_Ok [outcome_simps]:
  "and_then r f = Ok y \<longleftrightarrow> (\<exists>x. r = Ok x \<and> f x = Ok y)"
  by (cases r) auto

lemma map_ok_eq_Ok [outcome_simps]: "map_ok f r = Ok y \<longleftrightarrow> (\<exists>x. r = Ok x \<and> y = f x)"
  by (cases r) auto

lemma map_err_eq_Ok [outcome_simps]: "map_err f r = Ok y \<longleftrightarrow> r = Ok y"
  by (cases r) auto

lemma is_ok_iff [outcome_simps]: "is_ok r \<longleftrightarrow> (\<exists>x. r = Ok x)"
  by (cases r) auto

lemma try_fold_append [outcome_simps]:
  "try_fold f s (xs @ ys) = and_then (try_fold f s xs) (\<lambda>s'. try_fold f s' ys)"
proof (induction xs arbitrary: s)
  case (Cons x xs)
  then show ?case by (cases "f s x") auto
qed simp

lemma try_fold_map: "try_fold f s (map h xs) = try_fold (\<lambda>s x. f s (h x)) s xs"
  by (induction xs arbitrary: s) simp_all

lemma try_fold_cong:
  "(\<And>s x. x \<in> set xs \<Longrightarrow> f s x = g s x) \<Longrightarrow> try_fold f s xs = try_fold g s xs"
proof (induction xs arbitrary: s)
  case (Cons x xs)
  then have "f s x = g s x" "\<And>s. try_fold f s xs = try_fold g s xs" by simp_all
  then show ?case by simp
qed simp

text \<open>A loop inside of a loop\<close>

lemma try_fold_nested:
  "try_fold (\<lambda>s (a, b). try_fold (f a) s (g b)) s xs =
     try_fold (\<lambda>s (a, y). f a s y) s (concat (map (\<lambda>(a, b). map (Pair a) (g b)) xs))"
  by (induction xs arbitrary: s) (auto simp: try_fold_append try_fold_map)

text \<open>An invariant of the body of a fallible loop holds when the loop has ended well.\<close>

lemma try_fold_invariant:
  assumes "try_fold f s xs = Ok s'"
    and "P s"
    and step: "\<And>s x t. x \<in> set xs \<Longrightarrow> P s \<Longrightarrow> f s x = Ok t \<Longrightarrow> P t"
  shows "P s'"
  using assms
proof (induction xs arbitrary: s)
  case (Cons x xs)
  then obtain t where "f s x = Ok t" "try_fold f t xs = Ok s'"
    by (auto simp: outcome_simps)
  with Cons show ?case by (metis list.set_intros(1,2))
qed simp

text \<open>A computation that may also not end: \<open>None\<close> is the one that does not.\<close>

definition and_then_opt :: "('a, 'e) outcome option \<Rightarrow> ('a \<Rightarrow> ('b, 'e) outcome option) \<Rightarrow> ('b, 'e) outcome option" where
  "and_then_opt r f =
     (case r of
        None \<Rightarrow> None
      | Some (Ok x) \<Rightarrow> f x
      | Some (Err e) \<Rightarrow> Some (Err e)
      | Some (Panic s) \<Rightarrow> Some (Panic s))"

fun try_fold_opt :: "('s \<Rightarrow> 'x \<Rightarrow> ('s, 'e) outcome option) \<Rightarrow> 's \<Rightarrow> 'x list \<Rightarrow> ('s, 'e) outcome option" where
  "try_fold_opt f s [] = Some (Ok s)"
| "try_fold_opt f s (x # xs) = and_then_opt (f s x) (\<lambda>s'. try_fold_opt f s' xs)"

lemma and_then_opt_Ok [outcome_simps]:
  "and_then_opt r f = Some (Ok y) \<longleftrightarrow> (\<exists>x. r = Some (Ok x) \<and> f x = Some (Ok y))"
  by (auto simp: and_then_opt_def split: option.split outcome.split)

lemma try_fold_opt_append [outcome_simps]:
  "try_fold_opt f s (xs @ ys) = and_then_opt (try_fold_opt f s xs) (\<lambda>s'. try_fold_opt f s' ys)"
proof (induction xs arbitrary: s)
  case Nil
  then show ?case by (simp add: and_then_opt_def)
next
  case (Cons x xs)
  then show ?case by (simp add: and_then_opt_def split: option.split outcome.split)
qed

text \<open>
  A method that takes \<open>&mut self\<close> and returns \<open>Result<(), E>\<close> gives the state it leaves behind also
  when it fails. \<open>mut_fold\<close> is the loop over such a method that ends with the first error.
\<close>

fun mut_fold :: "('s \<Rightarrow> 'x \<Rightarrow> 's \<times> (unit, 'e) outcome) \<Rightarrow> 's \<Rightarrow> 'x list \<Rightarrow> 's \<times> (unit, 'e) outcome" where
  "mut_fold f s [] = (s, Ok ())"
| "mut_fold f s (x # xs) =
     (case f s x of
        (s', Ok _) \<Rightarrow> mut_fold f s' xs
      | (s', r) \<Rightarrow> (s', r))"

lemma mut_fold_append:
  "mut_fold f s (xs @ ys) =
     (case mut_fold f s xs of (s', Ok _) \<Rightarrow> mut_fold f s' ys | (s', r) \<Rightarrow> (s', r))"
  by (induction xs arbitrary: s) (auto split: prod.split outcome.split)

lemma mut_fold_invariant:
  assumes "P s" "\<And>s x s' r. x \<in> set xs \<Longrightarrow> P s \<Longrightarrow> f s x = (s', r) \<Longrightarrow> P s'"
  shows "P (fst (mut_fold f s xs))"
  using assms
proof (induction xs arbitrary: s)
  case (Cons x xs)
  obtain s' r where f: "f s x = (s', r)" by fastforce
  with Cons.prems have "P s'" by (metis list.set_intros(1))
  moreover have "P (fst (mut_fold f s' xs))"
    using Cons.IH [OF \<open>P s'\<close>] Cons.prems(2) by (metis list.set_intros(2))
  ultimately show ?case using f by (auto split: outcome.split)
qed simp

section \<open>Searching lists\<close>

text \<open>\<open>rfind\<close> returns the last element that satisfies the predicate.\<close>

definition rfind :: "('a \<Rightarrow> bool) \<Rightarrow> 'a list \<Rightarrow> 'a option" where
  "rfind P xs = find P (rev xs)"

lemma find_append: "find P (xs @ ys) = (case find P xs of None \<Rightarrow> find P ys | Some x \<Rightarrow> Some x)"
  by (induction xs) auto

lemma rfind_Nil [simp]: "rfind P [] = None"
  by (simp add: rfind_def)

lemma rfind_snoc [simp]: "rfind P (xs @ [x]) = (if P x then Some x else rfind P xs)"
  by (simp add: rfind_def)

lemma rfind_append:
  "rfind P (xs @ ys) = (case rfind P ys of None \<Rightarrow> rfind P xs | Some y \<Rightarrow> Some y)"
  by (simp add: rfind_def find_append split: option.split)

lemma rfind_Cons:
  "rfind P (x # xs) = (case rfind P xs of None \<Rightarrow> (if P x then Some x else None) | Some y \<Rightarrow> Some y)"
  using rfind_append [of P "[x]" xs] rfind_snoc [of P "[]" x] by (simp split: option.split)

lemma rfind_None_iff: "rfind P xs = None \<longleftrightarrow> (\<forall>x \<in> set xs. \<not> P x)"
  by (auto simp: rfind_def find_None_iff)

lemma rfind_Some_D: "rfind P xs = Some x \<Longrightarrow> x \<in> set xs \<and> P x"
  unfolding rfind_def by (metis find_Some_iff nth_mem set_rev)

lemma rfind_cong:
  "(\<And>x. x \<in> set xs \<Longrightarrow> P x = Q x) \<Longrightarrow> rfind P xs = rfind Q xs"
  unfolding rfind_def by (rule find_cong) auto

lemma find_Some_mem: "find P xs = Some x \<Longrightarrow> x \<in> set xs \<and> P x"
  by (metis find_Some_iff nth_mem)

text \<open>The position of the last element that satisfies the predicate.\<close>

fun rposition :: "('a \<Rightarrow> bool) \<Rightarrow> 'a list \<Rightarrow> nat option" where
  "rposition P [] = None"
| "rposition P (x # xs) =
     (case rposition P xs of Some i \<Rightarrow> Some (Suc i) | None \<Rightarrow> if P x then Some 0 else None)"

lemma rposition_snoc [simp]:
  "rposition P (xs @ [x]) = (if P x then Some (length xs) else rposition P xs)"
  by (induction xs) (auto split: option.split)

lemma rposition_None_iff: "rposition P xs = None \<longleftrightarrow> (\<forall>x \<in> set xs. \<not> P x)"
  by (induction xs) (auto split: option.split)

lemma rposition_split:
  assumes "rposition P xs = Some i"
  obtains ys y zs where "xs = ys @ y # zs" "length ys = i" "P y" "\<forall>z \<in> set zs. \<not> P z"
  using assms
proof (induction xs arbitrary: i thesis)
  case (Cons x xs)
  show ?case
  proof (cases "rposition P xs")
    case None
    with Cons.prems(2) have "P x" "i = 0" by (auto split: if_splits)
    with None Cons.prems(1) [of "[]" x xs] show ?thesis by (auto simp: rposition_None_iff)
  next
    case (Some j)
    from Cons.IH [OF _ Some] obtain ys y zs where
      "xs = ys @ y # zs" "length ys = j" "P y" "\<forall>z \<in> set zs. \<not> P z" by blast
    with Some Cons.prems show ?thesis by (auto intro: Cons.prems(1) [of "x # ys"])
  qed
qed simp

lemma rfind_rposition: "rfind P xs = map_option (\<lambda>i. xs ! i) (rposition P xs)"
proof (cases "rposition P xs")
  case None
  then have "rfind P xs = None" by (simp add: rposition_None_iff rfind_None_iff)
  with None show ?thesis by simp
next
  case (Some i)
  then obtain ys y zs where s: "xs = ys @ y # zs" "length ys = i" "P y" "\<forall>z \<in> set zs. \<not> P z"
    by (rule rposition_split)
  then have "rfind P zs = None" by (simp add: rfind_None_iff)
  with s Some show ?thesis by (auto simp: rfind_append rfind_Cons)
qed

section \<open>Finite maps\<close>

lemma map_of_rev_distinct: "distinct (map fst kvs) \<Longrightarrow> map_of (rev kvs) = map_of kvs"
  by (subst map_of_inject_set) (auto simp: rev_map [symmetric])

text \<open>A map that is contained in a finite map of the same size is that map.\<close>

lemma map_le_card_eq:
  assumes "finite (dom n)" "card (dom m) = card (dom n)" "\<And>k v. m k = Some v \<Longrightarrow> n k = Some v"
  shows "m = n"
proof -
  have "dom m \<subseteq> dom n" using assms(3) by (auto simp: dom_def)
  then have "dom m = dom n" using assms(1,2) by (simp add: card_subset_eq)
  then show ?thesis
    using assms(3) by (intro ext) (metis domD domIff option.exhaust)
qed

end
