(* ===== verification/Values.thy ===== *)
theory Values
  imports Prelude
begin

text \<open>
  Attribute values, the first part of \<open>graph/src/data/store/mod.rs\<close>: the scalar types an
  attribute can have (\<open>ValueType\<close>) with their names and their coercion order, and the values
  (\<open>Value\<close>) with the check whether a value can be stored in a column of a given type.
\<close>

section \<open>Types of values\<close>

datatype value_type =
    VT_Boolean | VT_BigInt | VT_Bytes | VT_BigDecimal | VT_Int | VT_Int8 | VT_String | VT_Timestamp

definition value_type_from_str :: "string \<Rightarrow> (value_type, string) outcome" where
  "value_type_from_str s =
     (if s = ''Boolean'' then Ok VT_Boolean
      else if s = ''BigInt'' then Ok VT_BigInt
      else if s = ''Bytes'' then Ok VT_Bytes
      else if s = ''BigDecimal'' then Ok VT_BigDecimal
      else if s = ''Int'' then Ok VT_Int
      else if s = ''Int8'' then Ok VT_Int8
      else if s = ''Timestamp'' then Ok VT_Timestamp
      else if s = ''String'' \<or> s = ''ID'' then Ok VT_String
      else Err (''Type not available in this context: '' @ s))"

definition is_scalar :: "string \<Rightarrow> bool" where
  "is_scalar s \<longleftrightarrow> is_ok (value_type_from_str s)"

fun is_numeric :: "value_type \<Rightarrow> bool" where
  "is_numeric VT_BigInt = True"
| "is_numeric VT_BigDecimal = True"
| "is_numeric VT_Int = True"
| "is_numeric VT_Int8 = True"
| "is_numeric _ = False"

fun value_type_to_str :: "value_type \<Rightarrow> string" where
  "value_type_to_str VT_Boolean = ''Boolean''"
| "value_type_to_str VT_BigInt = ''BigInt''"
| "value_type_to_str VT_Bytes = ''Bytes''"
| "value_type_to_str VT_BigDecimal = ''BigDecimal''"
| "value_type_to_str VT_Int = ''Int''"
| "value_type_to_str VT_Int8 = ''Int8''"
| "value_type_to_str VT_Timestamp = ''Timestamp''"
| "value_type_to_str VT_String = ''String''"

text \<open>\<open>PartialOrd for ValueType\<close>, in the order of the arms of the \<open>match\<close>.\<close>

datatype ordering = Less | Equal | Greater

definition value_type_partial_cmp :: "value_type \<Rightarrow> value_type \<Rightarrow> ordering option" where
  "value_type_partial_cmp s t =
     (if (s, t) \<in> {(VT_Boolean, VT_Boolean), (VT_BigInt, VT_BigInt), (VT_Bytes, VT_Bytes),
           (VT_BigDecimal, VT_BigDecimal), (VT_Int, VT_Int), (VT_Int8, VT_Int8), (VT_String, VT_String)} then Some Equal
      else if (s, t) \<in> {(VT_BigInt, VT_BigDecimal), (VT_Int, VT_BigInt), (VT_Int, VT_BigDecimal),
           (VT_Int, VT_Int8), (VT_Int8, VT_BigInt), (VT_Int8, VT_BigDecimal)} then Some Less
      else if (s, t) \<in> {(VT_BigInt, VT_Int), (VT_BigInt, VT_Int8), (VT_BigDecimal, VT_BigInt),
           (VT_BigDecimal, VT_Int), (VT_BigDecimal, VT_Int8), (VT_Int8, VT_Int)} then Some Greater
      else None)"

section \<open>Values\<close>

text \<open>
  A decimal number is a value of the \<open>bigdecimal\<close> crate, the type parameter \<open>'d\<close>. A timestamp
  is an instant, in nanoseconds since the epoch.
\<close>

type_synonym bytes = "8 word list"

datatype 'd Value =
    StringV string
  | IntV "32 word"
  | Int8V "64 word"
  | TimestampV int
  | BigDecimalV 'd
  | BoolV bool
  | ListV "'d Value list"
  | NullV
  | BytesV bytes
  | BigIntV int

definition as_string :: "'d Value \<Rightarrow> string option" where
  "as_string v = (case v of StringV s \<Rightarrow> Some s | _ \<Rightarrow> None)"

definition as_int :: "'d Value \<Rightarrow> 32 word option" where
  "as_int v = (case v of IntV i \<Rightarrow> Some i | _ \<Rightarrow> None)"

definition as_int8 :: "'d Value \<Rightarrow> 64 word option" where
  "as_int8 v = (case v of Int8V i \<Rightarrow> Some i | _ \<Rightarrow> None)"

definition as_big_decimal :: "'d Value \<Rightarrow> 'd option" where
  "as_big_decimal v = (case v of BigDecimalV d \<Rightarrow> Some d | _ \<Rightarrow> None)"

definition as_bool :: "'d Value \<Rightarrow> bool option" where
  "as_bool v = (case v of BoolV b \<Rightarrow> Some b | _ \<Rightarrow> None)"

definition as_list :: "'d Value \<Rightarrow> 'd Value list option" where
  "as_list v = (case v of ListV vs \<Rightarrow> Some vs | _ \<Rightarrow> None)"

definition as_bytes :: "'d Value \<Rightarrow> bytes option" where
  "as_bytes v = (case v of BytesV b \<Rightarrow> Some b | _ \<Rightarrow> None)"

definition as_bigint :: "'d Value \<Rightarrow> int option" where
  "as_bigint v = (case v of BigIntV n \<Rightarrow> Some n | _ \<Rightarrow> None)"

fun type_name :: "'d Value \<Rightarrow> string" where
  "type_name (BigDecimalV _) = ''BigDecimal''"
| "type_name (BigIntV _) = ''BigInt''"
| "type_name (BoolV _) = ''Boolean''"
| "type_name (BytesV _) = ''Bytes''"
| "type_name (IntV _) = ''Int''"
| "type_name (Int8V _) = ''Int8''"
| "type_name (TimestampV _) = ''Timestamp''"
| "type_name (ListV []) = ''[Any]''"
| "type_name (ListV (v # vs)) = ''['' @ type_name v @ '']''"
| "type_name NullV = ''Null''"
| "type_name (StringV _) = ''String''"

fun is_assignable :: "'d Value \<Rightarrow> value_type \<Rightarrow> bool \<Rightarrow> bool" where
  "is_assignable v t is_list =
     (case v of
        StringV _ \<Rightarrow> t = VT_String
      | BigDecimalV _ \<Rightarrow> t = VT_BigDecimal
      | BigIntV _ \<Rightarrow> t = VT_BigInt
      | BoolV _ \<Rightarrow> t = VT_Boolean
      | BytesV _ \<Rightarrow> t = VT_Bytes
      | IntV _ \<Rightarrow> t = VT_Int
      | Int8V _ \<Rightarrow> t = VT_Int8
      | TimestampV _ \<Rightarrow> t = VT_Timestamp
      | NullV \<Rightarrow> True
      | ListV vs \<Rightarrow> is_list \<and> (\<forall>w \<in> set vs. is_assignable w t False))"

declare is_assignable.simps [simp del]

definition is_null :: "'d Value \<Rightarrow> bool" where
  "is_null v \<longleftrightarrow> (case v of NullV \<Rightarrow> True | _ \<Rightarrow> False)"

section \<open>Lemmas\<close>

lemma is_null_iff [simp]: "is_null v \<longleftrightarrow> v = NullV"
  by (simp add: is_null_def split: Value.split)

lemma value_type_from_to_str: "value_type_from_str (value_type_to_str t) = Ok t"
  by (cases t) (simp_all add: value_type_from_str_def)

lemma partial_cmp_Equal: "value_type_partial_cmp s t = Some Equal \<longleftrightarrow> s = t \<and> s \<noteq> VT_Timestamp"
  by (cases s; cases t) (simp_all add: value_type_partial_cmp_def)

lemma partial_cmp_flip:
  "value_type_partial_cmp s t = Some Less \<longleftrightarrow> value_type_partial_cmp t s = Some Greater"
  by (cases s; cases t) (simp_all add: value_type_partial_cmp_def)

lemma partial_cmp_trans:
  "value_type_partial_cmp s t = Some Less \<Longrightarrow> value_type_partial_cmp t u = Some Less \<Longrightarrow>
     value_type_partial_cmp s u = Some Less"
  by (cases s; cases t; simp add: value_type_partial_cmp_def) (cases u; simp)+

lemma partial_cmp_numeric:
  "s \<noteq> t \<Longrightarrow> value_type_partial_cmp s t \<noteq> None \<longleftrightarrow> is_numeric s \<and> is_numeric t"
  by (cases s; cases t) (simp_all add: value_type_partial_cmp_def)

text \<open>The values that can be stored in a column of scalar type are those with the name of the type.\<close>

lemma is_assignable_scalar:
  "is_assignable v t False \<longleftrightarrow> v = NullV \<or> (type_name v = value_type_to_str t)"
proof (cases v)
  case (ListV vs)
  then show ?thesis by (cases vs; cases t) (auto simp: is_assignable.simps)
qed (cases t; simp add: is_assignable.simps)+

lemma is_assignable_list:
  "is_assignable (ListV vs) t True \<longleftrightarrow> (\<forall>v \<in> set vs. is_assignable v t False)"
  by (simp add: is_assignable.simps [of "ListV vs"])

end
