(* ===== verification/Entity_Id.thy ===== *)
theory Entity_Id
  imports Values "HOL-Library.Char_ord" "HOL-Library.List_Lexorder"
begin

text \<open>
  Identifiers of entities. \<open>graph/src/data/store/id.rs\<close>: the id types, the ids, the generation
  of ids from a block number and a sequence number, and homogeneous lists of ids;
  \<open>graph/src/components/store/entity_cache.rs\<close>: the \<open>SeqGenerator\<close> that hands out row versions
  (\<open>vid\<close>) and ids within a block; \<open>graph/src/schema/entity_key.rs\<close>: the key of an entity.
\<close>

section \<open>Ids\<close>

datatype id_type = ID_String | ID_Bytes | ID_Int8

datatype Id = StringId string | BytesId bytes | Int8Id "64 word"

fun id_type_as_str :: "id_type \<Rightarrow> string" where
  "id_type_as_str ID_String = ''String''"
| "id_type_as_str ID_Bytes = ''Bytes''"
| "id_type_as_str ID_Int8 = ''Int8''"

fun id_type_of :: "Id \<Rightarrow> id_type" where
  "id_type_of (StringId _) = ID_String"
| "id_type_of (BytesId _) = ID_Bytes"
| "id_type_of (Int8Id _) = ID_Int8"

text \<open>
  Parsing a string into an id. \<open>Bytes::from_str\<close> strips all leading \<open>0x\<close> and decodes the rest with
  the \<open>hex\<close> crate, the parameter \<open>hex_decode\<close>; \<open>parse_i64\<close> is the parser of the standard library.
\<close>

fun trim_start_0x :: "string \<Rightarrow> string" where
  "trim_start_0x (a # b # s) = (if a = CHR ''0'' \<and> b = CHR ''x'' then trim_start_0x s else a # b # s)"
| "trim_start_0x s = s"

definition bytes_from_str :: "(string \<Rightarrow> bytes option) \<Rightarrow> string \<Rightarrow> bytes option" where
  "bytes_from_str hex_decode s = hex_decode (trim_start_0x s)"

definition bytes_to_string :: "(bytes \<Rightarrow> string) \<Rightarrow> bytes \<Rightarrow> string" where
  "bytes_to_string hex_encode b = ''0x'' @ hex_encode b"

definition id_type_parse ::
  "(string \<Rightarrow> bytes option) \<Rightarrow> (string \<Rightarrow> 64 word option) \<Rightarrow> id_type \<Rightarrow> string \<Rightarrow> (Id, string) outcome" where
  "id_type_parse hex_decode parse_i64 t s =
     (case t of
        ID_String \<Rightarrow> Ok (StringId s)
      | ID_Bytes \<Rightarrow>
          (case bytes_from_str hex_decode s of
             Some b \<Rightarrow> Ok (BytesId b)
           | None \<Rightarrow> Err (''can not convert `'' @ s @ ''` to Id::Bytes''))
      | ID_Int8 \<Rightarrow>
          (case parse_i64 s of
             Some i \<Rightarrow> Ok (Int8Id i)
           | None \<Rightarrow> Err (''can not convert `'' @ s @ ''` to Id::Int8'')))"

definition id_display :: "(bytes \<Rightarrow> string) \<Rightarrow> (64 word \<Rightarrow> string) \<Rightarrow> Id \<Rightarrow> string" where
  "id_display hex_encode show_i64 i =
     (case i of StringId s \<Rightarrow> s | BytesId b \<Rightarrow> bytes_to_string hex_encode b | Int8Id n \<Rightarrow> show_i64 n)"

text \<open>Comparison of an id with a value and the conversions between the two.\<close>

definition id_eq_value :: "Id \<Rightarrow> 'd Value \<Rightarrow> bool" where
  "id_eq_value i v =
     (case (i, v) of
        (StringId s, StringV w) \<Rightarrow> s = w
      | (BytesId s, BytesV w) \<Rightarrow> s = w
      | (Int8Id s, Int8V w) \<Rightarrow> s = w
      | _ \<Rightarrow> False)"

fun id_try_from_value :: "'d Value \<Rightarrow> (Id, string) outcome" where
  "id_try_from_value (StringV s) = Ok (StringId s)"
| "id_try_from_value (BytesV b) = Ok (BytesId b)"
| "id_try_from_value (Int8V i) = Ok (Int8Id i)"
| "id_try_from_value _ = Err ''expected string or bytes for id''"

fun value_from_id :: "Id \<Rightarrow> 'd Value" where
  "value_from_id (StringId s) = StringV s"
| "value_from_id (BytesId b) = BytesV b"
| "value_from_id (Int8Id i) = Int8V i"

section \<open>Generating ids\<close>

text \<open>\<open>to_be_bytes\<close>, \<open>to_le_bytes\<close> and \<open>from_le_bytes\<close> of the standard library.\<close>

definition to_le_bytes :: "32 word \<Rightarrow> bytes" where
  "to_le_bytes w = [ucast w, ucast (drop_bit 8 w), ucast (drop_bit 16 w), ucast (drop_bit 24 w)]"

definition to_be_bytes :: "32 word \<Rightarrow> bytes" where
  "to_be_bytes w = rev (to_le_bytes w)"

definition from_le_bytes :: "bytes \<Rightarrow> 64 word" where
  "from_le_bytes bs = foldr (\<lambda>b n. ucast b + push_bit 8 n) bs 0"

text \<open>\<open>IdType::generate_id\<close>; \<open>block\<close> is an \<open>i32\<close> and \<open>seq\<close> a \<open>u32\<close>.\<close>

definition generate_id :: "id_type \<Rightarrow> 32 word \<Rightarrow> 32 word \<Rightarrow> (Id, string) outcome" where
  "generate_id t block sq =
     (case t of
        ID_String \<Rightarrow> Err ''String does not support generating ids''
      | ID_Bytes \<Rightarrow> Ok (BytesId (to_be_bytes block @ to_be_bytes sq))
      | ID_Int8 \<Rightarrow> Ok (Int8Id (from_le_bytes (to_le_bytes sq @ to_le_bytes block))))"

definition RESERVED_VIDS :: "32 word" where
  "RESERVED_VIDS = 100"

record seq_generator =
  sg_block :: "32 word"
  sg_vid_seq :: "32 word"
  sg_id_seq :: "32 word"

definition seq_new :: "32 word \<Rightarrow> seq_generator" where
  "seq_new block = \<lparr>sg_block = block, sg_vid_seq = RESERVED_VIDS, sg_id_seq = 0\<rparr>"

text \<open>\<open>fetch_add\<close> returns the old value and wraps around.\<close>

definition seq_vid :: "seq_generator \<Rightarrow> 64 word \<times> seq_generator" where
  "seq_vid g =
     (push_bit 32 (scast (sg_block g)) + ucast (sg_vid_seq g), g\<lparr>sg_vid_seq := sg_vid_seq g + 1\<rparr>)"

definition seq_id :: "seq_generator \<Rightarrow> id_type \<Rightarrow> (Id, string) outcome \<times> seq_generator" where
  "seq_id g t = (generate_id t (sg_block g) (sg_id_seq g), g\<lparr>sg_id_seq := sg_id_seq g + 1\<rparr>)"

section \<open>Homogeneous lists of ids\<close>

datatype id_list = StringIds "string list" | BytesIds "bytes list" | Int8Ids "64 word list"

fun id_list_new :: "id_type \<Rightarrow> id_list" where
  "id_list_new ID_String = StringIds []"
| "id_list_new ID_Bytes = BytesIds []"
| "id_list_new ID_Int8 = Int8Ids []"

fun id_list_len :: "id_list \<Rightarrow> nat" where
  "id_list_len (StringIds xs) = length xs"
| "id_list_len (BytesIds xs) = length xs"
| "id_list_len (Int8Ids xs) = length xs"

definition id_list_is_empty :: "id_list \<Rightarrow> bool" where
  "id_list_is_empty l \<longleftrightarrow> id_list_len l = 0"

fun id_list_type :: "id_list \<Rightarrow> id_type" where
  "id_list_type (StringIds _) = ID_String"
| "id_list_type (BytesIds _) = ID_Bytes"
| "id_list_type (Int8Ids _) = ID_Int8"

fun as_ids :: "id_list \<Rightarrow> Id list" where
  "as_ids (StringIds xs) = map StringId xs"
| "as_ids (BytesIds xs) = map BytesId xs"
| "as_ids (Int8Ids xs) = map Int8Id xs"

fun id_list_push :: "id_list \<Rightarrow> Id \<Rightarrow> (id_list, string) outcome" where
  "id_list_push (StringIds xs) (StringId x) = Ok (StringIds (xs @ [x]))"
| "id_list_push (BytesIds xs) (BytesId x) = Ok (BytesIds (xs @ [x]))"
| "id_list_push (Int8Ids xs) (Int8Id x) = Ok (Int8Ids (xs @ [x]))"
| "id_list_push l i =
     Err (''expected id of type '' @ id_type_as_str (id_list_type l) @ '', but got '' @ id_type_as_str (id_type_of i))"

text \<open>
  The three branches of \<open>try_from_iter\<close> run the same fold, with the constructor of the id type.
\<close>

definition string_id :: "Id \<Rightarrow> (string, string) outcome" where
  "string_id i = (case i of StringId s \<Rightarrow> Ok s | _ \<Rightarrow> Err (''expected string id, got '' @ id_type_as_str (id_type_of i)))"

definition bytes_id :: "Id \<Rightarrow> (bytes, string) outcome" where
  "bytes_id i = (case i of BytesId b \<Rightarrow> Ok b | _ \<Rightarrow> Err (''expected bytes id, got '' @ id_type_as_str (id_type_of i)))"

definition int8_id :: "Id \<Rightarrow> (64 word, string) outcome" where
  "int8_id i = (case i of Int8Id n \<Rightarrow> Ok n | _ \<Rightarrow> Err (''expected int8 id, got '' @ id_type_as_str (id_type_of i)))"

definition collect_ids :: "(Id \<Rightarrow> ('a, string) outcome) \<Rightarrow> 'a list \<Rightarrow> Id list \<Rightarrow> ('a list, string) outcome" where
  "collect_ids f xs is = try_fold (\<lambda>ids i. map_ok (\<lambda>x. ids @ [x]) (f i)) xs is"

definition try_from_iter :: "id_type \<Rightarrow> Id list \<Rightarrow> (id_list, string) outcome" where
  "try_from_iter t is =
     (case t of
        ID_String \<Rightarrow> map_ok StringIds (collect_ids string_id [] is)
      | ID_Bytes \<Rightarrow> map_ok BytesIds (collect_ids bytes_id [] is)
      | ID_Int8 \<Rightarrow> map_ok Int8Ids (collect_ids int8_id [] is))"

definition try_from_iter_ref :: "Id list \<Rightarrow> (id_list, string) outcome" where
  "try_from_iter_ref is =
     (case is of
        [] \<Rightarrow> Ok (StringIds [])
      | StringId s # rest \<Rightarrow> map_ok StringIds (collect_ids string_id [s] rest)
      | BytesId b # rest \<Rightarrow> map_ok BytesIds (collect_ids bytes_id [b] rest)
      | Int8Id n # rest \<Rightarrow> map_ok Int8Ids (collect_ids int8_id [n] rest))"

definition id_list_index :: "id_list \<Rightarrow> nat \<Rightarrow> (Id, string) outcome" where
  "id_list_index l i =
     (if i < id_list_len l then Ok (as_ids l ! i) else Panic ''index out of bounds'')"

definition id_list_first :: "id_list \<Rightarrow> (Id, string) outcome option" where
  "id_list_first l = (if \<not> id_list_is_empty l then Some (id_list_index l 0) else None)"

text \<open>
  \<open>as_unique\<close> sorts and removes consecutive duplicates. Strings are compared by their bytes, byte
  arrays lexicographically and \<open>Int8\<close> ids as signed integers.
\<close>

fun as_unique :: "id_list \<Rightarrow> id_list" where
  "as_unique (StringIds xs) = StringIds (remdups_adj (sort xs))"
| "as_unique (BytesIds xs) = BytesIds (remdups_adj (sort xs))"
| "as_unique (Int8Ids xs) = Int8Ids (remdups_adj (sort_key sint xs))"

section \<open>Keys\<close>

text \<open>
  An \<open>EntityType\<close> is compared, ordered and hashed as the name of the type; what the schema says
  about a type is a parameter of the operations that ask for it. A causality region is an
  \<open>i32\<close>, \<open>ONCHAIN\<close> is 0.
\<close>

type_synonym entity_type = string
type_synonym causality_region = int

definition ONCHAIN :: causality_region where
  "ONCHAIN = 0"

record entity_key =
  k_entity_type :: entity_type
  k_entity_id :: Id
  k_causality_region :: causality_region

definition key_in :: "entity_type \<Rightarrow> Id \<Rightarrow> causality_region \<Rightarrow> entity_key" where
  "key_in t i cr = \<lparr>k_entity_type = t, k_entity_id = i, k_causality_region = cr\<rparr>"

definition entity_type_key :: "entity_type \<Rightarrow> Id \<Rightarrow> entity_key" where
  "entity_type_key t i = key_in t i ONCHAIN"

definition key_id_value :: "entity_key \<Rightarrow> 'd Value" where
  "key_id_value k = value_from_id (k_entity_id k)"

section \<open>Lemmas\<close>

lemma id_value_roundtrip: "id_try_from_value (value_from_id i) = Ok i"
  by (cases i) simp_all

lemma id_try_from_value_iff: "id_try_from_value v = Ok i \<longleftrightarrow> v = value_from_id i"
  by (cases v; cases i) auto

lemma id_eq_value_iff: "id_eq_value i v \<longleftrightarrow> v = value_from_id i"
  by (cases i; cases v) (auto simp: id_eq_value_def)

lemma id_list_push_ok:
  "id_list_push l i = Ok l' \<Longrightarrow> as_ids l' = as_ids l @ [i] \<and> id_list_type l' = id_list_type l"
  by (cases l; cases i) auto

lemma id_list_push_is_ok: "is_ok (id_list_push l i) \<longleftrightarrow> id_type_of i = id_list_type l"
  by (cases l; cases i) auto

lemma as_ids_types: "i \<in> set (as_ids l) \<Longrightarrow> id_type_of i = id_list_type l"
  by (cases l) auto

lemma sorted_distinct_remdups_adj: "sorted xs \<Longrightarrow> distinct (remdups_adj xs)"
  by (induction xs rule: remdups_adj.induct) (auto simp: order.antisym)

lemma inj_sint: "inj (sint :: 64 word \<Rightarrow> int)"
  by (rule injI) (metis word_eq_iff_signed)

lemma distinct_remdups_adj_sort_key:
  assumes "inj f"
  shows "distinct (remdups_adj (sort_key f xs))"
proof -
  have "map f (remdups_adj (sort_key f xs)) = remdups_adj (map f (sort_key f xs))"
    using assms by (simp add: remdups_adj_map_injective)
  moreover have "distinct (remdups_adj (map f (sort_key f xs)))"
    by (rule sorted_distinct_remdups_adj) simp
  ultimately show ?thesis by (metis distinct_map)
qed

lemma as_unique_ids:
  "set (as_ids (as_unique l)) = set (as_ids l) \<and> distinct (as_ids (as_unique l)) \<and>
   id_list_type (as_unique l) = id_list_type l"
proof (cases l)
  case (StringIds xs)
  then show ?thesis
    using distinct_remdups_adj_sort_key [of "\<lambda>x. x" xs] by (simp add: distinct_map inj_on_def)
next
  case (BytesIds xs)
  then show ?thesis
    using distinct_remdups_adj_sort_key [of "\<lambda>x. x" xs] by (simp add: distinct_map inj_on_def)
next
  case (Int8Ids xs)
  then show ?thesis
    using distinct_remdups_adj_sort_key [OF inj_sint, of xs] by (simp add: distinct_map inj_on_def)
qed

text \<open>The bytes of a 32-bit number and the number of a list of bytes.\<close>

lemma unat32_less: "unat (w :: 32 word) < 4294967296"
  using unsigned_less [of w] by simp

lemma unat_ucast_byte: "unat (ucast (drop_bit k (w :: 32 word)) :: 8 word) = (unat w div 2 ^ k) mod 256"
  using unat32_less [of w]
  by (simp add: unsigned_ucast_eq take_bit_eq_mod unsigned_drop_bit_eq) (simp add: drop_bit_eq_div)

lemma split_bytes:
  fixes n :: nat
  assumes "n < 4294967296"
  shows "n mod 256 + 256 * ((n div 256) mod 256 + 256 * ((n div 65536) mod 256 + 256 * ((n div 16777216) mod 256))) = n"
proof -
  have "n div 16777216 mod 256 = n div 16777216" using assms by (simp add: div_less_dividend less_mult_imp_div_less)
  moreover have "n div 65536 = n div 65536 mod 256 + 256 * (n div 16777216)"
    using mod_mult_div_eq [of "n div 65536" 256] by (simp flip: div_mult2_eq)
  moreover have "n div 256 = n div 256 mod 256 + 256 * (n div 65536)"
    using mod_mult_div_eq [of "n div 256" 256] by (simp flip: div_mult2_eq)
  ultimately show ?thesis using mod_mult_div_eq [of n 256] by simp
qed

lemma unat_from_le_bytes:
  "length bs \<le> 8 \<Longrightarrow> unat (from_le_bytes bs) = foldr (\<lambda>b n. unat b + 256 * n) bs 0 \<and>
     unat (from_le_bytes bs) < 256 ^ length bs"
proof (induction bs)
  case (Cons b bs)
  let ?r = "from_le_bytes bs"
  have IH: "unat ?r = foldr (\<lambda>b n. unat b + 256 * n) bs 0" "unat ?r < 256 ^ length bs"
    using Cons by simp_all
  have b: "unat b < 256" using unsigned_less [of b] by simp
  have "unat b + 256 * unat ?r < 256 ^ Suc (length bs)" using IH(2) b by simp
  moreover have "(256 :: nat) ^ Suc (length bs) \<le> 256 ^ 8"
    using Cons.prems by (intro power_increasing) auto
  ultimately have fits: "unat b + 256 * unat ?r < 2 ^ 64" by simp
  have "unat (ucast b :: 64 word) = unat b"
    using b by (simp add: unsigned_ucast_eq take_bit_eq_mod)
  then have "unat (ucast b + push_bit 8 ?r) = unat b + 256 * unat ?r"
    using fits by (simp add: unat_word_ariths push_bit_eq_mult unsigned_push_bit_eq take_bit_eq_mod mod_add_right_eq)
  with IH \<open>unat b + 256 * unat ?r < 256 ^ Suc (length bs)\<close> show ?case
    by (simp add: from_le_bytes_def)
qed (simp add: from_le_bytes_def)

lemma foldr_to_le_bytes:
  "foldr (\<lambda>b n. unat b + 256 * n) (to_le_bytes w) m = unat w + 2 ^ 32 * m"
proof -
  have w: "unat w < 4294967296" by (rule unat32_less)
  have "foldr (\<lambda>b n. unat b + 256 * n) (to_le_bytes w) m =
      (unat w mod 256 + 256 * ((unat w div 256) mod 256 + 256 * ((unat w div 65536) mod 256
        + 256 * ((unat w div 16777216) mod 256)))) + 2 ^ 32 * m"
    using unat_ucast_byte [of 0 w] unat_ucast_byte [of 8 w] unat_ucast_byte [of 16 w] unat_ucast_byte [of 24 w]
    by (simp add: to_le_bytes_def)
  then show ?thesis by (simp only: split_bytes [OF w])
qed

text \<open>The \<open>Int8\<close> id has the block in its upper and the sequence number in its lower 32 bits.\<close>

lemma unat_int8_id:
  "unat (from_le_bytes (to_le_bytes sq @ to_le_bytes block)) = 2 ^ 32 * unat block + unat sq"
proof -
  have "length (to_le_bytes sq @ to_le_bytes block) \<le> 8" by (simp add: to_le_bytes_def)
  then show ?thesis
    using unat_from_le_bytes [of "to_le_bytes sq @ to_le_bytes block"]
      foldr_to_le_bytes [of block 0] foldr_to_le_bytes [of sq "unat block"]
    by simp
qed

lemma to_le_bytes_inj: "to_le_bytes v = to_le_bytes w \<Longrightarrow> v = w"
  using foldr_to_le_bytes [of v 0] foldr_to_le_bytes [of w 0] by (simp add: word_unat_eq_iff)

lemma unat_vid:
  "unat (push_bit 32 (scast block) + ucast sq :: 64 word) = 2 ^ 32 * unat block + unat sq"
  for block sq :: "32 word"
proof -
  have s: "unat sq < 4294967296" "unat block < 4294967296"
    by (rule unat32_less)+
  have u: "unat (ucast sq :: 64 word) = unat sq" using s by (simp add: unsigned_ucast_eq take_bit_eq_mod)
  have "push_bit 32 (scast block) = (push_bit 32 (ucast block) :: 64 word)"
    by (rule bit_word_eqI) (auto simp: bit_simps)
  moreover have "unat (push_bit 32 (ucast block) :: 64 word) = 2 ^ 32 * unat block"
    using s by (simp add: push_bit_eq_mult unat_word_ariths unsigned_ucast_eq take_bit_eq_mod)
  ultimately show ?thesis
    using s u by (simp add: unat_word_ariths)
qed

lemma sint_small:
  fixes w :: "64 word"
  assumes "unat w < 2 ^ 63"
  shows "sint w = int (unat w)"
proof -
  have "sint w = signed_take_bit 63 (uint w)" by (simp add: sint_uint)
  also have "\<dots> = uint w"
    using assms by (intro signed_take_bit_int_eq_self) (simp_all add: uint_nat [of w] del: of_nat_unat)
  finally show ?thesis by simp
qed

lemma sint_block:
  fixes b :: "32 word"
  assumes "0 \<le> sint b"
  shows "sint b = int (unat b) \<and> unat b < 2 ^ 31"
proof -
  have lt: "sint b < 2 ^ 31" using sint_lt [of b] by simp
  have "uint b = take_bit 32 (sint b)" by (simp add: uint_sint)
  also have "\<dots> = sint b" using assms lt by (intro take_bit_int_eq_self) simp_all
  finally have "int (unat b) = sint b" by simp
  moreover from this have "unat b = nat (sint b)" by (metis nat_int)
  moreover have "nat (sint b) < 2 ^ 31" using lt assms by simp
  ultimately show ?thesis by simp
qed

lemma split_unique: "r < n \<Longrightarrow> r' < n \<Longrightarrow> n * q + r = n * q' + r' \<longleftrightarrow> q = q' \<and> r = r'"
  for n q r q' r' :: nat
proof
  assume n: "r < n" "r' < n" and eq: "n * q + r = n * q' + r'"
  have "q = (n * q + r) div n" "q' = (n * q' + r') div n" using n by simp_all
  with eq show "q = q' \<and> r = r'" by simp
qed simp

lemma collect_ids_ok:
  assumes "\<And>i x. f i = Ok x \<longleftrightarrow> i = c x"
  shows "collect_ids f xs is = Ok ys \<longleftrightarrow> (\<exists>zs. is = map c zs \<and> ys = xs @ zs)"
proof (induction "is" arbitrary: xs)
  case (Cons i "is")
  have "collect_ids f xs (i # is) = Ok ys \<longleftrightarrow> (\<exists>x. f i = Ok x \<and> collect_ids f (xs @ [x]) is = Ok ys)"
    by (auto simp: collect_ids_def outcome_simps)
  with Cons show ?case by (auto simp: assms Cons_eq_map_conv)
qed (auto simp: collect_ids_def)

lemma id_of_type:
  "string_id i = Ok s \<longleftrightarrow> i = StringId s"
  "bytes_id i = Ok b \<longleftrightarrow> i = BytesId b"
  "int8_id i = Ok n \<longleftrightarrow> i = Int8Id n"
  by (auto simp: string_id_def bytes_id_def int8_id_def split: Id.splits)

lemmas collect_ids_simps =
  collect_ids_ok [of string_id StringId, OF id_of_type(1)]
  collect_ids_ok [of bytes_id BytesId, OF id_of_type(2)]
  collect_ids_ok [of int8_id Int8Id, OF id_of_type(3)]

lemma try_from_iter_ok: "try_from_iter t is = Ok l \<longleftrightarrow> is = as_ids l \<and> id_list_type l = t"
  by (cases t; cases l) (auto simp: try_from_iter_def outcome_simps collect_ids_simps)

lemma as_ids_inject: "as_ids l = as_ids m \<Longrightarrow> id_list_type l = id_list_type m \<Longrightarrow> l = m"
  by (cases l; cases m) (auto dest: map_injective simp: inj_on_def)

lemma as_ids_of_type: "\<forall>i \<in> set is. id_type_of i = t \<Longrightarrow> \<exists>l. is = as_ids l \<and> id_list_type l = t"
proof (induction "is")
  case Nil
  show ?case by (rule exI [of _ "id_list_new t"]) (cases t; simp)
next
  case (Cons i "is")
  then obtain l where "is = as_ids l" "id_list_type l = t" by auto
  with Cons.prems show ?case
    by (cases i; cases l) (auto intro: exI [of _ "StringIds (_ # _)"] exI [of _ "BytesIds (_ # _)"] exI [of _ "Int8Ids (_ # _)"])
qed

section \<open>Properties\<close>

text \<open>
  C33 (generated ids are unique). \<open>String\<close> ids can not be generated; for the two other types, two
  generated ids are equal exactly when block and sequence number are.
\<close>

theorem generated_ids_unique:
  "(\<exists>e. generate_id ID_String b s = Err e) \<and>
   (t \<noteq> ID_String \<longrightarrow> (generate_id t b s = generate_id t b' s' \<longleftrightarrow> b = b' \<and> s = s'))"
proof (cases t)
  case ID_Bytes
  have "to_be_bytes v = to_be_bytes w \<longleftrightarrow> v = w" for v w
    using to_le_bytes_inj by (auto simp: to_be_bytes_def)
  moreover have "length (to_be_bytes v) = 4" for v by (simp add: to_be_bytes_def to_le_bytes_def)
  ultimately show ?thesis using ID_Bytes by (simp add: generate_id_def)
next
  case ID_Int8
  have "from_le_bytes (to_le_bytes s @ to_le_bytes b) = from_le_bytes (to_le_bytes s' @ to_le_bytes b') \<longleftrightarrow>
      2 ^ 32 * unat b + unat s = 2 ^ 32 * unat b' + unat s'"
    by (simp only: word_unat_eq_iff unat_int8_id)
  also have "\<dots> \<longleftrightarrow> unat b = unat b' \<and> unat s = unat s'"
    using unat32_less [of s] unat32_less [of s'] by (intro split_unique) simp_all
  finally show ?thesis using ID_Int8 by (simp add: generate_id_def word_unat_eq_iff)
qed (simp add: generate_id_def)

lemma generated_ids_unique_witness:
  "generate_id ID_Bytes 3 2 \<noteq> generate_id ID_Bytes 2 3 \<and> generate_id ID_Int8 3 2 \<noteq> generate_id ID_Int8 3 3 \<and>
   generate_id ID_Int8 3 2 = Ok (Int8Id 0x0000000300000002)"
proof -
  have "from_le_bytes (to_le_bytes 2 @ to_le_bytes 3) = 0x0000000300000002"
    by (simp only: word_unat_eq_iff unat_int8_id) simp
  then show ?thesis
    using generated_ids_unique [of 3 2 ID_Bytes 2 3] generated_ids_unique [of 3 2 ID_Int8 3 3]
    by (simp add: generate_id_def del: append_Cons)
qed

text \<open>The first \<open>n\<close> row versions that a generator hands out.\<close>

fun vids :: "nat \<Rightarrow> seq_generator \<Rightarrow> 64 word list" where
  "vids 0 g = []"
| "vids (Suc n) g = (let (v, g') = seq_vid g in v # vids n g')"

lemma vids_upto:
  assumes "unat (sg_vid_seq g) + n \<le> 2 ^ 32"
  shows "map unat (vids n g) = map (\<lambda>i. 2 ^ 32 * unat (sg_block g) + i) [unat (sg_vid_seq g) ..< unat (sg_vid_seq g) + n]"
  using assms
proof (induction n arbitrary: g)
  case (Suc n)
  show ?case
  proof (cases n)
    case 0
    then show ?thesis by (simp add: seq_vid_def unat_vid del: push_bit_numeral)
  next
    case (Suc m)
    let ?g = "g\<lparr>sg_vid_seq := sg_vid_seq g + 1\<rparr>"
    have u: "unat (sg_vid_seq ?g) = Suc (unat (sg_vid_seq g))"
      using Suc.prems Suc by (simp add: unat_word_ariths)
    with Suc.prems Suc.IH [of ?g] show ?thesis
      by (simp add: seq_vid_def unat_vid upt_conv_Cons)
  qed
qed simp

text \<open>
  C34 (row versions). Within a block that is not negative, and as long as the sequence does not
  wrap around, the row versions that a generator hands out are, as signed 64-bit numbers, the
  consecutive numbers from 100 (the reserved ones) above \<open>block * 2^32\<close>, so they increase strictly
  and stay below every row version of any later block.
\<close>

theorem vids_increasing:
  assumes "0 \<le> sint block" "n \<le> 2 ^ 32 - 100"
  shows "map sint (vids n (seq_new block)) = map (\<lambda>i. sint block * 2 ^ 32 + int i) [100 ..< 100 + n]"
proof -
  let ?vs = "vids n (seq_new block)" and ?b = "unat block"
  have u: "map unat ?vs = map (\<lambda>i. 2 ^ 32 * ?b + i) [100 ..< 100 + n]"
    using vids_upto [of "seq_new block" n] assms(2) by (simp add: seq_new_def RESERVED_VIDS_def)
  have b: "sint block = int ?b" "?b < 2 ^ 31" using sint_block [OF assms(1)] by blast+
  have "sint v = int (unat v)" if "v \<in> set ?vs" for v
  proof (rule sint_small)
    from that have "unat v \<in> set (map unat ?vs)" by simp
    then have "unat v < 100 + n + 4294967296 * ?b" unfolding u by auto
    then show "unat v < 2 ^ 63" using b(2) assms(2) by simp
  qed
  then have "map sint ?vs = map int (map unat ?vs)" by simp
  also have "\<dots> = map (\<lambda>i. sint block * 2 ^ 32 + int i) [100 ..< 100 + n]"
    unfolding u by (simp add: b(1))
  finally show ?thesis .
qed

lemma vids_increasing_witness:
  "map sint (vids 3 (seq_new 7)) = [7 * 2 ^ 32 + 100, 7 * 2 ^ 32 + 101, 7 * 2 ^ 32 + 102] \<and> 0 \<le> sint (7 :: 32 word)"
  using vids_increasing [of 7 3] by (simp add: upt_conv_Cons)

text \<open>
  Lists of ids. Collecting ids into a list of a given type succeeds exactly when all ids have
  that type, and the list then has exactly these ids in their order. Making the list unique
  keeps its type and its set of ids and leaves no id twice.
\<close>

lemma id_list_from_ids:
  "(is_ok (try_from_iter t is) \<longleftrightarrow> (\<forall>i \<in> set is. id_type_of i = t)) \<and>
   (\<forall>l. try_from_iter t is = Ok l \<longrightarrow>
      as_ids l = is \<and> id_list_type l = t \<and>
      set (as_ids (as_unique l)) = set is \<and> distinct (as_ids (as_unique l)) \<and> id_list_type (as_unique l) = t)"
proof -
  have "is_ok (try_from_iter t is) \<longleftrightarrow> (\<forall>i \<in> set is. id_type_of i = t)"
    using as_ids_types as_ids_of_type [of "is" t] by (auto simp: is_ok_iff try_from_iter_ok)
  then show ?thesis using as_unique_ids by (auto simp: try_from_iter_ok)
qed

lemma id_list_from_ids_witness:
  "try_from_iter ID_Int8 [Int8Id 2, Int8Id 2] = Ok (Int8Ids [2, 2]) \<and>
   distinct (as_ids (as_unique (Int8Ids [2, 2]))) \<and> \<not> is_ok (try_from_iter ID_Int8 [StringId ''a''])"
proof -
  have "try_from_iter ID_Int8 [Int8Id 2, Int8Id 2] = Ok (Int8Ids [2, 2])"
    by (simp add: try_from_iter_def collect_ids_def int8_id_def)
  then show ?thesis
    using id_list_from_ids [of ID_Int8 "[Int8Id 2, Int8Id 2]"] id_list_from_ids [of ID_Int8 "[StringId ''a'']"]
    by simp
qed

end
