(* ===== verification/Store_Errors.thy ===== *)
theory Store_Errors
  imports Values
begin

text \<open>
  The errors of the store, \<open>graph/src/components/store/err.rs\<close>: the variants of \<open>StoreError\<close>, what
  becomes of an error of the database, which errors are deterministic (and therefore fail a
  subgraph for good), and how an error is cloned. Messages of the code are shortened to the part
  that does not depend on the data.
\<close>

datatype store_error =
    Unknown string
  | ConflictingId string string string
  | UnknownField string string
  | UnknownTable string
  | UnknownAttribute string string
  | QueryExecutionError string
  | ChildFilterNestingNotSupportedError string string
  | InvalidIdentifier string
  | DuplicateBlockProcessing string int
  | InternalError string
  | DeploymentNotFound string
  | UnknownShard string
  | FulltextSearchNonDeterministic
  | FulltextColumnMissingConfig
  | Canceled
  | DatabaseUnavailable
  | ForkFailure string
  | Poisoned
  | WriterPanic string
  | UnsupportedDeploymentSchemaVersion int
  | PruneFailure string
  | UnsupportedFilter string string
  | WriteFailure string int string string
  | StatementTimeout
  | ConstraintViolation string
  | InputError string

text \<open>\<open>str::contains\<close>\<close>

definition str_contains :: "string \<Rightarrow> string \<Rightarrow> bool" where
  "str_contains s sub \<longleftrightarrow> (\<exists>i \<in> set [0 ..< Suc (length s)]. take (length sub) (drop i s) = sub)"

text \<open>\<open>str::replace\<close> of a newline by a space\<close>

definition newlines_to_spaces :: "string \<Rightarrow> string" where
  "newlines_to_spaces s = map (\<lambda>c. if c = CHR 0x0A then CHR '' '' else c) s"

text \<open>
  An error of the database has a message and perhaps details; all other errors of the database layer
  are known by their text.
\<close>

datatype diesel_error = DatabaseError string "string option" | OtherDieselError string

fun diesel_to_string :: "diesel_error \<Rightarrow> string" where
  "diesel_to_string (DatabaseError m _) = m"
| "diesel_to_string (OtherDieselError m) = m"

fun from_diesel_error :: "diesel_error \<Rightarrow> store_error option" where
  "from_diesel_error (DatabaseError m details) =
     (if str_contains m ''server closed the connection unexpectedly'' then Some DatabaseUnavailable
      else if str_contains m ''canceling statement due to statement timeout'' then Some StatementTimeout
      else if str_contains m ''duplicate key value violates unique constraint''
      then Some (ConstraintViolation (case details of Some d \<Rightarrow> m @ '': '' @ newlines_to_spaces d | None \<Rightarrow> m))
      else None)"
| "from_diesel_error (OtherDieselError m) = None"

definition write_failure :: "string \<Rightarrow> int \<Rightarrow> string \<Rightarrow> diesel_error \<Rightarrow> store_error" where
  "write_failure entity block query e =
     (case from_diesel_error e of Some err \<Rightarrow> err | None \<Rightarrow> WriteFailure entity block (diesel_to_string e) query)"

definition store_error_from_diesel :: "diesel_error \<Rightarrow> store_error" where
  "store_error_from_diesel e = (case from_diesel_error e of Some err \<Rightarrow> err | None \<Rightarrow> Unknown (diesel_to_string e))"

definition is_deterministic :: "store_error \<Rightarrow> bool" where
  "is_deterministic e =
     (case e of
        ConflictingId _ _ _ \<Rightarrow> True
      | UnknownField _ _ \<Rightarrow> True
      | UnknownTable _ \<Rightarrow> True
      | UnknownAttribute _ _ \<Rightarrow> True
      | InvalidIdentifier _ \<Rightarrow> True
      | UnsupportedFilter _ _ \<Rightarrow> True
      | ConstraintViolation _ \<Rightarrow> True
      | InputError _ \<Rightarrow> True
      | _ \<Rightarrow> False)"

text \<open>\<open>Clone\<close>: all variants are copied but a panic of the writer, which becomes \<open>Unknown\<close>.\<close>

definition store_error_clone :: "store_error \<Rightarrow> store_error" where
  "store_error_clone e = (case e of WriterPanic m \<Rightarrow> Unknown (''writer panic: '' @ m) | _ \<Rightarrow> e)"

lemma clone_deterministic: "is_deterministic (store_error_clone e) = is_deterministic e"
  by (cases e) (simp_all add: store_error_clone_def is_deterministic_def)

text \<open>The texts of the errors of the database that the statements of the store can cause.\<close>

definition unique_violation :: diesel_error where
  "unique_violation = DatabaseError ''duplicate key value violates unique constraint'' None"

definition range_violation :: diesel_error where
  "range_violation = DatabaseError ''range lower bound must be less than or equal to range upper bound'' None"

end
