(* ===== verification/Write_Batch.thy ===== *)
theory Write_Batch
  imports Entity_Id Store_Errors
begin

text \<open>
  Write batches, \<open>graph/src/components/store/write.rs\<close>: the modifications of entities tagged with
  the block at which they happen, the groups of modifications for one entity type, with the
  folding of a new modification into earlier ones (\<open>append_row\<close>), and the batches that the
  write queue collects, appends to, reads from and writes. The type of the entity data is a
  parameter, since this code never looks into an entity.
\<close>

section \<open>Block pointers\<close>

type_synonym block_number = int

definition BLOCK_NUMBER_MAX :: block_number where
  "BLOCK_NUMBER_MAX = 2147483647"

record block_ptr =
  bp_hash :: bytes
  bp_number :: block_number

section \<open>Modifications\<close>

datatype 'e entity_modification =
    Insert entity_key 'e block_number "block_number option"
  | Overwrite entity_key 'e block_number "block_number option"
  | Remove entity_key block_number

record 'e entity_write =
  ew_id :: Id
  ew_entity :: 'e
  ew_causality_region :: causality_region
  ew_block :: block_number
  ew_end :: "block_number option"

datatype 'e entity_op = WriteOp entity_key 'e | RemoveOp entity_key

fun em_key :: "'e entity_modification \<Rightarrow> entity_key" where
  "em_key (Insert k _ _ _) = k"
| "em_key (Overwrite k _ _ _) = k"
| "em_key (Remove k _) = k"

definition em_id :: "'e entity_modification \<Rightarrow> Id" where
  "em_id m = k_entity_id (em_key m)"

fun em_block :: "'e entity_modification \<Rightarrow> block_number" where
  "em_block (Insert _ _ b _) = b"
| "em_block (Overwrite _ _ b _) = b"
| "em_block (Remove _ b) = b"

fun is_write :: "'e entity_modification \<Rightarrow> bool" where
  "is_write (Insert _ _ _ _) = True"
| "is_write (Overwrite _ _ _ _) = True"
| "is_write (Remove _ _) = False"

text \<open>\<open>TryFrom<&EntityModification> for EntityWrite\<close> and \<open>as_write\<close>\<close>

fun as_write :: "'e entity_modification \<Rightarrow> 'e entity_write option" where
  "as_write (Insert k d b e) =
     Some \<lparr>ew_id = k_entity_id k, ew_entity = d, ew_causality_region = k_causality_region k, ew_block = b, ew_end = e\<rparr>"
| "as_write (Overwrite k d b e) =
     Some \<lparr>ew_id = k_entity_id k, ew_entity = d, ew_causality_region = k_causality_region k, ew_block = b, ew_end = e\<rparr>"
| "as_write (Remove _ _) = None"

fun is_clamp :: "'e entity_modification \<Rightarrow> bool" where
  "is_clamp (Insert _ _ _ _) = False"
| "is_clamp (Overwrite _ _ _ _) = True"
| "is_clamp (Remove _ _) = True"

fun creates_entity :: "'e entity_modification \<Rightarrow> bool" where
  "creates_entity (Insert _ _ _ _) = True"
| "creates_entity _ = False"

fun em_entity_count_change :: "'e entity_modification \<Rightarrow> int" where
  "em_entity_count_change (Insert _ _ _ None) = 1"
| "em_entity_count_change (Insert _ _ _ (Some _)) = 0"
| "em_entity_count_change (Overwrite _ _ _ None) = 0"
| "em_entity_count_change (Overwrite _ _ _ (Some _)) = -1"
| "em_entity_count_change (Remove _ _) = -1"

fun em_clamp :: "'e entity_modification \<Rightarrow> block_number \<Rightarrow> ('e entity_modification, store_error) outcome" where
  "em_clamp (Insert k d b None) at = Ok (Insert k d b (Some at))"
| "em_clamp (Insert k d b (Some e)) at = Err (InternalError ''can not clamp to block'')"
| "em_clamp (Overwrite k d b None) at = Ok (Overwrite k d b (Some at))"
| "em_clamp (Overwrite k d b (Some e)) at = Err (InternalError ''can not clamp to block'')"
| "em_clamp (Remove _ _) at = Err (InternalError ''can not clamp block range for removal'')"

fun into_insert :: "'e entity_modification \<Rightarrow> ('e entity_modification, store_error) outcome" where
  "into_insert (Insert k d b e) = Ok (Insert k d b e)"
| "into_insert (Overwrite k d b e) = Ok (Insert k d b e)"
| "into_insert (Remove _ _) = Err (InternalError ''a remove can not be converted into an insert'')"

text \<open>\<open>as_entity_op\<close>; its \<open>debug_assert\<close> on the block is not part of release builds.\<close>

fun as_entity_op :: "'e entity_modification \<Rightarrow> block_number \<Rightarrow> 'e entity_op" where
  "as_entity_op (Insert k d _ None) at = WriteOp k d"
| "as_entity_op (Overwrite k d _ None) at = WriteOp k d"
| "as_entity_op (Insert k d _ (Some e)) at = (if at < e then WriteOp k d else RemoveOp k)"
| "as_entity_op (Overwrite k d _ (Some e)) at = (if at < e then WriteOp k d else RemoveOp k)"
| "as_entity_op (Remove k _) at = RemoveOp k"

section \<open>Groups of modifications for one entity type\<close>

text \<open>
  \<open>memo\<close> is \<open>ENV_VARS.store.write_batch_memoize\<close>. If it is off, the map is neither read nor written.
\<close>

type_synonym last_mod = "Id \<Rightarrow> nat option"

definition last_mod_get :: "bool \<Rightarrow> last_mod \<Rightarrow> Id \<Rightarrow> nat option" where
  "last_mod_get memo m i = (if memo then m i else None)"

definition last_mod_insert :: "bool \<Rightarrow> last_mod \<Rightarrow> Id \<Rightarrow> nat \<Rightarrow> last_mod" where
  "last_mod_insert memo m i idx = (if memo then m(i \<mapsto> idx) else m)"

record 'e row_group =
  rg_entity_type :: entity_type
  rg_rows :: "'e entity_modification list"
  rg_last_mod :: last_mod

text \<open>What the schema says about an entity type (\<open>EntityType::is_immutable\<close>, \<open>skip_duplicates\<close>).\<close>

record type_flags =
  tf_is_immutable :: "entity_type \<Rightarrow> bool"
  tf_skip_duplicates :: "entity_type \<Rightarrow> bool"

definition row_group_new :: "entity_type \<Rightarrow> 'e row_group" where
  "row_group_new t = \<lparr>rg_entity_type = t, rg_rows = [], rg_last_mod = Map.empty\<rparr>"

definition row_count :: "'e row_group \<Rightarrow> nat" where
  "row_count g = length (rg_rows g)"

definition rg_entity_count_change :: "'e row_group \<Rightarrow> int" where
  "rg_entity_count_change g = sum_list (map em_entity_count_change (rg_rows g))"

definition rg_writes :: "'e row_group \<Rightarrow> 'e entity_modification list" where
  "rg_writes g = filter is_write (rg_rows g)"

definition has_clamps :: "'e row_group \<Rightarrow> bool" where
  "has_clamps g \<longleftrightarrow> (\<exists>r \<in> set (rg_rows g). is_clamp r)"

definition rg_ids :: "'e row_group \<Rightarrow> Id list" where
  "rg_ids g = map em_id (rg_rows g)"

text \<open>\<open>Vec::get\<close>\<close>

definition vec_get :: "'a list \<Rightarrow> nat \<Rightarrow> 'a option" where
  "vec_get xs i = (if i < length xs then Some (xs ! i) else None)"

definition rg_last_op :: "bool \<Rightarrow> 'e row_group \<Rightarrow> entity_key \<Rightarrow> block_number \<Rightarrow> 'e entity_op option" where
  "rg_last_op memo g key at =
     (case Option.bind (last_mod_get memo (rg_last_mod g) (k_entity_id key))
             (\<lambda>idx. Option.bind (vec_get (rg_rows g) idx)
                (\<lambda>m. if em_block m \<le> at then Some (as_entity_op m at) else None)) of
        Some op \<Rightarrow> Some op
      | None \<Rightarrow>
          map_option (\<lambda>m. as_entity_op m at)
            (rfind (\<lambda>m. em_key m = key \<and> em_block m \<le> at) (rg_rows g)))"

text \<open>
  The filter of \<open>effective_ops\<close> remembers the ids it has seen; \<open>HashSet::insert\<close> returns whether
  the id was new.
\<close>

fun effective_filter :: "block_number \<Rightarrow> Id set \<Rightarrow> 'e entity_modification list \<Rightarrow> 'e entity_modification list" where
  "effective_filter at seen [] = []"
| "effective_filter at seen (m # ms) =
     (if em_block m \<le> at
      then (if em_id m \<in> seen then effective_filter at seen ms
            else m # effective_filter at (insert (em_id m) seen) ms)
      else effective_filter at seen ms)"

definition rg_effective_ops :: "'e row_group \<Rightarrow> block_number \<Rightarrow> 'e entity_op list" where
  "rg_effective_ops g at = map (\<lambda>m. as_entity_op m at) (effective_filter at {} (rev (rg_rows g)))"

text \<open>\<open>prev_row_mut\<close>: the position of the row it returns a mutable reference to.\<close>

definition prev_row :: "bool \<Rightarrow> 'e row_group \<Rightarrow> Id \<Rightarrow> nat option" where
  "prev_row memo g i =
     (case last_mod_get memo (rg_last_mod g) i of
        Some idx \<Rightarrow> (if idx < length (rg_rows g) then Some idx else None)
      | None \<Rightarrow> rposition (\<lambda>m. em_id m = i) (rg_rows g))"

definition push_row :: "bool \<Rightarrow> 'e row_group \<Rightarrow> 'e entity_modification \<Rightarrow> 'e row_group" where
  "push_row memo g row =
     g\<lparr>rg_last_mod := last_mod_insert memo (rg_last_mod g) (em_id row) (length (rg_rows g)),
       rg_rows := rg_rows g @ [row]\<rparr>"

definition append_immutable ::
  "type_flags \<Rightarrow> bool \<Rightarrow> 'e row_group \<Rightarrow> 'e entity_modification \<Rightarrow> 'e row_group \<times> (unit, store_error) outcome" where
  "append_immutable fl memo g row =
     (case row of
        Insert _ _ _ _ \<Rightarrow>
          (case Option.bind (last_mod_get memo (rg_last_mod g) (em_id row)) (vec_get (rg_rows g)) of
             Some prev \<Rightarrow>
               (if em_block prev \<noteq> em_block row
                then (if tf_skip_duplicates fl (rg_entity_type g) then (g, Ok ())
                      else (g, Err (InputError ''entity is immutable; inserting it is not possible as it was already inserted'')))
                else (push_row memo g row, Ok ()))
           | None \<Rightarrow> (push_row memo g row, Ok ()))
      | _ \<Rightarrow>
          (if tf_skip_duplicates fl (rg_entity_type g) then (g, Ok ())
           else (g, Err (InternalError ''immutable entity type only allows inserts''))))"

text \<open>
  The last part of \<open>append_row\<close>: \<open>prev\<close> at position \<open>idx\<close> is the previous row for the id.
\<close>

definition combine_rows ::
  "bool \<Rightarrow> 'e row_group \<Rightarrow> nat \<Rightarrow> 'e entity_modification \<Rightarrow> 'e entity_modification \<Rightarrow>
     'e row_group \<times> (unit, store_error) outcome" where
  "combine_rows memo g idx prev row =
     (let impossible = (g, Err (InternalError ''impossible combination of entity operations''));
          clamp_prev = (\<lambda>b k. case em_clamp prev b of
                                Ok prev' \<Rightarrow> k (g\<lparr>rg_rows := (rg_rows g)[idx := prev']\<rparr>)
                              | Err e \<Rightarrow> (g, Err e)
                              | Panic s \<Rightarrow> (g, Panic s));
          is_open = (case prev of Insert _ _ _ e \<Rightarrow> e = None | Overwrite _ _ _ e \<Rightarrow> e = None | Remove _ _ \<Rightarrow> False);
          is_remove = (case prev of Remove _ _ \<Rightarrow> True | _ \<Rightarrow> False)
      in case row of
           Insert _ _ _ _ \<Rightarrow> (if is_open then impossible else (push_row memo g row, Ok ()))
         | Overwrite _ _ b _ \<Rightarrow>
             (if is_open
              then clamp_prev b (\<lambda>g'. case into_insert row of
                                        Ok row' \<Rightarrow> (push_row memo g' row', Ok ())
                                      | Err e \<Rightarrow> (g', Err e)
                                      | Panic s \<Rightarrow> (g', Panic s))
              else impossible)
         | Remove _ b \<Rightarrow>
             (if is_open then clamp_prev b (\<lambda>g'. (g', Ok ()))
              else if is_remove then (g, Ok ())
              else impossible))"

definition append_row ::
  "type_flags \<Rightarrow> bool \<Rightarrow> 'e row_group \<Rightarrow> 'e entity_modification \<Rightarrow> 'e row_group \<times> (unit, store_error) outcome" where
  "append_row fl memo g row =
     (if tf_is_immutable fl (rg_entity_type g) then append_immutable fl memo g row
      else (case prev_row memo g (em_id row) of
              None \<Rightarrow> (push_row memo g row, Ok ())
            | Some idx \<Rightarrow>
                (let prev = rg_rows g ! idx in
                 if em_block row \<le> em_block prev
                 then (g, Err (InternalError ''can not append operations that go backwards''))
                 else if em_id row \<noteq> em_id prev
                 then (g, Err (InternalError ''last_mod map is corrupted''))
                 else combine_rows memo g idx prev row)))"

definition rg_push ::
  "type_flags \<Rightarrow> bool \<Rightarrow> 'e row_group \<Rightarrow> 'e entity_modification \<Rightarrow> block_number \<Rightarrow>
     'e row_group \<times> (unit, store_error) outcome" where
  "rg_push fl memo g m block =
     (let is_forward = (case rg_rows g of [] \<Rightarrow> True | _ \<Rightarrow> em_block (last (rg_rows g)) \<le> block) in
      if \<not> is_forward then (g, Err (InternalError ''we already have a modification for block''))
      else append_row fl memo g m)"

definition rg_append ::
  "type_flags \<Rightarrow> bool \<Rightarrow> 'e row_group \<Rightarrow> 'e row_group \<Rightarrow> 'e row_group \<times> (unit, store_error) outcome" where
  "rg_append fl memo g other =
     (if rg_entity_type g \<noteq> rg_entity_type other
      then (g, Err (InternalError ''Can not append a row group''))
      else mut_fold (append_row fl memo) g (rg_rows other))"

section \<open>Iterating over clamps and writes\<close>

text \<open>
  \<open>ClampsByBlockIterator\<close>; its state is the rest of the rows from \<open>position\<close> on. \<open>next\<close> skips to the
  next clamp and takes the run of clamps for the same block.
\<close>

definition clamps_next ::
  "'e entity_modification list \<Rightarrow>
     ((block_number \<times> 'e entity_modification list) \<times> 'e entity_modification list) option" where
  "clamps_next rows =
     (case dropWhile (\<lambda>r. \<not> is_clamp r) rows of
        [] \<Rightarrow> None
      | r # rs \<Rightarrow>
          (let run = takeWhile (\<lambda>q. em_block q = em_block r \<and> is_clamp q) (r # rs)
           in Some ((em_block r, run), drop (length run) (r # rs))))"

lemma clamps_next_shorter: "clamps_next rows = Some (x, rest) \<Longrightarrow> length rest < length rows"
proof -
  assume a: "clamps_next rows = Some (x, rest)"
  then obtain r rs where d: "dropWhile (\<lambda>r. \<not> is_clamp r) rows = r # rs"
    by (auto simp: clamps_next_def split: list.splits)
  then have "is_clamp r" by (metis dropWhile_eq_Cons_conv)
  then have "length rest < length (r # rs)"
    using a d by (auto simp: clamps_next_def Let_def)
  also have "\<dots> \<le> length rows" using d by (metis length_dropWhile_le)
  finally show ?thesis .
qed

function clamps_by_block ::
  "'e entity_modification list \<Rightarrow> (block_number \<times> 'e entity_modification list) list" where
  "clamps_by_block rows =
     (case clamps_next rows of
        None \<Rightarrow> []
      | Some (x, rest) \<Rightarrow> x # clamps_by_block rest)"
  by pat_completeness auto
termination
  by (relation "measure length") (auto dest: clamps_next_shorter)

declare clamps_by_block.simps [simp del]

text \<open>
  \<open>WriteChunker\<close>, \<open>WriteChunk\<close> and \<open>WriteChunkIter\<close>. The iterator over the writes of a chunk has the
  number of writes it may still produce and the rest of the rows as its state; \<open>chunk_advance\<close> is
  the loop with which the chunker finds the start of the next chunk.
\<close>

record 'e write_chunk =
  wc_rows :: "'e entity_modification list"
  wc_chunk_size :: nat
  wc_position :: nat

fun chunk_iter :: "nat \<Rightarrow> 'e entity_modification list \<Rightarrow> 'e entity_write list" where
  "chunk_iter 0 rs = []"
| "chunk_iter n [] = []"
| "chunk_iter (Suc n) (r # rs) =
     (case as_write r of Some w \<Rightarrow> w # chunk_iter n rs | None \<Rightarrow> chunk_iter (Suc n) rs)"

definition wc_iter :: "'e write_chunk \<Rightarrow> 'e entity_write list" where
  "wc_iter c = chunk_iter (wc_chunk_size c) (drop (wc_position c) (wc_rows c))"

definition wc_is_empty :: "'e write_chunk \<Rightarrow> bool" where
  "wc_is_empty c \<longleftrightarrow> wc_iter c = []"

definition wc_len :: "'e write_chunk \<Rightarrow> nat" where
  "wc_len c = min (length (wc_rows c) - wc_position c) (wc_chunk_size c)"

definition as_single_writes :: "'e write_chunk \<Rightarrow> 'e write_chunk list" where
  "as_single_writes c =
     map (\<lambda>i. \<lparr>wc_rows = wc_rows c, wc_chunk_size = 1, wc_position = wc_position c + i\<rparr>) [0 ..< wc_len c]"

fun chunk_advance :: "nat \<Rightarrow> 'e entity_modification list \<Rightarrow> nat \<Rightarrow> nat" where
  "chunk_advance 0 rs pos = pos"
| "chunk_advance n [] pos = pos"
| "chunk_advance (Suc n) (r # rs) pos =
     (if is_write r then chunk_advance n rs (Suc pos) else chunk_advance (Suc n) rs (Suc pos))"

lemma chunk_advance_ge: "pos \<le> chunk_advance n rs pos"
  by (induction n rs pos rule: chunk_advance.induct) auto

lemma chunk_advance_le: "chunk_advance n rs pos \<le> pos + length rs"
  by (induction n rs pos rule: chunk_advance.induct) auto

lemma chunk_advance_gt: "0 < n \<Longrightarrow> rs \<noteq> [] \<Longrightarrow> pos < chunk_advance n rs pos"
  by (cases n; cases rs) (auto intro: Suc_le_lessD chunk_advance_ge)

text \<open>
  The chunks from a position on. With a chunk size of 0 the chunker never advances and yields
  chunks forever, which is the value \<open>None\<close>.
\<close>

function write_chunks_from :: "'e entity_modification list \<Rightarrow> nat \<Rightarrow> nat \<Rightarrow> 'e write_chunk list option" where
  "write_chunks_from rows n pos =
     (if length rows \<le> pos then Some []
      else if n = 0 then None
      else map_option (\<lambda>cs. \<lparr>wc_rows = rows, wc_chunk_size = n, wc_position = pos\<rparr> # cs)
             (write_chunks_from rows n (chunk_advance n (drop pos rows) pos)))"
  by pat_completeness auto
termination
  by (relation "measure (\<lambda>(rows, n, pos). length rows - pos)")
     (auto intro!: diff_less_mono2 chunk_advance_gt simp: not_le)

declare write_chunks_from.simps [simp del]

definition write_chunks :: "'e row_group \<Rightarrow> nat \<Rightarrow> 'e write_chunk list option" where
  "write_chunks g n = write_chunks_from (rg_rows g) n 0"

section \<open>Groups for all entity types\<close>

type_synonym 'e row_groups = "'e row_group list"

definition rgs_group :: "'e row_groups \<Rightarrow> entity_type \<Rightarrow> 'e row_group option" where
  "rgs_group gs t = find (\<lambda>g. rg_entity_type g = t) gs"

text \<open>
  \<open>group_entry\<close> returns a mutable reference to the group for the type, which it creates if there is
  none; \<open>f\<close> is what the caller does with that reference.
\<close>

fun update_group ::
  "('e row_group \<Rightarrow> 'e row_group \<times> (unit, store_error) outcome) \<Rightarrow> entity_type \<Rightarrow> 'e row_groups \<Rightarrow>
     'e row_groups \<times> (unit, store_error) outcome" where
  "update_group f t [] = (let (g, r) = f (row_group_new t) in ([g], r))"
| "update_group f t (g # gs) =
     (if rg_entity_type g = t then (let (g', r) = f g in (g' # gs, r))
      else (let (gs', r) = update_group f t gs in (g # gs', r)))"

definition rgs_entity_count :: "'e row_groups \<Rightarrow> nat" where
  "rgs_entity_count gs = sum_list (map row_count gs)"

definition rgs_append ::
  "type_flags \<Rightarrow> bool \<Rightarrow> 'e row_groups \<Rightarrow> 'e row_groups \<Rightarrow> 'e row_groups \<times> (unit, store_error) outcome" where
  "rgs_append fl memo gs others =
     mut_fold (\<lambda>gs other. update_group (\<lambda>g. rg_append fl memo g other) (rg_entity_type other) gs) gs others"

section \<open>Batches\<close>

type_synonym 'ds data_sources = "(block_ptr \<times> 'ds list) list"

definition data_sources_new :: "block_ptr \<Rightarrow> 'ds list \<Rightarrow> 'ds data_sources" where
  "data_sources_new ptr dss = (if dss = [] then [] else [(ptr, dss)])"

definition data_sources_is_empty :: "'ds data_sources \<Rightarrow> bool" where
  "data_sources_is_empty d \<longleftrightarrow> (\<forall>(_, dss) \<in> set d. dss = [])"

text \<open>
  The types of the entity data, of the data sources and of the deterministic errors are the
  parameters \<open>'e\<close>, \<open>'ds\<close> and \<open>'se\<close>. A block time is a point in time, in
  milliseconds since the epoch; a cursor is a string or nothing.
\<close>

record ('e, 'ds, 'se) batch =
  b_block_ptr :: block_ptr
  b_block_times :: "(block_number \<times> int) list"
  b_first_block :: block_number
  b_firehose_cursor :: "string option"
  b_mods :: "'e row_groups"
  b_data_sources :: "'ds data_sources"
  b_deterministic_errors :: "'se list"
  b_offchain_to_remove :: "'ds data_sources"
  b_error :: "store_error option"
  b_is_non_fatal_errors_active :: bool
  b_indirect_weight :: nat

fun mod_kind :: "'e entity_modification \<Rightarrow> nat" where
  "mod_kind (Insert _ _ _ _) = 2"
| "mod_kind (Overwrite _ _ _ _) = 1"
| "mod_kind (Remove _ _) = 0"

text \<open>
  \<open>srt\<close> is \<open>sort_unstable_by_key\<close> with the key \<open>mod_kind\<close>: the order of the modifications of one kind
  is not specified. \<open>weigh\<close> computes the cache weight of the groups (\<open>CacheWeight::indirect_weight\<close>).
\<close>

definition unstable_sort :: "('a \<Rightarrow> nat) \<Rightarrow> ('a list \<Rightarrow> 'a list) \<Rightarrow> bool" where
  "unstable_sort key srt \<longleftrightarrow> (\<forall>xs. mset (srt xs) = mset xs \<and> sorted (map key (srt xs)))"

definition batch_mods ::
  "type_flags \<Rightarrow> bool \<Rightarrow> block_number \<Rightarrow> 'e entity_modification list \<Rightarrow> 'e row_groups \<times> (unit, store_error) outcome" where
  "batch_mods fl memo block ms =
     mut_fold (\<lambda>gs m. update_group (\<lambda>g. rg_push fl memo g m block) (k_entity_type (em_key m)) gs) [] ms"

definition batch_new ::
  "type_flags \<Rightarrow> bool \<Rightarrow> ('e entity_modification list \<Rightarrow> 'e entity_modification list) \<Rightarrow> ('e row_groups \<Rightarrow> nat) \<Rightarrow>
     block_ptr \<Rightarrow> int \<Rightarrow> string option \<Rightarrow> 'e entity_modification list \<Rightarrow> 'ds list \<Rightarrow> 'se list \<Rightarrow> 'ds list \<Rightarrow> bool \<Rightarrow>
     (('e, 'ds, 'se) batch, store_error) outcome" where
  "batch_new fl memo srt weigh ptr time cursor raw_mods dss errs offchain nonfatal =
     (case batch_mods fl memo (bp_number ptr) (srt raw_mods) of
        (mods, Ok _) \<Rightarrow>
          Ok \<lparr>b_block_ptr = ptr, b_block_times = [(bp_number ptr, time)], b_first_block = bp_number ptr,
              b_firehose_cursor = cursor, b_mods = mods, b_data_sources = data_sources_new ptr dss,
              b_deterministic_errors = errs, b_offchain_to_remove = data_sources_new ptr offchain,
              b_error = None, b_is_non_fatal_errors_active = nonfatal, b_indirect_weight = weigh mods\<rparr>
      | (_, Err e) \<Rightarrow> Err e
      | (_, Panic s) \<Rightarrow> Panic s)"

definition batch_append_inner ::
  "type_flags \<Rightarrow> bool \<Rightarrow> ('e, 'ds, 'se) batch \<Rightarrow> ('e, 'ds, 'se) batch \<Rightarrow>
     ('e, 'ds, 'se) batch \<times> (unit, store_error) outcome" where
  "batch_append_inner fl memo b other =
     (if bp_number (b_block_ptr other) \<le> bp_number (b_block_ptr b)
      then (b, Err (InternalError ''Batches must go forward''))
      else
        (let b1 = b\<lparr>b_block_ptr := b_block_ptr other,
                    b_block_times := b_block_times b @ b_block_times other,
                    b_firehose_cursor := b_firehose_cursor other\<rparr>;
             (mods, r) = rgs_append fl memo (b_mods b) (b_mods other);
             b2 = b1\<lparr>b_mods := mods\<rparr>
         in case r of
              Ok _ \<Rightarrow>
                (b2\<lparr>b_data_sources := b_data_sources b @ b_data_sources other,
                    b_deterministic_errors := b_deterministic_errors b @ b_deterministic_errors other,
                    b_offchain_to_remove := b_offchain_to_remove b @ b_offchain_to_remove other\<rparr>, Ok ())
            | _ \<Rightarrow> (b2, r)))"

definition batch_append ::
  "type_flags \<Rightarrow> bool \<Rightarrow> ('e row_groups \<Rightarrow> nat) \<Rightarrow> ('e, 'ds, 'se) batch \<Rightarrow> ('e, 'ds, 'se) batch \<Rightarrow>
     ('e, 'ds, 'se) batch \<times> (unit, store_error) outcome" where
  "batch_append fl memo weigh b other =
     (let (b1, res) = batch_append_inner fl memo b other;
          b2 = (case res of Err e \<Rightarrow> b1\<lparr>b_error := Some e\<rparr> | _ \<Rightarrow> b1)
      in (b2\<lparr>b_indirect_weight := weigh (b_mods b2)\<rparr>, res))"

definition batch_entity_count :: "('e, 'ds, 'se) batch \<Rightarrow> nat" where
  "batch_entity_count b = rgs_entity_count (b_mods b)"

definition batch_last_op ::
  "bool \<Rightarrow> ('e, 'ds, 'se) batch \<Rightarrow> entity_key \<Rightarrow> block_number \<Rightarrow> 'e entity_op option" where
  "batch_last_op memo b key block =
     Option.bind (rgs_group (b_mods b) (k_entity_type key)) (\<lambda>g. rg_last_op memo g key block)"

definition batch_effective_ops ::
  "('e, 'ds, 'se) batch \<Rightarrow> entity_type \<Rightarrow> block_number \<Rightarrow> 'e entity_op list" where
  "batch_effective_ops b t at =
     (case rgs_group (b_mods b) t of None \<Rightarrow> [] | Some g \<Rightarrow> rg_effective_ops g at)"

definition new_data_sources :: "('e, 'ds, 'se) batch \<Rightarrow> block_number \<Rightarrow> 'ds list" where
  "new_data_sources b at =
     filter (\<lambda>ds. \<not> (\<exists>(_, entries) \<in> set (b_offchain_to_remove b). ds \<in> set entries))
       (concat (map snd (filter (\<lambda>(ptr, _). bp_number ptr \<le> at) (b_data_sources b))))"

section \<open>Lemmas on clamps and chunks\<close>

lemma clamps_by_block_unfold:
  "clamps_by_block rows = [] \<and> filter is_clamp rows = [] \<or>
   (\<exists>run rest b. run \<noteq> [] \<and> (\<forall>r \<in> set run. em_block r = b \<and> is_clamp r) \<and> length rest < length rows \<and>
      clamps_by_block rows = (b, run) # clamps_by_block rest \<and> filter is_clamp rows = run @ filter is_clamp rest)"
proof (cases "clamps_next rows")
  case None
  then have "dropWhile (\<lambda>r. \<not> is_clamp r) rows = []"
    by (auto simp: clamps_next_def Let_def split: list.splits)
  then have "filter is_clamp rows = []" by (simp add: dropWhile_eq_Nil_conv filter_empty_conv)
  moreover have "clamps_by_block rows = []" using None by (simp add: clamps_by_block.simps)
  ultimately show ?thesis by simp
next
  case (Some p)
  then obtain b run rest where p: "clamps_next rows = Some ((b, run), rest)" by (cases p) auto
  then obtain r rs where d: "dropWhile (\<lambda>r. \<not> is_clamp r) rows = r # rs"
    by (auto simp: clamps_next_def split: list.splits)
  let ?P = "\<lambda>q. em_block q = em_block r \<and> is_clamp q"
  have r: "is_clamp r" using d by (metis dropWhile_eq_Cons_conv)
  have e: "b = em_block r" "run = takeWhile ?P (r # rs)" "rest = drop (length run) (r # rs)"
    using p d by (auto simp: clamps_next_def Let_def)
  have "filter is_clamp rows = filter is_clamp (r # rs)"
    unfolding d [symmetric]
    by (metis (no_types, lifting) filter_append filter_False set_takeWhileD takeWhile_dropWhile_id append_Nil)
  moreover have "r # rs = run @ rest" using e(2,3) by (metis append_take_drop_id takeWhile_eq_take)
  moreover have "\<forall>q \<in> set run. em_block q = b \<and> is_clamp q" using e(1,2) by (auto dest: set_takeWhileD)
  moreover have "run \<noteq> []" using e(2) r by simp
  ultimately show ?thesis
    using p clamps_next_shorter [OF p] by (intro disjI2 exI [of _ run] exI [of _ rest] exI [of _ b])
      (auto simp: clamps_by_block.simps [of rows])
qed

lemma clamps_by_block_concat: "concat (map snd (clamps_by_block rows)) = filter is_clamp rows"
proof (induction rows rule: length_induct)
  case (1 rows)
  then show ?case using clamps_by_block_unfold [of rows] by auto
qed

lemma clamps_by_block_runs:
  "(b, run) \<in> set (clamps_by_block rows) \<Longrightarrow> run \<noteq> [] \<and> (\<forall>r \<in> set run. em_block r = b \<and> is_clamp r)"
proof (induction rows rule: length_induct)
  case (1 rows)
  then show ?case using clamps_by_block_unfold [of rows] by auto
qed

lemma is_write_as_write: "is_write r \<longleftrightarrow> as_write r \<noteq> None"
  by (cases r) auto

abbreviation all_writes :: "'e entity_modification list \<Rightarrow> 'e entity_write list" where
  "all_writes rows \<equiv> List.map_filter as_write rows"

lemma chunk_advance_Suc: "chunk_advance n rs (Suc pos) = Suc (chunk_advance n rs pos)"
  by (induction n rs pos rule: chunk_advance.induct) auto

lemma chunk_iter_advance:
  "chunk_iter n rs @ all_writes (drop (chunk_advance n rs 0) rs) = all_writes rs \<and> length (chunk_iter n rs) \<le> n"
proof (induction n rs rule: chunk_iter.induct)
  case (3 n r rs)
  then show ?case
    by (cases "as_write r") (auto simp: is_write_as_write chunk_advance_Suc map_filter_simps)
qed (auto simp: map_filter_simps)

lemma chunk_advance_offset: "chunk_advance n rs pos = pos + chunk_advance n rs 0"
  by (induction pos) (auto simp: chunk_advance_Suc)

lemma write_chunks_from_cover:
  assumes "0 < n"
  shows "\<exists>cs. write_chunks_from rows n pos = Some cs \<and> concat (map wc_iter cs) = all_writes (drop pos rows) \<and>
           (\<forall>c \<in> set cs. length (wc_iter c) \<le> n)"
  using assms
proof (induction rows n pos rule: write_chunks_from.induct)
  case (1 rows n pos)
  show ?case
  proof (cases "length rows \<le> pos")
    case True
    then show ?thesis by (simp add: write_chunks_from.simps [of rows] map_filter_simps)
  next
    case False
    let ?next = "chunk_advance n (drop pos rows) pos"
    let ?c = "\<lparr>wc_rows = rows, wc_chunk_size = n, wc_position = pos\<rparr>"
    obtain cs where cs: "write_chunks_from rows n ?next = Some cs"
      "concat (map wc_iter cs) = all_writes (drop ?next rows)" "\<forall>c \<in> set cs. length (wc_iter c) \<le> n"
      using 1 False by auto
    have "drop ?next rows = drop (chunk_advance n (drop pos rows) 0) (drop pos rows)"
      using chunk_advance_offset [of n "drop pos rows" pos] by (simp add: add.commute)
    then have "wc_iter ?c @ all_writes (drop ?next rows) = all_writes (drop pos rows)" "length (wc_iter ?c) \<le> n"
      using chunk_iter_advance [of n "drop pos rows"] by (simp_all add: wc_iter_def)
    with cs False "1.prems" show ?thesis
      by (simp add: write_chunks_from.simps [of rows n pos])
  qed
qed

section \<open>The invariant of a group\<close>

definition last_mod_ok :: "bool \<Rightarrow> 'e row_group \<Rightarrow> bool" where
  "last_mod_ok memo g \<longleftrightarrow>
     (memo \<longrightarrow> rg_last_mod g = (\<lambda>i. rposition (\<lambda>m. em_id m = i) (rg_rows g)))"

text \<open>The block at which the effect of a modification ends, as far as it is known.\<close>

fun em_stop :: "'e entity_modification \<Rightarrow> block_number" where
  "em_stop (Insert _ _ b e) = (case e of None \<Rightarrow> b | Some x \<Rightarrow> x)"
| "em_stop (Overwrite _ _ b e) = (case e of None \<Rightarrow> b | Some x \<Rightarrow> x)"
| "em_stop (Remove _ b) = b"

fun is_open :: "'e entity_modification \<Rightarrow> bool" where
  "is_open (Insert _ _ _ e) = (e = None)"
| "is_open (Overwrite _ _ _ e) = (e = None)"
| "is_open (Remove _ _) = False"

fun is_remove :: "'e entity_modification \<Rightarrow> bool" where
  "is_remove (Remove _ _) = True"
| "is_remove _ = False"

text \<open>A version that is closed is closed after the block at which it starts.\<close>

definition end_ok :: "'e entity_modification \<Rightarrow> bool" where
  "end_ok r \<longleftrightarrow> (is_write r \<and> \<not> is_open r \<longrightarrow> em_block r < em_stop r)"

text \<open>
  What holds of two consecutive rows for one id: the first one is over when the second one starts,
  and the second one does not have to clamp a version that is already in the database.
\<close>

definition follows :: "'e entity_modification \<Rightarrow> 'e entity_modification \<Rightarrow> bool" where
  "follows r q \<longleftrightarrow> \<not> is_open r \<and> em_block r < em_block q \<and> em_stop r \<le> em_block q \<and> \<not> is_clamp q"

abbreviation rows_for :: "Id \<Rightarrow> 'e entity_modification list \<Rightarrow> 'e entity_modification list" where
  "rows_for i \<equiv> filter (\<lambda>r. em_id r = i)"

definition row_chains :: "'e entity_modification list \<Rightarrow> bool" where
  "row_chains rows \<longleftrightarrow> (\<forall>i. successively follows (rows_for i rows))"

text \<open>The invariant of a group that has the modifications up to block \<open>n\<close>.\<close>

definition rg_inv :: "bool \<Rightarrow> block_number \<Rightarrow> 'e row_group \<Rightarrow> bool" where
  "rg_inv memo n g \<longleftrightarrow>
     last_mod_ok memo g \<and> row_chains (rg_rows g) \<and>
     (\<forall>r \<in> set (rg_rows g). end_ok r \<and> em_block r \<le> n \<and> em_stop r \<le> n)"

lemma rposition_less: "rposition P xs = Some i \<Longrightarrow> i < length xs \<and> P (xs ! i)"
  by (erule rposition_split) auto

lemma prev_row_eq: "last_mod_ok memo g \<Longrightarrow> prev_row memo g i = rposition (\<lambda>m. em_id m = i) (rg_rows g)"
  by (auto simp: prev_row_def last_mod_get_def last_mod_ok_def dest: rposition_less split: option.split)

lemma push_row_rows [simp]: "rg_rows (push_row memo g row) = rg_rows g @ [row]"
  by (simp add: push_row_def)

lemma push_row_type [simp]: "rg_entity_type (push_row memo g row) = rg_entity_type g"
  by (simp add: push_row_def)

lemma push_row_last_mod_ok: "last_mod_ok memo g \<Longrightarrow> last_mod_ok memo (push_row memo g row)"
  by (auto simp: last_mod_ok_def push_row_def last_mod_insert_def fun_eq_iff)

lemma rposition_map_cong:
  "map f xs = map f ys \<Longrightarrow> rposition (\<lambda>x. f x = a) xs = rposition (\<lambda>x. f x = a) ys"
proof (induction xs arbitrary: ys)
  case (Cons x xs)
  then obtain y zs where "ys = y # zs" "f x = f y" "map f xs = map f zs" by auto
  with Cons.IH show ?case by simp
qed simp

lemma last_mod_ok_update:
  assumes "last_mod_ok memo g" "idx < length (rg_rows g)" "em_id r = em_id (rg_rows g ! idx)"
  shows "last_mod_ok memo (g\<lparr>rg_rows := (rg_rows g)[idx := r]\<rparr>)"
proof -
  have "map em_id ((rg_rows g)[idx := r]) = map em_id (rg_rows g)"
    using assms(2,3) by (simp add: map_update list_update_same_conv)
  then have "rposition (\<lambda>m. em_id m = i) ((rg_rows g)[idx := r]) = rposition (\<lambda>m. em_id m = i) (rg_rows g)" for i
    by (rule rposition_map_cong)
  with assms(1) show ?thesis by (simp add: last_mod_ok_def)
qed

lemma em_clamp_ok:
  "em_clamp m b = Ok m' \<Longrightarrow>
     em_key m' = em_key m \<and> em_id m' = em_id m \<and> em_block m' = em_block m \<and> is_clamp m' = is_clamp m \<and>
     \<not> is_open m' \<and> em_stop m' = b \<and> (em_block m < b \<longrightarrow> end_ok m')"
  by (cases "(m, b)" rule: em_clamp.cases) (auto simp: em_id_def end_ok_def)

lemma into_insert_ok:
  "into_insert m = Ok m' \<Longrightarrow>
     em_key m' = em_key m \<and> em_block m' = em_block m \<and> \<not> is_clamp m' \<and> end_ok m' = end_ok m \<and> em_stop m' = em_stop m \<and> as_write m' = as_write m"
  by (cases m) (auto simp: end_ok_def)

lemma em_clamp_open: "is_open m \<Longrightarrow> \<exists>m'. em_clamp m b = Ok m'"
  by (cases "(m, b)" rule: em_clamp.cases) auto

lemma combine_rows_cases:
  assumes "combine_rows memo g idx prev row = (g', Ok ())"
  shows "(creates_entity row \<and> \<not> is_open prev \<and> g' = push_row memo g row) \<or>
    (\<exists>k d b e prev'. row = Overwrite k d b e \<and> is_open prev \<and> em_clamp prev b = Ok prev' \<and>
        g' = push_row memo (g\<lparr>rg_rows := (rg_rows g)[idx := prev']\<rparr>) (Insert k d b e)) \<or>
    (\<exists>k b prev'. row = Remove k b \<and> is_open prev \<and> em_clamp prev b = Ok prev' \<and>
        g' = g\<lparr>rg_rows := (rg_rows g)[idx := prev']\<rparr>) \<or>
    (is_remove row \<and> is_remove prev \<and> g' = g)"
  using assms em_clamp_open [of prev "em_block row"]
  by (cases row; cases prev) (auto simp: combine_rows_def Let_def split: if_splits)

text \<open>What a successful \<open>append_row\<close> does for a mutable entity type.\<close>

lemma append_row_cases:
  assumes ok: "append_row fl memo g row = (g', Ok ())"
    and mut: "\<not> tf_is_immutable fl (rg_entity_type g)" and lm: "last_mod_ok memo g"
  obtains
    (fresh) "em_id row \<notin> em_id ` set (rg_rows g)" "g' = push_row memo g row"
  | (again) xs p ys where "rg_rows g = xs @ p # ys" "em_id p = em_id row" "em_id row \<notin> em_id ` set ys"
      "em_block p < em_block row" "creates_entity row" "\<not> is_open p" "g' = push_row memo g row"
  | (overwrite) xs p ys p' k d b e where "rg_rows g = xs @ p # ys" "em_id p = em_id row" "em_id row \<notin> em_id ` set ys"
      "em_block p < em_block row" "row = Overwrite k d b e" "is_open p" "em_clamp p b = Ok p'"
      "rg_rows g' = xs @ p' # ys @ [Insert k d b e]"
      "g' = push_row memo (g\<lparr>rg_rows := xs @ p' # ys\<rparr>) (Insert k d b e)"
  | (remove) xs p ys p' k b where "rg_rows g = xs @ p # ys" "em_id p = em_id row" "em_id row \<notin> em_id ` set ys"
      "em_block p < em_block row" "row = Remove k b" "is_open p" "em_clamp p b = Ok p'"
      "g' = g\<lparr>rg_rows := xs @ p' # ys\<rparr>"
  | (removed) xs p ys where "rg_rows g = xs @ p # ys" "em_id p = em_id row" "em_id row \<notin> em_id ` set ys"
      "em_block p < em_block row" "is_remove row" "is_remove p" "g' = g"
proof (cases "prev_row memo g (em_id row)")
  case None
  then have "em_id row \<notin> em_id ` set (rg_rows g)"
    by (auto simp: prev_row_eq [OF lm] rposition_None_iff)
  with None show ?thesis using ok mut fresh by (simp add: append_row_def)
next
  case (Some idx)
  then have "rposition (\<lambda>m. em_id m = em_id row) (rg_rows g) = Some idx" by (simp add: prev_row_eq [OF lm])
  then obtain xs p ys where g: "rg_rows g = xs @ p # ys" "length xs = idx" "em_id p = em_id row"
    "\<forall>y \<in> set ys. em_id y \<noteq> em_id row"
    by (rule rposition_split)
  then have p: "rg_rows g ! idx = p" "\<And>q. (rg_rows g)[idx := q] = xs @ q # ys" "em_id row \<notin> em_id ` set ys"
    by (auto simp: image_iff)
  have c: "combine_rows memo g idx p row = (g', Ok ())" and b: "em_block p < em_block row"
    using ok mut Some p(1) by (auto simp: append_row_def Let_def split: if_splits)
  from combine_rows_cases [OF c] show ?thesis
    unfolding p(2) using g(1,3) p(3) b again overwrite remove removed by (elim disjE exE conjE) auto
qed

lemma append_row_type: "append_row fl memo g row = (g', r) \<Longrightarrow> rg_entity_type g' = rg_entity_type g"
  by (cases row; cases "rg_rows g ! the (prev_row memo g (em_id row))")
     (auto simp: append_row_def append_immutable_def combine_rows_def Let_def
        split: if_splits option.splits outcome.splits)

lemma append_row_err:
  assumes "append_row fl memo g row = (g', r)" "r \<noteq> Ok ()"
  shows "g' = g"
  using assms em_clamp_open [of "rg_rows g ! the (prev_row memo g (em_id row))" "em_block row"]
  by (cases row) (auto simp: append_row_def append_immutable_def combine_rows_def Let_def
        split: if_splits option.splits outcome.splits entity_modification.splits)

lemma row_chains_snoc:
  "row_chains (rs @ [r]) \<longleftrightarrow>
     row_chains rs \<and> (rows_for (em_id r) rs \<noteq> [] \<longrightarrow> follows (last (rows_for (em_id r) rs)) r)"
  by (auto simp: row_chains_def successively_append_iff)

lemma rows_for_none: "i \<notin> em_id ` set rs \<Longrightarrow> rows_for i rs = []"
  by (induction rs) auto

lemma rows_for_last:
  "em_id p = i \<Longrightarrow> i \<notin> em_id ` set ys \<Longrightarrow> rows_for i (xs @ p # ys) = rows_for i xs @ [p]"
  by (simp add: rows_for_none)

text \<open>Closing the last row for an id keeps the chains.\<close>

lemma row_chains_close:
  assumes "row_chains (xs @ p # ys)" "em_id p' = em_id p" "em_block p' = em_block p" "is_clamp p' = is_clamp p"
    "em_id p \<notin> em_id ` set ys"
  shows "row_chains (xs @ p' # ys)"
  unfolding row_chains_def
proof
  fix i
  have c: "successively follows (rows_for i (xs @ p # ys))" using assms(1) by (simp add: row_chains_def)
  show "successively follows (rows_for i (xs @ p' # ys))"
  proof (cases "em_id p = i")
    case True
    have "follows q p' = follows q p" for q using assms(3,4) by (simp add: follows_def)
    then show ?thesis
      using c True assms(2,5) rows_for_last [of p i ys xs] rows_for_last [of p' i ys xs]
      by (simp add: successively_append_iff)
  next
    case False
    with c assms(2) show ?thesis by simp
  qed
qed

lemma append_row_inv:
  assumes inv: "rg_inv memo n g" and ok: "append_row fl memo g row = (g', Ok ())"
    and mut: "\<not> tf_is_immutable fl (rg_entity_type g)"
    and row: "is_open row \<or> is_remove row" "n \<le> em_block row"
  shows "rg_inv memo (em_block row) g'"
proof -
  have lm: "last_mod_ok memo g" and ch: "row_chains (rg_rows g)"
    and bd: "\<forall>r \<in> set (rg_rows g). end_ok r \<and> em_block r \<le> em_block row \<and> em_stop r \<le> em_block row"
    using inv row(2) by (auto simp: rg_inv_def)
  have r: "end_ok row" "em_stop row = em_block row" using row(1) by (cases row; simp add: end_ok_def)+
  from ok mut lm show ?thesis
  proof (cases rule: append_row_cases)
    case fresh
    then have "rows_for (em_id row) (rg_rows g) = []" by (simp add: rows_for_none)
    then show ?thesis using lm ch bd r fresh by (auto simp: rg_inv_def push_row_last_mod_ok row_chains_snoc)
  next
    case (again xs p ys)
    have "follows p row" using again bd by (cases row) (auto simp: follows_def)
    moreover have "rows_for (em_id row) (rg_rows g) = rows_for (em_id row) xs @ [p]"
      unfolding again(1) by (rule rows_for_last [OF again(2,3)])
    ultimately have "row_chains (rg_rows g @ [row])" unfolding row_chains_snoc using ch by simp
    then show ?thesis using lm bd r again(7) by (auto simp: rg_inv_def push_row_last_mod_ok)
  next
    case (overwrite xs p ys p' k d b e)
    have p': "em_key p' = em_key p" "em_id p' = em_id p" "em_block p' = em_block p" "is_clamp p' = is_clamp p"
      "\<not> is_open p'" "em_stop p' = b" "end_ok p'" and b: "b = em_block row"
      using em_clamp_ok [OF overwrite(7)] overwrite(4,5) by auto
    let ?i = "Insert k d b e"
    have i: "em_id ?i = em_id row" "em_block ?i = b" "em_stop ?i = b" "end_ok ?i" "\<not> is_clamp ?i"
      using overwrite(5) r by (auto simp: em_id_def end_ok_def)
    have "row_chains (xs @ p' # ys)"
      using row_chains_close [of xs p ys p'] ch p' overwrite(1-3) by simp
    moreover have "follows p' ?i" using p' i overwrite(4) b by (simp add: follows_def)
    ultimately have c: "row_chains ((xs @ p' # ys) @ [?i])"
      unfolding row_chains_snoc [of "xs @ p' # ys"] i(1)
      using rows_for_last [of p' "em_id row" ys xs] p'(2) overwrite(2,3) by (simp del: filter_append filter.simps)
    have "last_mod_ok memo (g\<lparr>rg_rows := xs @ p' # ys\<rparr>)"
      using last_mod_ok_update [OF lm, of "length xs" p'] overwrite(1) p'(2) by simp
    then show ?thesis
      using c bd p' i b overwrite(1,4,9) by (auto simp: rg_inv_def push_row_last_mod_ok)
  next
    case (remove xs p ys p' k b)
    have p': "em_key p' = em_key p" "em_id p' = em_id p" "em_block p' = em_block p" "is_clamp p' = is_clamp p"
      "\<not> is_open p'" "em_stop p' = b" "end_ok p'"
      using em_clamp_ok [OF remove(7)] remove(4,5) by auto
    have "row_chains (xs @ p' # ys)" using row_chains_close [of xs p ys p'] ch p' remove(1-3) by simp
    moreover have "last_mod_ok memo (g\<lparr>rg_rows := xs @ p' # ys\<rparr>)"
      using last_mod_ok_update [OF lm, of "length xs" p'] remove(1) p'(2) by simp
    ultimately show ?thesis using bd p' remove(1,4,5,8) by (auto simp: rg_inv_def)
  next
    case (removed xs p ys)
    with lm ch bd show ?thesis by (simp add: rg_inv_def)
  qed
qed

section \<open>The invariant of a batch\<close>

text \<open>The groups of immutable types have only insertions, all others satisfy \<open>rg_inv\<close>.\<close>

definition group_inv :: "type_flags \<Rightarrow> bool \<Rightarrow> block_number \<Rightarrow> block_number \<Rightarrow> 'e row_group \<Rightarrow> bool" where
  "group_inv fl memo f n g \<longleftrightarrow>
     (if tf_is_immutable fl (rg_entity_type g)
      then last_mod_ok memo g \<and> (\<forall>r \<in> set (rg_rows g). creates_entity r \<and> is_open r \<and> em_block r \<le> n)
      else rg_inv memo n g) \<and>
     (\<forall>r \<in> set (rg_rows g). k_entity_type (em_key r) = rg_entity_type g \<and> f \<le> em_block r)"

definition groups_inv :: "type_flags \<Rightarrow> bool \<Rightarrow> block_number \<Rightarrow> block_number \<Rightarrow> 'e row_groups \<Rightarrow> bool" where
  "groups_inv fl memo f n gs \<longleftrightarrow> distinct (map rg_entity_type gs) \<and> (\<forall>g \<in> set gs. group_inv fl memo f n g)"

text \<open>A modification as the entity cache makes it for the block: not yet closed.\<close>

definition fresh_mod :: "block_number \<Rightarrow> 'e entity_modification \<Rightarrow> bool" where
  "fresh_mod b m \<longleftrightarrow> em_block m = b \<and> (is_open m \<or> is_remove m)"

lemma group_inv_mono: "group_inv fl memo f n g \<Longrightarrow> n \<le> m \<Longrightarrow> group_inv fl memo f m g"
  by (fastforce simp: group_inv_def rg_inv_def)

lemma groups_inv_mono: "groups_inv fl memo f n gs \<Longrightarrow> n \<le> m \<Longrightarrow> groups_inv fl memo f m gs"
  using group_inv_mono [of fl memo f n _ m] by (auto simp: groups_inv_def)

lemma group_inv_new: "group_inv fl memo f n (row_group_new t)"
  by (simp add: group_inv_def row_group_new_def rg_inv_def row_chains_def last_mod_ok_def)

lemma em_id_cong: "em_key m = em_key m' \<Longrightarrow> em_id m = em_id m'"
  by (simp add: em_id_def)

lemma append_row_keys:
  assumes "append_row fl memo g row = (g', Ok ())" "\<not> tf_is_immutable fl (rg_entity_type g)" "last_mod_ok memo g"
  shows "\<forall>r \<in> set (rg_rows g'). \<exists>q \<in> insert row (set (rg_rows g)). em_key r = em_key q \<and> em_block r = em_block q"
  using assms
proof (cases rule: append_row_cases)
  case (overwrite xs p ys p' k d b e)
  then show ?thesis using em_clamp_ok [OF overwrite(7)] by auto
next
  case (remove xs p ys p' k b)
  then show ?thesis using em_clamp_ok [OF remove(7)] by auto
qed auto

lemma append_immutable_cases:
  assumes "append_immutable fl memo g row = (g', r)"
  shows "g' = g \<or> (creates_entity row \<and> g' = push_row memo g row \<and> r = Ok ())"
  using assms by (cases row) (auto simp: append_immutable_def split: option.splits if_splits)

lemma append_row_group_inv:
  assumes inv: "group_inv fl memo f n g" and ap: "append_row fl memo g row = (g', r)"
    and row: "fresh_mod b row" "n \<le> b" "f \<le> b" "k_entity_type (em_key row) = rg_entity_type g"
  shows "group_inv fl memo f b g'"
proof (cases "r = Ok ()")
  case False
  then show ?thesis using append_row_err [OF ap] group_inv_mono [OF inv row(2)] by simp
next
  case True
  show ?thesis
  proof (cases "tf_is_immutable fl (rg_entity_type g)")
    case imm: True
    then have "append_immutable fl memo g row = (g', r)" using ap by (simp add: append_row_def)
    then consider "g' = g" | "creates_entity row" "g' = push_row memo g row" by (auto dest: append_immutable_cases)
    then show ?thesis
    proof cases
      case 1
      then show ?thesis using group_inv_mono [OF inv row(2)] by simp
    next
      case 2
      then have "is_open row" using row(1) by (cases row) (auto simp: fresh_mod_def)
      then show ?thesis
        using 2 imm inv row by (auto simp: group_inv_def push_row_last_mod_ok fresh_mod_def)
    qed
  next
    case mut: False
    with inv have i: "rg_inv memo n g" "last_mod_ok memo g" by (auto simp: group_inv_def rg_inv_def)
    have "rg_inv memo b g'"
      using append_row_inv [OF i(1) _ mut, of row g'] ap True row(1,2) by (auto simp: fresh_mod_def)
    moreover have "rg_entity_type g' = rg_entity_type g" using ap by (rule append_row_type)
    moreover have "\<forall>q \<in> set (rg_rows g'). k_entity_type (em_key q) = rg_entity_type g \<and> f \<le> em_block q"
      using append_row_keys [OF _ mut i(2), of row g'] ap True row inv by (fastforce simp: group_inv_def fresh_mod_def)
    ultimately show ?thesis using mut by (simp add: group_inv_def)
  qed
qed

lemma rg_push_inv:
  assumes "group_inv fl memo f n g" "rg_push fl memo g m b = (g', r)" "fresh_mod b m" "n \<le> b" "f \<le> b"
    "k_entity_type (em_key m) = rg_entity_type g"
  shows "group_inv fl memo f b g' \<and> rg_entity_type g' = rg_entity_type g"
  using assms append_row_group_inv [OF assms(1) _ assms(3-6), of g' r] append_row_type [of fl memo g m g' r]
    group_inv_mono [OF assms(1,4)]
  by (auto simp: rg_push_def Let_def split: if_splits)

lemma rg_append_inv:
  assumes inv: "group_inv fl memo f n g" and ap: "rg_append fl memo g other = (g', r)" and n: "n \<le> b" "f \<le> b"
    and rows: "\<forall>m \<in> set (rg_rows other). fresh_mod b m \<and> k_entity_type (em_key m) = rg_entity_type other"
  shows "group_inv fl memo f b g' \<and> rg_entity_type g' = rg_entity_type g"
proof (cases "rg_entity_type g = rg_entity_type other")
  case True
  let ?P = "\<lambda>h. group_inv fl memo f b h \<and> rg_entity_type h = rg_entity_type g"
  have "?P (fst (mut_fold (append_row fl memo) g (rg_rows other)))"
  proof (rule mut_fold_invariant)
    show "?P g" using group_inv_mono [OF inv n(1)] by simp
  next
    fix h x h' q
    assume "x \<in> set (rg_rows other)" "?P h" "append_row fl memo h x = (h', q)"
    then show "?P h'"
      using rows n(2) True append_row_group_inv [of fl memo f b h x h' q b] append_row_type [of fl memo h x h' q] by auto
  qed
  with ap True show ?thesis by (simp add: rg_append_def)
next
  case False
  with ap group_inv_mono [OF inv n(1)] show ?thesis by (simp add: rg_append_def)
qed

lemma update_group_types:
  assumes "\<And>g g' r. rg_entity_type g = t \<Longrightarrow> f g = (g', r) \<Longrightarrow> rg_entity_type g' = t"
    and "update_group f t gs = (gs', r)"
  shows "set (map rg_entity_type gs') = insert t (set (map rg_entity_type gs)) \<and>
         (distinct (map rg_entity_type gs) \<longrightarrow> distinct (map rg_entity_type gs'))"
  using assms(2)
proof (induction gs arbitrary: gs' r)
  case Nil
  then show ?case using assms(1) [of "row_group_new t"] by (auto simp: row_group_new_def split: prod.splits)
next
  case (Cons g gs)
  show ?case
  proof (cases "rg_entity_type g = t")
    case True
    obtain g' q where "f g = (g', q)" by fastforce
    with Cons.prems True assms(1) [of g g' q] show ?thesis by auto
  next
    case False
    obtain hs q where u: "update_group f t gs = (hs, q)" by fastforce
    then have "gs' = g # hs" using Cons.prems False by simp
    with False Cons.IH [OF u] show ?thesis by (simp add: insert_commute)
  qed
qed

lemma update_group_all:
  assumes "\<And>g g' r. rg_entity_type g = t \<Longrightarrow> P g \<Longrightarrow> f g = (g', r) \<Longrightarrow> P g'" "P (row_group_new t)"
    and "update_group f t gs = (gs', r)" "\<forall>g \<in> set gs. P g"
  shows "\<forall>g \<in> set gs'. P g"
  using assms(3,4)
proof (induction gs arbitrary: gs' r)
  case Nil
  then show ?case
    using assms(1) [of "row_group_new t"] assms(2) by (auto simp: row_group_new_def split: prod.splits)
next
  case (Cons g gs)
  show ?case
  proof (cases "rg_entity_type g = t")
    case True
    obtain g' q where "f g = (g', q)" by fastforce
    with Cons.prems True assms(1) [of g g' q] show ?thesis by auto
  next
    case False
    obtain hs q where u: "update_group f t gs = (hs, q)" by fastforce
    with Cons.prems False Cons.IH [OF u] show ?thesis by auto
  qed
qed

lemma update_group_inv:
  assumes "groups_inv fl memo f n gs" "n \<le> b" "update_group upd t gs = (gs', r)"
    and "\<And>g g' r. rg_entity_type g = t \<Longrightarrow> group_inv fl memo f b g \<Longrightarrow> upd g = (g', r) \<Longrightarrow>
           group_inv fl memo f b g' \<and> rg_entity_type g' = t"
    and "\<And>g g' r. rg_entity_type g = t \<Longrightarrow> upd g = (g', r) \<Longrightarrow> rg_entity_type g' = t"
  shows "groups_inv fl memo f b gs'"
proof -
  have "\<forall>g \<in> set gs. group_inv fl memo f b g" "distinct (map rg_entity_type gs)"
    using groups_inv_mono [OF assms(1,2)] by (auto simp: groups_inv_def)
  moreover have "\<forall>g \<in> set gs'. group_inv fl memo f b g"
    by (rule update_group_all [where P = "group_inv fl memo f b", OF _ group_inv_new assms(3)])
      (use assms(4) calculation in blast)+
  ultimately show ?thesis
    using update_group_types [OF assms(5,3)] by (simp add: groups_inv_def)
qed

lemma rgs_append_inv:
  assumes inv: "groups_inv fl memo f n gs" and ap: "rgs_append fl memo gs others = (gs', r)" and n: "n \<le> b" "f \<le> b"
    and rows: "\<forall>g \<in> set others. \<forall>m \<in> set (rg_rows g). fresh_mod b m \<and> k_entity_type (em_key m) = rg_entity_type g"
  shows "groups_inv fl memo f b gs'"
proof -
  have "groups_inv fl memo f b (fst (rgs_append fl memo gs others))"
    unfolding rgs_append_def
  proof (rule mut_fold_invariant)
    show "groups_inv fl memo f b gs" using inv n(1) by (rule groups_inv_mono)
  next
    fix hs other hs' q
    assume o: "other \<in> set others" and h: "groups_inv fl memo f b hs"
      and u: "update_group (\<lambda>g. rg_append fl memo g other) (rg_entity_type other) hs = (hs', q)"
    show "groups_inv fl memo f b hs'"
    proof (rule update_group_inv [OF h order_refl u])
      fix g g' r
      assume g: "rg_entity_type g = rg_entity_type other" "group_inv fl memo f b g" "rg_append fl memo g other = (g', r)"
      show "group_inv fl memo f b g' \<and> rg_entity_type g' = rg_entity_type other"
        using rg_append_inv [OF g(2,3) order_refl n(2)] rows o g(1) by simp
    next
      fix g g' r
      assume g: "rg_entity_type g = rg_entity_type other" "rg_append fl memo g other = (g', r)"
      have "rg_entity_type (fst (mut_fold (append_row fl memo) g (rg_rows other))) = rg_entity_type g"
        by (rule mut_fold_invariant [where P = "\<lambda>h. rg_entity_type h = rg_entity_type g"])
          (auto dest: append_row_type)
      with g show "rg_entity_type g' = rg_entity_type other" by (simp add: rg_append_def)
    qed
  qed
  with ap show ?thesis by simp
qed

lemma batch_mods_inv:
  assumes "batch_mods fl memo b ms = (gs, r)" "\<forall>m \<in> set ms. fresh_mod b m" "f \<le> b"
  shows "groups_inv fl memo f b gs"
proof -
  have "groups_inv fl memo f b (fst (batch_mods fl memo b ms))"
    unfolding batch_mods_def
  proof (rule mut_fold_invariant)
    show "groups_inv fl memo f b []" by (simp add: groups_inv_def)
  next
    fix hs m hs' q
    assume m: "m \<in> set ms" and h: "groups_inv fl memo f b hs"
      and u: "update_group (\<lambda>g. rg_push fl memo g m b) (k_entity_type (em_key m)) hs = (hs', q)"
    show "groups_inv fl memo f b hs'"
    proof (rule update_group_inv [OF h order_refl u])
      fix g g' r
      assume g: "rg_entity_type g = k_entity_type (em_key m)" "rg_push fl memo g m b = (g', r)"
      show "rg_entity_type g' = k_entity_type (em_key m)"
        using g append_row_type [of fl memo g m g' r] by (auto simp: rg_push_def Let_def split: if_splits)
      assume "group_inv fl memo f b g"
      from rg_push_inv [OF this g(2) _ order_refl assms(3)] m assms(2) g(1)
      show "group_inv fl memo f b g' \<and> rg_entity_type g' = k_entity_type (em_key m)" by simp
    qed
  qed
  with assms(1) show ?thesis by simp
qed

text \<open>
  A batch is well-formed if its groups are, from the first to the last block of the batch.
\<close>

definition batch_inv :: "type_flags \<Rightarrow> bool \<Rightarrow> ('e, 'ds, 'se) batch \<Rightarrow> bool" where
  "batch_inv fl memo b \<longleftrightarrow>
     groups_inv fl memo (b_first_block b) (bp_number (b_block_ptr b)) (b_mods b) \<and>
     b_first_block b \<le> bp_number (b_block_ptr b)"

lemma group_inv_fresh: "group_inv fl memo b b g \<Longrightarrow> m \<in> set (rg_rows g) \<Longrightarrow> fresh_mod b m"
  by (cases m) (fastforce simp: group_inv_def rg_inv_def fresh_mod_def end_ok_def split: if_splits option.splits)+

lemma batch_new_inv:
  assumes "unstable_sort mod_kind srt" "\<forall>m \<in> set mods. fresh_mod (bp_number ptr) m"
    "batch_new fl memo srt weigh ptr time cursor mods dss errs offchain nonfatal = Ok b"
  shows "groups_inv fl memo (bp_number ptr) (bp_number ptr) (b_mods b) \<and> b_block_ptr b = ptr \<and> b_first_block b = bp_number ptr \<and>
         b_error b = None"
proof -
  have "set (srt mods) = set mods" using assms(1) by (metis unstable_sort_def set_mset_mset)
  then have "\<forall>m \<in> set (srt mods). fresh_mod (bp_number ptr) m" using assms(2) by simp
  then show ?thesis
    using assms(3) batch_mods_inv [of fl memo "bp_number ptr" "srt mods" _ _ "bp_number ptr"]
    by (auto simp: batch_new_def split: prod.splits outcome.splits)
qed

lemma mut_fold_no_panic:
  "(\<And>s x s' m. f s x \<noteq> (s', Panic m)) \<Longrightarrow> mut_fold f s xs \<noteq> (s', Panic m)"
  by (induction xs arbitrary: s) (auto split: prod.splits outcome.splits)

lemma em_clamp_no_panic: "em_clamp m b \<noteq> Panic s"
  by (cases "(m, b)" rule: em_clamp.cases) auto

lemma into_insert_no_panic: "into_insert m \<noteq> Panic s"
  by (cases m) auto

lemma append_row_no_panic: "append_row fl memo g row \<noteq> (g', Panic s)"
  using em_clamp_no_panic into_insert_no_panic
  by (auto simp: append_row_def append_immutable_def combine_rows_def Let_def
        split: if_splits option.splits outcome.splits entity_modification.splits)

lemma update_group_no_panic:
  "(\<And>g g' m. f g \<noteq> (g', Panic m)) \<Longrightarrow> update_group f t gs \<noteq> (gs', Panic m)"
  by (induction gs arbitrary: gs') (auto simp: Let_def split: prod.splits)

lemma rgs_append_no_panic: "rgs_append fl memo gs others \<noteq> (gs', Panic m)"
  unfolding rgs_append_def rg_append_def
  by (intro mut_fold_no_panic update_group_no_panic) (simp add: mut_fold_no_panic append_row_no_panic)

section \<open>Lemmas on lookups\<close>

lemma rg_last_op_scan:
  "rg_last_op False g key at =
     map_option (\<lambda>m. as_entity_op m at) (rfind (\<lambda>m. em_key m = key \<and> em_block m \<le> at) (rg_rows g))"
  by (simp add: rg_last_op_def last_mod_get_def)

lemma rg_last_op_memo:
  assumes lm: "last_mod_ok True g"
    and key: "\<forall>m \<in> set (rg_rows g). em_id m = k_entity_id key \<longrightarrow> em_key m = key"
  shows "rg_last_op True g key at = rg_last_op False g key at"
proof (cases "rposition (\<lambda>m. em_id m = k_entity_id key) (rg_rows g)")
  case None
  then show ?thesis using lm by (simp add: rg_last_op_def last_mod_get_def last_mod_ok_def)
next
  case (Some i)
  then obtain xs p ys where p: "rg_rows g = xs @ p # ys" "length xs = i" "em_id p = k_entity_id key"
    "\<forall>y \<in> set ys. em_id y \<noteq> k_entity_id key"
    by (rule rposition_split)
  have "rfind (\<lambda>m. em_key m = key \<and> em_block m \<le> at) ys = None"
    using p(4) by (auto simp: rfind_None_iff em_id_def)
  moreover have "em_key p = key" using key p(1,3) by auto
  ultimately have "rfind (\<lambda>m. em_key m = key \<and> em_block m \<le> at) (rg_rows g) =
      (if em_block p \<le> at then Some p else rfind (\<lambda>m. em_key m = key \<and> em_block m \<le> at) xs)"
    by (auto simp: p(1) rfind_append rfind_Cons)
  then show ?thesis
    using lm Some p(1,2)
    by (auto simp: rg_last_op_def last_mod_get_def last_mod_ok_def vec_get_def rfind_append split: option.splits if_splits)
qed

lemma effective_filter_iff:
  "m \<in> set (effective_filter at seen ms) \<longleftrightarrow>
     em_id m \<notin> seen \<and> find (\<lambda>q. em_id q = em_id m \<and> em_block q \<le> at) ms = Some m"
  by (induction ms arbitrary: seen) auto

lemma effective_filter_distinct:
  "distinct (map em_id (effective_filter at seen ms))"
  by (induction ms arbitrary: seen) (auto simp: effective_filter_iff image_iff)

fun op_key :: "'e entity_op \<Rightarrow> entity_key" where
  "op_key (WriteOp k _) = k"
| "op_key (RemoveOp k) = k"

lemma op_key_as_entity_op [simp]: "op_key (as_entity_op m at) = em_key m"
  by (cases "(m, at)" rule: as_entity_op.cases) auto

lemma sort_key_unstable: "unstable_sort key (sort_key key)"
  by (simp add: unstable_sort_def)

text \<open>Example data for the applications of the properties\<close>

definition example_flags :: type_flags where
  "example_flags = \<lparr>tf_is_immutable = (\<lambda>t. t = ''Event''), tf_skip_duplicates = (\<lambda>_. False)\<rparr>"

definition example_key :: "string \<Rightarrow> causality_region \<Rightarrow> entity_key" where
  "example_key i r = key_in ''Account'' (StringId i) r"

definition example_ptr :: "block_number \<Rightarrow> block_ptr" where
  "example_ptr n = \<lparr>bp_hash = [], bp_number = n\<rparr>"

definition example_batch_new ::
  "block_number \<Rightarrow> nat entity_modification list \<Rightarrow> ((nat, nat, nat) batch, store_error) outcome" where
  "example_batch_new n mods =
     batch_new example_flags True (sort_key mod_kind) rgs_entity_count (example_ptr n) 0 None mods [] [] [] False"

lemma example_simps [simp]:
  "k_entity_type (example_key i r) = ''Account''" "k_entity_id (example_key i r) = StringId i"
  "k_causality_region (example_key i r) = r" "example_key i r = example_key j q \<longleftrightarrow> i = j \<and> r = q"
  "bp_number (example_ptr n) = n" "tf_is_immutable example_flags ''Account'' = False"
  by (auto simp: example_key_def key_in_def example_ptr_def example_flags_def)

lemmas batch_eval =
  batch_new_def batch_mods_def rg_push_def append_row_def append_immutable_def prev_row_def push_row_def
  last_mod_get_def last_mod_insert_def row_group_new_def rgs_entity_count_def row_count_def
  data_sources_new_def combine_rows_def Let_def em_id_def
  batch_append_def batch_append_inner_def rgs_append_def rg_append_def

lemma chunk_iter_writes:
  "\<forall>r \<in> set ws. is_write r \<Longrightarrow> chunk_iter n ws = map (the \<circ> as_write) (take n ws)"
  by (induction n ws rule: chunk_iter.induct) (auto simp: is_write_as_write)

section \<open>Properties\<close>

text \<open>
  C15 (batches stay well-formed). A batch that is made from the modifications of one block is
  well-formed: it has one group for each entity type, in which the memory of the last rows is
  right, the rows for one id follow each other without overlap, and only the first one of
  them clamps a version in the database. Appending such a batch to a well-formed one gives a
  well-formed batch, also if it fails; an error is recorded in the batch, and success moves the
  block pointer forward and leaves the first block as it is. Appending never panics.
\<close>

theorem batch_invariant_kept:
  assumes sort: "unstable_sort mod_kind srt" and mods: "\<forall>m \<in> set mods. fresh_mod (bp_number ptr) m"
    and new: "batch_new fl memo srt weigh ptr time cursor mods dss errs offchain nonfatal = Ok b"
    and inv: "batch_inv fl memo a" and app: "batch_append fl memo weigh a b = (a', r)"
  shows "batch_inv fl memo b \<and> batch_inv fl memo a' \<and> b_first_block a' = b_first_block a \<and>
         (case r of
            Ok _ \<Rightarrow> b_block_ptr a' = ptr \<and> b_error a' = b_error a \<and> bp_number (b_block_ptr a) < bp_number ptr
          | Err e \<Rightarrow> b_error a' = Some e
          | Panic _ \<Rightarrow> False)"
proof -
  let ?n = "bp_number ptr"
  have b: "groups_inv fl memo ?n ?n (b_mods b)" "b_block_ptr b = ptr" "b_first_block b = ?n"
    using batch_new_inv [OF sort mods new] by auto
  obtain gs q where g: "rgs_append fl memo (b_mods a) (b_mods b) = (gs, q)" by fastforce
  have "batch_inv fl memo a'" if "bp_number (b_block_ptr a) < ?n"
  proof -
    have fr: "\<forall>g \<in> set (b_mods b). \<forall>m \<in> set (rg_rows g). fresh_mod ?n m \<and> k_entity_type (em_key m) = rg_entity_type g"
      using b(1) group_inv_fresh by (fastforce simp: groups_inv_def group_inv_def)
    have "groups_inv fl memo (b_first_block a) ?n gs"
      using rgs_append_inv [OF _ g _ _ fr, where f = "b_first_block a" and n = "bp_number (b_block_ptr a)"] inv that
      by (simp add: batch_inv_def)
    moreover have "b_mods a' = gs" "b_block_ptr a' = ptr" "b_first_block a' = b_first_block a"
      using app g b(2) that by (auto simp: batch_append_def batch_append_inner_def Let_def split: outcome.splits)
    ultimately show ?thesis using inv that by (simp add: batch_inv_def)
  qed
  moreover have "batch_inv fl memo a'" if "?n \<le> bp_number (b_block_ptr a)"
    using that app inv b(2) by (auto simp: batch_append_def batch_append_inner_def Let_def batch_inv_def)
  moreover have "q \<noteq> Panic m" for m using g rgs_append_no_panic by metis
  ultimately show ?thesis
    using app g b by (auto simp: batch_append_def batch_append_inner_def Let_def batch_inv_def not_le split: outcome.splits if_splits)
qed

lemma batch_invariant_kept_witness:
  "\<exists>a b a'. example_batch_new 5 [Insert (example_key ''x'' 0) 1 5 None] = Ok a \<and>
     example_batch_new 6 [Overwrite (example_key ''x'' 0) 2 6 None] = Ok b \<and>
     batch_append example_flags True rgs_entity_count a b = (a', Ok ()) \<and>
     map rg_rows (b_mods a') = [[Insert (example_key ''x'' 0) 1 5 (Some 6), Insert (example_key ''x'' 0) 2 6 None]] \<and>
     batch_inv example_flags True a'"
proof -
  let ?k = "example_key ''x'' 0"
  obtain a where a: "example_batch_new 5 [Insert ?k 1 5 None] = Ok a" "b_block_ptr a = example_ptr 5"
    "b_mods a = [\<lparr>rg_entity_type = ''Account'', rg_rows = [Insert ?k 1 5 None], rg_last_mod = [StringId ''x'' \<mapsto> 0]\<rparr>]"
    by (simp add: example_batch_new_def batch_eval)
  obtain b where b: "example_batch_new 6 [Overwrite ?k 2 6 None] = Ok b" and b': "b_block_ptr b = example_ptr 6"
    "b_mods b = [\<lparr>rg_entity_type = ''Account'', rg_rows = [Overwrite ?k 2 6 None], rg_last_mod = [StringId ''x'' \<mapsto> 0]\<rparr>]"
    by (simp add: example_batch_new_def batch_eval)
  have "append_row example_flags True (hd (b_mods a)) (Overwrite ?k 2 6 None) =
      (\<lparr>rg_entity_type = ''Account'', rg_rows = [Insert ?k 1 5 (Some 6), Insert ?k 2 6 None], rg_last_mod = [StringId ''x'' \<mapsto> 1]\<rparr>, Ok ())"
    by (simp add: a(3) batch_eval)
  then obtain a' where a': "batch_append example_flags True rgs_entity_count a b = (a', Ok ())"
    "map rg_rows (b_mods a') = [[Insert ?k 1 5 (Some 6), Insert ?k 2 6 None]]"
    using a(2,3) b' by (simp add: batch_append_def batch_append_inner_def rgs_append_def rg_append_def)
  have "batch_inv example_flags True a"
    using batch_new_inv [OF sort_key_unstable _ a(1) [unfolded example_batch_new_def]]
    by (simp add: batch_inv_def fresh_mod_def example_ptr_def)
  then have "batch_inv example_flags True a'"
    using batch_invariant_kept [OF sort_key_unstable _ b [unfolded example_batch_new_def] _ a'(1)]
    by (simp add: fresh_mod_def example_ptr_def)
  with a(1) b a' show ?thesis by (intro exI [of _ a] exI [of _ b] exI [of _ a'] conjI)
qed

text \<open>
  C31 (the memory of last rows changes no lookup). If all modifications for the id of the key have
  this very key, the lookup of the last operation in a well-formed group does not depend on
  whether the group remembers its last rows: it is the operation of the last row for the
  key at or before the block.
\<close>

theorem last_op_memo_transparent:
  assumes "last_mod_ok True g" "\<forall>m \<in> set (rg_rows g). em_id m = k_entity_id key \<longrightarrow> em_key m = key"
  shows "rg_last_op True g key at = rg_last_op False g key at \<and>
         rg_last_op False g key at =
           map_option (\<lambda>m. as_entity_op m at) (rfind (\<lambda>m. em_key m = key \<and> em_block m \<le> at) (rg_rows g))"
  using rg_last_op_memo [OF assms] rg_last_op_scan by blast

lemma last_op_memo_transparent_witness:
  "rg_last_op True (push_row True (row_group_new ''Account'') (Insert (example_key ''x'' 0) (7 :: nat) 5 None)) (example_key ''x'' 0) 9 =
     Some (WriteOp (example_key ''x'' 0) 7)"
proof -
  let ?g = "push_row True (row_group_new ''Account'') (Insert (example_key ''x'' 0) (7 :: nat) 5 None)"
  have "last_mod_ok True ?g" by (rule push_row_last_mod_ok) (simp add: last_mod_ok_def row_group_new_def)
  moreover have "rg_rows ?g = [Insert (example_key ''x'' 0) 7 5 None]" by (simp add: row_group_new_def)
  ultimately show ?thesis
    using last_op_memo_transparent [of ?g "example_key ''x'' 0" 9] by (simp add: rfind_def)
qed

text \<open>
  The memory of last rows mixes causality regions. A group into which an entity of causality
  region 1 was inserted answers a lookup for the same id in causality region 2 with that entity
  if it remembers its last rows, and with nothing if it does not.
\<close>

lemma last_op_ignores_causality_region:
  "\<exists>g :: nat row_group. append_row example_flags True (row_group_new ''Account'') (Insert (example_key ''x'' 1) 7 5 None) = (g, Ok ()) \<and>
     rg_last_op True g (example_key ''x'' 2) 5 = Some (WriteOp (example_key ''x'' 1) 7) \<and>
     rg_last_op False g (example_key ''x'' 2) 5 = None"
  by (simp add: batch_eval rg_last_op_def vec_get_def rfind_def)

text \<open>
  C29 (effective operations). If modifications for the same id have the same key, the effective
  operations of a group at a block are the last operations at that block of all keys, each key
  once.
\<close>

theorem effective_ops_correct:
  assumes "\<forall>r \<in> set (rg_rows g). \<forall>q \<in> set (rg_rows g). em_id r = em_id q \<longrightarrow> em_key r = em_key q"
  shows "set (rg_effective_ops g at) = {op. \<exists>key. rg_last_op False g key at = Some op} \<and>
         distinct (map op_key (rg_effective_ops g at))"
proof
  let ?F = "effective_filter at {} (rev (rg_rows g))"
  have F: "m \<in> set ?F \<longleftrightarrow> rfind (\<lambda>q. em_key q = em_key m \<and> em_block q \<le> at) (rg_rows g) = Some m" for m
  proof (cases "m \<in> set (rg_rows g)")
    case True
    have "rfind (\<lambda>q. em_id q = em_id m \<and> em_block q \<le> at) (rg_rows g) =
        rfind (\<lambda>q. em_key q = em_key m \<and> em_block q \<le> at) (rg_rows g)"
      by (rule rfind_cong) (use assms True em_id_cong in blast)
    then show ?thesis by (simp add: effective_filter_iff rfind_def)
  next
    case False
    then show ?thesis
      using rfind_Some_D [of _ "rg_rows g" m] by (auto simp: effective_filter_iff rfind_def [symmetric])
  qed
  show "set (rg_effective_ops g at) = {op. \<exists>key. rg_last_op False g key at = Some op}" (is "?L = ?R")
  proof
    show "?L \<subseteq> ?R"
    proof
      fix op assume "op \<in> ?L"
      then obtain m where "m \<in> set ?F" "op = as_entity_op m at" by (auto simp: rg_effective_ops_def)
      then have "rg_last_op False g (em_key m) at = Some op" by (simp add: rg_last_op_scan F)
      then show "op \<in> ?R" by blast
    qed
    show "?R \<subseteq> ?L"
    proof
      fix op assume "op \<in> ?R"
      then obtain key m where m: "op = as_entity_op m at" "rfind (\<lambda>q. em_key q = key \<and> em_block q \<le> at) (rg_rows g) = Some m"
        by (auto simp: rg_last_op_scan)
      then have "em_key m = key" by (auto dest: rfind_Some_D)
      with m have "m \<in> set ?F" by (simp add: F)
      with m(1) show "op \<in> ?L" by (simp add: rg_effective_ops_def)
    qed
  qed
  have "inj_on em_key (set ?F)"
  proof (rule inj_onI)
    fix x y assume "x \<in> set ?F" "y \<in> set ?F" "em_key x = em_key y"
    then show "x = y" by (simp add: F)
  qed
  then show "distinct (map op_key (rg_effective_ops g at))"
    using effective_filter_distinct [of at "{}" "rev (rg_rows g)"]
    by (simp add: rg_effective_ops_def comp_def distinct_map)
qed

lemma effective_ops_correct_witness:
  "set (rg_effective_ops \<lparr>rg_entity_type = ''Account'', rg_rows = [Insert (example_key ''x'' 0) (7 :: nat) 5 (Some 6), Remove (example_key ''y'' 0) 6,
           Insert (example_key ''x'' 0) 8 6 None], rg_last_mod = Map.empty\<rparr> 6) =
     {WriteOp (example_key ''x'' 0) 8, RemoveOp (example_key ''y'' 0)} \<and>
   {op. \<exists>key. rg_last_op False \<lparr>rg_entity_type = ''Account'', rg_rows = [Insert (example_key ''x'' 0) (7 :: nat) 5 (Some 6),
           Remove (example_key ''y'' 0) 6, Insert (example_key ''x'' 0) 8 6 None], rg_last_mod = Map.empty\<rparr> key 6 = Some op} =
     {WriteOp (example_key ''x'' 0) 8, RemoveOp (example_key ''y'' 0)}"
proof -
  let ?g = "\<lparr>rg_entity_type = ''Account'', rg_rows = [Insert (example_key ''x'' 0) (7 :: nat) 5 (Some 6), Remove (example_key ''y'' 0) 6,
           Insert (example_key ''x'' 0) 8 6 None], rg_last_mod = Map.empty\<rparr>"
  have "set (rg_effective_ops ?g 6) = {WriteOp (example_key ''x'' 0) 8, RemoveOp (example_key ''y'' 0)}"
    by (simp add: rg_effective_ops_def em_id_def)
  then show ?thesis
    using effective_ops_correct [of ?g 6] by (simp add: em_id_def)
qed

text \<open>
  Clamps by block. Iterating over the clamps of a group ends and yields runs of clamps for
  one block each, none of them empty, that together are all clamps of the group in their
  order.
\<close>

lemma clamps_by_block_correct:
  "concat (map snd (clamps_by_block rows)) = filter is_clamp rows \<and>
   list_all (\<lambda>(b, run). run \<noteq> [] \<and> list_all (\<lambda>r. em_block r = b \<and> is_clamp r) run) (clamps_by_block rows)"
  using clamps_by_block_concat clamps_by_block_runs by (fastforce simp: list_all_iff)

text \<open>
  C30 (chunks of writes). With a positive chunk size, the chunks of a group come to an end, no
  chunk has more writes than the chunk size, and together they are all writes of the group in
  their order. With a chunk size of 0, a group that is not empty has no end of chunks.
\<close>

theorem write_chunks_correct:
  "if rg_rows g = [] then write_chunks g n = Some []
   else if n = 0 then write_chunks g n = None
   else \<exists>cs. write_chunks g n = Some cs \<and> concat (map wc_iter cs) = all_writes (rg_rows g) \<and>
              list_all (\<lambda>c. length (wc_iter c) \<le> n) cs"
proof (cases "rg_rows g = [] \<or> n = 0")
  case True
  then have "write_chunks g n = (if rg_rows g = [] then Some [] else None)"
    unfolding write_chunks_def by (subst write_chunks_from.simps) auto
  with True show ?thesis by auto
next
  case False
  then show ?thesis using write_chunks_from_cover [of n "rg_rows g" 0] by (simp add: write_chunks_def list_all_iff)
qed

text \<open>
  Chunks of one write. Splitting a chunk into chunks of one write each keeps the writes of the
  chunk if all of its rows are writes.
\<close>

lemma as_single_writes_correct:
  assumes "\<forall>r \<in> set (drop (wc_position c) (wc_rows c)). is_write r"
  shows "concat (map wc_iter (as_single_writes c)) = wc_iter c"
proof -
  let ?ws = "drop (wc_position c) (wc_rows c)"
  have "wc_iter \<lparr>wc_rows = wc_rows c, wc_chunk_size = 1, wc_position = wc_position c + i\<rparr> =
      [the (as_write (?ws ! i))]" if "i < wc_len c" for i
  proof -
    have i: "i < length ?ws" using that by (simp add: wc_len_def)
    have "drop (wc_position c + i) (wc_rows c) = drop i ?ws" by (simp add: add.commute)
    moreover have "\<forall>r \<in> set (drop i ?ws). is_write r" using assms by (meson in_set_dropD)
    moreover have "take 1 (drop i ?ws) = [?ws ! i]" using i by (simp add: take_Suc hd_drop_conv_nth add.commute)
    ultimately show ?thesis by (simp add: wc_iter_def chunk_iter_writes)
  qed
  then have "map wc_iter (as_single_writes c) = map (\<lambda>i. [the (as_write (?ws ! i))]) [0 ..< wc_len c]"
    by (simp add: as_single_writes_def)
  then have "concat (map wc_iter (as_single_writes c)) = map (\<lambda>i. the (as_write (?ws ! i))) [0 ..< wc_len c]"
    by (metis concat_map_singleton)
  also have "\<dots> = map (the \<circ> as_write) (take (wc_len c) ?ws)"
    by (rule nth_equalityI) (simp_all add: wc_len_def)
  also have "take (wc_len c) ?ws = take (wc_chunk_size c) ?ws"
    by (simp add: wc_len_def min_def)
  finally show ?thesis using assms by (simp only: wc_iter_def [of c] chunk_iter_writes)
qed

lemma as_single_writes_correct_witness:
  "concat (map wc_iter (as_single_writes \<lparr>wc_rows = [Insert (example_key ''b'' 0) (7 :: nat) 5 None, Insert (example_key ''c'' 0) 8 5 None],
     wc_chunk_size = 2, wc_position = 0\<rparr>)) =
   map (the \<circ> as_write) [Insert (example_key ''b'' 0) (7 :: nat) 5 None, Insert (example_key ''c'' 0) 8 5 None]"
  using as_single_writes_correct [of "\<lparr>wc_rows = [Insert (example_key ''b'' 0) (7 :: nat) 5 None, Insert (example_key ''c'' 0) 8 5 None],
     wc_chunk_size = 2, wc_position = 0\<rparr>"] by (simp add: wc_iter_def numeral_2_eq_2)

text \<open>
  Repeated single writes. The chunk of size 2 of a removal and two insertions has two writes,
  and is split into two chunks that both have the first of them: the second one is lost.
\<close>

lemma as_single_writes_repeats:
  "let k = (\<lambda>i. example_key i 0);
       c = \<lparr>wc_rows = [Remove (k ''a'') 5, Insert (k ''b'') (7 :: nat) 5 None, Insert (k ''c'') 8 5 None],
            wc_chunk_size = 2, wc_position = 0\<rparr>
   in map ew_entity (wc_iter c) = [7, 8] \<and>
      map (map ew_entity \<circ> wc_iter) (as_single_writes c) = [[7], [7]]"
  by (simp add: Let_def wc_iter_def as_single_writes_def wc_len_def numeral_2_eq_2 upt_conv_Cons)

end
