(* ===== verification/Row_Store.thy ===== *)
theory Row_Store
  imports Write_Batch
begin

text \<open>
  The row versions of one table of a deployment and the statements that change and read them:
  \<open>store/postgres/src/block_range.rs\<close> (the block range column), \<open>relational_queries.rs\<close>
  (\<open>ClampRangeQuery\<close>, \<open>InsertQuery\<close>, \<open>RevertRemoveQuery\<close>, \<open>RevertClampQuery\<close>, \<open>FindManyQuery\<close>,
  \<open>FindDerivedQuery\<close>), \<open>relational/dsl.rs\<close> (the filters of a lookup) and the parts of the methods of
  \<open>Layout\<close> in \<open>relational.rs\<close> that work on one table. A table is the list of its row versions, a
  statement the function that it is on this list.
\<close>

section \<open>Ranges of blocks\<close>

text \<open>
  A Postgres \<open>int4range\<close> with an inclusive lower and an exclusive upper bound; \<open>None\<close> is an infinite
  upper bound. Constructing a range whose bounds are equal gives the empty range; it is an error
  if the lower bound is above the upper one.
\<close>

datatype int4range = EmptyRange | Range int "int option"

definition mk_range :: "int \<Rightarrow> int option \<Rightarrow> (int4range, diesel_error) outcome" where
  "mk_range lo hi =
     (case hi of
        None \<Rightarrow> Ok (Range lo None)
      | Some h \<Rightarrow>
          (if h < lo then Err range_violation
           else if h = lo then Ok EmptyRange
           else Ok (Range lo (Some h))))"

fun range_contains :: "int4range \<Rightarrow> int \<Rightarrow> bool" where
  "range_contains EmptyRange b = False"
| "range_contains (Range lo None) b = (lo \<le> b)"
| "range_contains (Range lo (Some h)) b = (lo \<le> b \<and> b < h)"

text \<open>\<open>lower\<close> and \<open>upper\<close>; \<open>None\<close> is SQL's \<open>null\<close>, and a comparison with it is not true.\<close>

fun range_lower :: "int4range \<Rightarrow> int option" where
  "range_lower EmptyRange = None"
| "range_lower (Range lo _) = Some lo"

fun range_upper :: "int4range \<Rightarrow> int option" where
  "range_upper EmptyRange = None"
| "range_upper (Range _ hi) = hi"

definition coalesce_upper :: "int4range \<Rightarrow> int" where
  "coalesce_upper r = (case range_upper r of None \<Rightarrow> BLOCK_NUMBER_MAX | Some h \<Rightarrow> h)"

definition lower_le :: "int4range \<Rightarrow> int \<Rightarrow> bool" where
  "lower_le r b \<longleftrightarrow> (case range_lower r of None \<Rightarrow> False | Some lo \<Rightarrow> lo \<le> b)"

definition lower_ge :: "int4range \<Rightarrow> int \<Rightarrow> bool" where
  "lower_ge r b \<longleftrightarrow> (case range_lower r of None \<Rightarrow> False | Some lo \<Rightarrow> b \<le> lo)"

section \<open>Tables\<close>

text \<open>
  A column that is a fulltext index has the number of the fields it indexes, any other one \<open>None\<close>.
\<close>

record table_meta =
  tm_object :: entity_type
  tm_immutable :: bool
  tm_skip_duplicates :: bool
  tm_has_causality_region :: bool
  tm_is_account_like :: bool
  tm_has_vid_seq :: bool
  tm_columns :: "nat option list"
  tm_id_type :: id_type

text \<open>An immutable table has the column \<open>block$\<close>, a mutable one the column \<open>block_range\<close>.\<close>

datatype block_value = BlockCol block_number | RangeCol int4range

record 'e version =
  v_id :: Id
  v_region :: causality_region
  v_block :: block_value
  v_data :: 'e

record 'e table =
  t_meta :: table_meta
  t_rows :: "'e version list"

text \<open>\<open>BlockRangeColumn::latest\<close> and \<open>changed_since\<close>\<close>

fun br_latest :: "block_value \<Rightarrow> bool" where
  "br_latest (RangeCol r) = range_contains r BLOCK_NUMBER_MAX"
| "br_latest (BlockCol _) = True"

fun br_changed_since :: "block_number \<Rightarrow> block_value \<Rightarrow> bool" where
  "br_changed_since b (RangeCol r) = lower_ge r b"
| "br_changed_since b (BlockCol n) = (b \<le> n)"

text \<open>
  The filter \<open>AtBlock\<close> of a lookup (also \<open>BlockRangeColumn::contains\<close>); \<open>use_brin\<close> is the heuristic that adds
  the conditions on the bounds.
\<close>

definition at_block :: "table_meta \<Rightarrow> bool \<Rightarrow> block_number \<Rightarrow> block_value \<Rightarrow> bool" where
  "at_block meta use_brin b v =
     (case v of
        BlockCol n \<Rightarrow> (if b = BLOCK_NUMBER_MAX then True else n \<le> b)
      | RangeCol r \<Rightarrow>
          range_contains r b \<and>
          (tm_is_account_like meta \<and> b < BLOCK_NUMBER_MAX \<and> use_brin \<longrightarrow>
             b < coalesce_upper r \<and> lower_le r b))"

definition belongs_to_region :: "table_meta \<Rightarrow> causality_region \<Rightarrow> 'e version \<Rightarrow> bool" where
  "belongs_to_region meta cr v \<longleftrightarrow> (tm_has_causality_region meta \<longrightarrow> v_region v = cr)"

text \<open>\<open>Layout::find\<close> on the table of the entity type: the first row that passes the filters.\<close>

definition find_matches :: "table_meta \<Rightarrow> entity_key \<Rightarrow> block_number \<Rightarrow> 'e version \<Rightarrow> bool" where
  "find_matches meta key b v \<longleftrightarrow>
     v_id v = k_entity_id key \<and> at_block meta True b (v_block v) \<and> belongs_to_region meta (k_causality_region key) v"

definition table_find :: "'e table \<Rightarrow> entity_key \<Rightarrow> block_number \<Rightarrow> 'e option" where
  "table_find t key b = map_option v_data (find (find_matches (t_meta t) key b) (t_rows t))"

text \<open>
  The rows that \<open>FindManyQuery\<close> selects from one of its tables; \<open>brin\<close> is
  \<open>ENV_VARS.store.use_brin_for_all_query_types\<close>.
\<close>

definition find_many_rows :: "bool \<Rightarrow> 'e table \<Rightarrow> causality_region \<Rightarrow> Id list \<Rightarrow> block_number \<Rightarrow> 'e version list" where
  "find_many_rows brin t cr ids b =
     filter (\<lambda>v. v_id v \<in> set ids \<and> belongs_to_region (t_meta t) cr v \<and> at_block (t_meta t) brin b (v_block v)) (t_rows t)"

text \<open>
  The rows that \<open>FindDerivedQuery\<close> selects. \<open>is_related\<close> is the condition that the field has the given
  value. \<open>x != any(array)\<close> is true if some element of the array differs from \<open>x\<close>.
\<close>

definition find_derived_rows ::
  "('e \<Rightarrow> bool) \<Rightarrow> 'e table \<Rightarrow> causality_region \<Rightarrow> block_number \<Rightarrow> Id list \<Rightarrow> 'e version list" where
  "find_derived_rows is_related t cr b excluded =
     filter (\<lambda>v. (excluded = [] \<or> (\<exists>i \<in> set excluded. v_id v \<noteq> i)) \<and> is_related (v_data v) \<and>
                 belongs_to_region (t_meta t) cr v \<and> at_block (t_meta t) True b (v_block v)) (t_rows t)"

section \<open>Writing a group\<close>

text \<open>
  \<open>ClampRangeQuery\<close>: the update fails if one of the rows it touches starts after the block.
  \<open>wrap\<close> is what the caller turns an error of the database into.
\<close>

fun version_lower :: "block_value \<Rightarrow> int option" where
  "version_lower (RangeCol r) = range_lower r"
| "version_lower (BlockCol n) = None"

definition clamp_hits :: "Id list \<Rightarrow> 'e version \<Rightarrow> bool" where
  "clamp_hits ids v \<longleftrightarrow> v_id v \<in> set ids \<and> br_latest (v_block v)"

definition clamp_version :: "Id list \<Rightarrow> block_number \<Rightarrow> 'e version \<Rightarrow> ('e version, diesel_error) outcome" where
  "clamp_version ids b v =
     (if clamp_hits ids v
      then (case version_lower (v_block v) of
              Some lo \<Rightarrow> map_ok (\<lambda>r. v\<lparr>v_block := RangeCol r\<rparr>) (mk_range lo (Some b))
            | None \<Rightarrow> Panic ''immutable entities can not be updated or deleted'')
      else Ok v)"

fun try_map :: "('a \<Rightarrow> ('b, 'err) outcome) \<Rightarrow> 'a list \<Rightarrow> ('b list, 'err) outcome" where
  "try_map f [] = Ok []"
| "try_map f (x # xs) = and_then (f x) (\<lambda>y. map_ok (\<lambda>ys. y # ys) (try_map f xs))"

definition clamp_range_query ::
  "(diesel_error \<Rightarrow> store_error) \<Rightarrow> table_meta \<Rightarrow> Id list \<Rightarrow> block_number \<Rightarrow> 'e version list \<Rightarrow>
     ('e version list, store_error) outcome" where
  "clamp_range_query wrap meta ids b rows =
     (if tm_immutable meta then Err (InternalError ''immutable entities can not be deleted or updated'')
      else map_err wrap (try_map (clamp_version ids b) rows))"

text \<open>\<open>slice::chunks\<close> with \<open>DELETE_OPERATION_CHUNK_SIZE\<close>\<close>

definition DELETE_OPERATION_CHUNK_SIZE :: nat where
  "DELETE_OPERATION_CHUNK_SIZE = 1000"

function chunks :: "nat \<Rightarrow> 'a list \<Rightarrow> 'a list list" where
  "chunks n xs = (if xs = [] \<or> n = 0 then [] else take n xs # chunks n (drop n xs))"
  by pat_completeness auto
termination
  by (relation "measure (\<lambda>(n, xs). length xs)") auto

declare chunks.simps [simp del]

definition id_list_checked :: "table_meta \<Rightarrow> Id list \<Rightarrow> (Id list, store_error) outcome" where
  "id_list_checked meta ids =
     map_ok as_ids (map_err InternalError (try_from_iter (tm_id_type meta) ids))"

text \<open>\<open>Layout::delete\<close> on the table of the group: clamp the versions that the modifications of the group end.\<close>

definition delete_group :: "table_meta \<Rightarrow> 'e row_group \<Rightarrow> 'e version list \<Rightarrow> ('e version list, store_error) outcome" where
  "delete_group meta g rows =
     (if \<not> has_clamps g then Ok rows
      else if tm_immutable meta
      then (if tm_skip_duplicates meta then Ok rows
            else Err (InternalError ''entities can not be deleted since they are immutable''))
      else try_fold (\<lambda>rows (b, run).
             try_fold (\<lambda>rows ids.
               and_then (id_list_checked meta ids) (\<lambda>ids. clamp_range_query (write_failure (tm_object meta) b ''clamp'') meta ids b rows))
               rows (chunks DELETE_OPERATION_CHUNK_SIZE (map em_id run)))
             rows (clamps_by_block (rg_rows g)))"

text \<open>
  \<open>BlockRangeValue::new\<close> and the insertion of one row. A mutable table has no constraint on the
  ids here; an immutable one has a unique constraint, and skips conflicting rows if it has the
  flag for that.
\<close>

definition block_range_value :: "table_meta \<Rightarrow> block_number \<Rightarrow> block_number option \<Rightarrow> (block_value, diesel_error) outcome" where
  "block_range_value meta b e =
     (if tm_immutable meta then Ok (BlockCol b) else map_ok RangeCol (mk_range b e))"

definition insert_write :: "table_meta \<Rightarrow> 'e version list \<Rightarrow> 'e entity_write \<Rightarrow> ('e version list, diesel_error) outcome" where
  "insert_write meta rows w =
     and_then (block_range_value meta (ew_block w) (ew_end w)) (\<lambda>bv.
       if tm_immutable meta \<and> (\<exists>v \<in> set rows. v_id v = ew_id w)
       then (if tm_skip_duplicates meta then Ok rows
             else Err unique_violation)
       else Ok (rows @ [\<lparr>v_id = ew_id w,
                         v_region = (if tm_has_causality_region meta then ew_causality_region w else ONCHAIN),
                         v_block = bv, v_data = ew_entity w\<rparr>]))"

text \<open>
  \<open>InsertQuery\<close> for the writes of a chunk; \<open>prep\<close> is the check of the entity data against the
  columns of the table and its conversion to bind variables (\<open>InsertQuery::new\<close>).
\<close>

definition insert_query ::
  "(diesel_error \<Rightarrow> store_error) \<Rightarrow> (Id \<Rightarrow> 'e \<Rightarrow> (unit, store_error) outcome) \<Rightarrow> table_meta \<Rightarrow> 'e entity_write list \<Rightarrow>
     'e version list \<Rightarrow> ('e version list, store_error) outcome" where
  "insert_query wrap prep meta ws rows =
     and_then (try_fold (\<lambda>_ w. prep (ew_id w) (ew_entity w)) () ws)
       (\<lambda>_. map_err wrap (try_fold (insert_write meta) rows ws))"

text \<open>\<open>InsertQuery::chunk_size\<close>; \<open>extra\<close> is \<open>ENV_VARS.store.insert_extra_cols\<close>.\<close>

definition POSTGRES_MAX_PARAMETERS :: nat where
  "POSTGRES_MAX_PARAMETERS = 32767"

definition bind_count :: "nat \<Rightarrow> table_meta \<Rightarrow> nat" where
  "bind_count extra meta =
     1 + extra + (if tm_has_causality_region meta then 1 else 0) + (if tm_has_vid_seq meta then 1 else 0) +
     sum_list (map (\<lambda>c. case c of Some n \<Rightarrow> n | None \<Rightarrow> 1) (tm_columns meta))"

definition insert_chunk_size :: "nat \<Rightarrow> table_meta \<Rightarrow> nat" where
  "insert_chunk_size extra meta = POSTGRES_MAX_PARAMETERS div bind_count extra meta"

text \<open>
  \<open>Layout::insert\<close> on the table of the group. \<open>too_large\<close> says for which chunks the database refuses
  the statement with the error \<open>value too large to transmit\<close>; these are inserted row by row. The
  result is \<open>None\<close> if the loop over the chunks does not end.
\<close>

definition chunk_failure :: "table_meta \<Rightarrow> 'e write_chunk \<Rightarrow> diesel_error \<Rightarrow> store_error" where
  "chunk_failure meta c =
     write_failure (tm_object meta) (case map ew_block (wc_iter c) of [] \<Rightarrow> 0 | b # bs \<Rightarrow> fold max bs b) ''insert''"

definition insert_chunk ::
  "(Id \<Rightarrow> 'e \<Rightarrow> (unit, store_error) outcome) \<Rightarrow> ('e write_chunk \<Rightarrow> bool) \<Rightarrow> table_meta \<Rightarrow> 'e version list \<Rightarrow>
     'e write_chunk \<Rightarrow> ('e version list, store_error) outcome" where
  "insert_chunk prep too_large meta rows c =
     (if wc_is_empty c then Ok rows
      else if \<not> too_large c then insert_query (chunk_failure meta c) prep meta (wc_iter c) rows
      else try_fold (\<lambda>rows single. insert_query (chunk_failure meta single) prep meta (wc_iter single) rows) rows (as_single_writes c))"

definition insert_group ::
  "(Id \<Rightarrow> 'e \<Rightarrow> (unit, store_error) outcome) \<Rightarrow> ('e write_chunk \<Rightarrow> bool) \<Rightarrow> nat \<Rightarrow> table_meta \<Rightarrow> 'e row_group \<Rightarrow>
     'e version list \<Rightarrow> ('e version list, store_error) outcome option" where
  "insert_group prep too_large extra meta g rows =
     map_option (try_fold (insert_chunk prep too_large meta) rows) (write_chunks g (insert_chunk_size extra meta))"

text \<open>\<open>Layout::update\<close> on the table of the group\<close>

definition update_rows ::
  "(Id \<Rightarrow> 'e \<Rightarrow> (unit, store_error) outcome) \<Rightarrow> nat \<Rightarrow> table_meta \<Rightarrow> 'e row_group \<Rightarrow> 'e version list \<Rightarrow>
     ('e version list, store_error) outcome option" where
  "update_rows prep extra meta g rows =
     (if tm_immutable meta \<and> has_clamps g
      then Some (if tm_skip_duplicates meta then Ok rows
                 else Err (InternalError ''entities can not be updated since they are immutable''))
      else
        (case try_fold (\<lambda>rows (b, run).
               and_then (id_list_checked meta (map em_id run)) (\<lambda>ids. clamp_range_query store_error_from_diesel meta ids b rows))
               rows (clamps_by_block (rg_rows g)) of
           Ok rows' \<Rightarrow>
             map_option (try_fold (\<lambda>rows c. insert_query store_error_from_diesel prep meta (wc_iter c) rows) rows')
               (write_chunks g (insert_chunk_size extra meta))
         | Err e \<Rightarrow> Some (Err e)
         | Panic s \<Rightarrow> Some (Panic s)))"

section \<open>Reverting\<close>

text \<open>\<open>RevertRemoveQuery\<close>: the ids of the deleted rows and the rows that remain.\<close>

definition revert_remove_query :: "block_number \<Rightarrow> 'e version list \<Rightarrow> Id list \<times> 'e version list" where
  "revert_remove_query b rows =
     (map v_id (filter (\<lambda>v. br_changed_since b (v_block v)) rows),
      filter (\<lambda>v. \<not> br_changed_since b (v_block v)) rows)"

text \<open>\<open>RevertClampQuery\<close>: the ids of the rows that are open again and the new rows.\<close>

definition unclamp_hits :: "block_number \<Rightarrow> 'e version \<Rightarrow> bool" where
  "unclamp_hits b v \<longleftrightarrow>
     (case v_block v of
        RangeCol r \<Rightarrow> range_contains r b \<and> \<not> range_contains r BLOCK_NUMBER_MAX \<and> lower_le r b \<and>
                     b < coalesce_upper r \<and> coalesce_upper r < BLOCK_NUMBER_MAX
      | BlockCol _ \<Rightarrow> False)"

definition unclamp_version :: "block_number \<Rightarrow> 'e version \<Rightarrow> 'e version" where
  "unclamp_version b v =
     (if unclamp_hits b v
      then (case version_lower (v_block v) of Some lo \<Rightarrow> v\<lparr>v_block := RangeCol (Range lo None)\<rparr> | None \<Rightarrow> v)
      else v)"

definition revert_clamp_query ::
  "table_meta \<Rightarrow> block_number \<Rightarrow> 'e version list \<Rightarrow> (Id list \<times> 'e version list, store_error) outcome" where
  "revert_clamp_query meta b rows =
     (if tm_immutable meta then Err (InternalError ''can not revert clamping in immutable table'')
      else Ok (map v_id (filter (unclamp_hits b) rows), map (unclamp_version b) rows))"

text \<open>The body of the loop of \<open>Layout::revert_block\<close>: the new rows and the change of the entity count.\<close>

definition table_revert :: "block_number \<Rightarrow> 'e table \<Rightarrow> ('e table \<times> int, store_error) outcome" where
  "table_revert b t =
     (let (removed, rows) = revert_remove_query b (t_rows t) in
      map_ok (\<lambda>(unclamped, rows').
          (t\<lparr>t_rows := rows'\<rparr>, int (card (set unclamped - set removed)) - int (card (set removed - set unclamped))))
        (if tm_immutable (t_meta t) then Ok ([], rows) else revert_clamp_query (t_meta t) (b - 1) rows))"

end
