(* ===== verification/Row_Laws.thy ===== *)
theory Row_Laws
  imports Row_Store
begin

text \<open>
  What the statements of \<open>Row_Store\<close> do to the row versions of a mutable table. The reference is
  \<open>apply_row\<close>: one modification after the other closes the open version of its id and adds its own
  version. Writing a group (all clamps first, grouped by block and split into chunks, then
  all insertions) has the same effect, appending a modification to a group has the effect of applying
  it later, and a lookup in the result is a lookup in the group, or in the table if the group
  does not have the key.
\<close>

section \<open>Clamping\<close>

lemma chunks_concat: "0 < n \<Longrightarrow> concat (chunks n xs) = xs"
proof (induction n xs rule: chunks.induct)
  case (1 n xs)
  then show ?case by (subst chunks.simps) auto
qed

lemma try_map_Ok: "try_map f xs = Ok ys \<longleftrightarrow> list_all2 (\<lambda>x y. f x = Ok y) xs ys"
  by (induction xs arbitrary: ys) (auto simp: outcome_simps list_all2_Cons1)

fun closed_at :: "int4range \<Rightarrow> block_number \<Rightarrow> int4range" where
  "closed_at EmptyRange b = EmptyRange"
| "closed_at (Range lo hi) b = (if lo < b then Range lo (Some b) else EmptyRange)"

definition v_open :: "'e version \<Rightarrow> bool" where
  "v_open v \<longleftrightarrow> (case v_block v of RangeCol r \<Rightarrow> range_contains r BLOCK_NUMBER_MAX | BlockCol _ \<Rightarrow> False)"

definition close_version :: "block_number \<Rightarrow> 'e version \<Rightarrow> 'e version" where
  "close_version b v = (case v_block v of RangeCol r \<Rightarrow> v\<lparr>v_block := RangeCol (closed_at r b)\<rparr> | BlockCol _ \<Rightarrow> v)"

text \<open>Close the open versions of the ids at the blocks that \<open>f\<close> gives.\<close>

definition close_at :: "(Id \<Rightarrow> block_number option) \<Rightarrow> 'e version \<Rightarrow> 'e version" where
  "close_at f v = (case f (v_id v) of Some b \<Rightarrow> if v_open v then close_version b v else v | None \<Rightarrow> v)"

text \<open>The statement that does so does not fail if no such version starts after its block.\<close>

definition version_fits :: "(Id \<Rightarrow> block_number option) \<Rightarrow> 'e version \<Rightarrow> bool" where
  "version_fits f v \<longleftrightarrow>
     (case f (v_id v) of
        Some b \<Rightarrow> v_open v \<longrightarrow> (case version_lower (v_block v) of Some lo \<Rightarrow> lo \<le> b | None \<Rightarrow> True)
      | None \<Rightarrow> True)"

definition clamp_fits :: "(Id \<Rightarrow> block_number option) \<Rightarrow> 'e version list \<Rightarrow> bool" where
  "clamp_fits f rows \<longleftrightarrow> (\<forall>v \<in> set rows. version_fits f v)"

text \<open>The rows of a mutable table\<close>

definition range_rows :: "'e version list \<Rightarrow> bool" where
  "range_rows rows \<longleftrightarrow> (\<forall>v \<in> set rows. \<exists>r. v_block v = RangeCol r)"

lemma range_open_cases:
  assumes "v_open v"
  obtains lo hi where "v_block v = RangeCol (Range lo hi)"
  using assms by (cases "v_block v") (auto simp: v_open_def elim!: range_contains.elims)

lemma clamp_version_eq:
  assumes "\<exists>r. v_block v = RangeCol r"
  shows "clamp_version ids b v = Ok v' \<longleftrightarrow>
     clamp_fits (\<lambda>i. if i \<in> set ids then Some b else None) [v] \<and> v' = close_at (\<lambda>i. if i \<in> set ids then Some b else None) v"
proof -
  obtain r where r: "v_block v = RangeCol r" using assms by blast
  then have o: "br_latest (v_block v) = v_open v" by (simp add: v_open_def)
  show ?thesis
  proof (cases "v_id v \<in> set ids \<and> v_open v")
    case True
    then obtain lo hi where "v_block v = RangeCol (Range lo hi)" using range_open_cases by blast
    with True o show ?thesis
      by (auto simp: clamp_version_def clamp_hits_def clamp_fits_def version_fits_def close_at_def close_version_def mk_range_def outcome_simps)
  next
    case False
    with o show ?thesis by (auto simp: clamp_version_def clamp_hits_def clamp_fits_def version_fits_def close_at_def)
  qed
qed

lemma clamp_range_query_eq:
  assumes "\<not> tm_immutable meta" "range_rows rows"
  shows "clamp_range_query wrap meta ids b rows = Ok rows' \<longleftrightarrow>
     clamp_fits (\<lambda>i. if i \<in> set ids then Some b else None) rows \<and>
     rows' = map (close_at (\<lambda>i. if i \<in> set ids then Some b else None)) rows"
proof -
  let ?f = "\<lambda>i. if i \<in> set ids then Some b else None"
  have "list_all2 (\<lambda>v v'. clamp_version ids b v = Ok v') rows rows' \<longleftrightarrow>
      list_all2 (\<lambda>v v'. clamp_fits ?f [v] \<and> v' = close_at ?f v) rows rows'"
    by (rule list.rel_cong [OF refl refl], subst clamp_version_eq) (use assms(2) in \<open>auto simp: range_rows_def\<close>)
  also have "\<dots> \<longleftrightarrow> clamp_fits ?f rows \<and> rows' = map (close_at ?f) rows"
    by (induction rows arbitrary: rows') (auto simp: list_all2_Cons1 clamp_fits_def)
  finally show ?thesis using assms(1) by (simp add: clamp_range_query_def map_err_eq_Ok try_map_Ok)
qed

lemma close_version_id [simp]: "v_id (close_version b v) = v_id v" "v_data (close_version b v) = v_data v"
    "v_region (close_version b v) = v_region v"
  by (simp_all add: close_version_def split: block_value.split)

lemma close_at_id [simp]: "v_id (close_at f v) = v_id v" "v_data (close_at f v) = v_data v" "v_region (close_at f v) = v_region v"
  by (simp_all add: close_at_def split: option.split)

lemma range_rows_close: "range_rows rows \<Longrightarrow> range_rows (map (close_at f) rows)"
  by (auto simp: range_rows_def close_at_def close_version_def split: option.split)

lemma close_at_empty: "close_at (\<lambda>_. None) = (\<lambda>v. v)"
  by (simp add: close_at_def fun_eq_iff)

text \<open>Closing versions of disjoint sets of ids, one set after the other\<close>

lemma close_at_add:
  assumes "dom f \<inter> dom g = {}"
  shows "close_at g (close_at f v) = close_at (f ++ g) v"
  using assms by (cases "f (v_id v)"; cases "g (v_id v)") (auto simp: close_at_def map_add_def)

lemma clamp_fits_add:
  assumes "dom f \<inter> dom g = {}"
  shows "clamp_fits f rows \<and> clamp_fits g (map (close_at f) rows) \<longleftrightarrow> clamp_fits (f ++ g) rows"
proof -
  have "version_fits f v \<and> version_fits g (close_at f v) \<longleftrightarrow> version_fits (f ++ g) v" for v :: "'a version"
    using assms
    by (cases "f (v_id v)"; cases "g (v_id v)") (auto simp: version_fits_def close_at_def map_add_def dom_def)
  then show ?thesis by (auto simp: clamp_fits_def)
qed

definition step_map :: "(block_number \<times> Id list) list \<Rightarrow> Id \<Rightarrow> block_number option" where
  "step_map ss = map_of (concat (map (\<lambda>(b, ids). map (\<lambda>i. (i, b)) ids) ss))"

lemma step_map_Cons:
  "step_map ((b, ids) # ss) = step_map ss ++ (\<lambda>i. if i \<in> set ids then Some b else None)"
proof -
  have "map_of (map (\<lambda>i. (i, b)) ids) = (\<lambda>i. if i \<in> set ids then Some b else None)" by (induction ids) auto
  then show ?thesis by (simp add: step_map_def)
qed

lemma dom_step_map: "dom (step_map ss) = set (concat (map snd ss))"
proof (induction ss)
  case Nil
  then show ?case by (simp add: step_map_def)
next
  case (Cons s ss)
  then show ?case by (cases s) (auto simp: step_map_Cons dom_def split: if_splits)
qed

lemma clamp_steps:
  assumes "\<not> tm_immutable meta" "range_rows rows" "distinct (concat (map snd ss))"
  shows "try_fold (\<lambda>rows (b, ids). clamp_range_query (wrap b) meta ids b rows) rows ss = Ok rows' \<longleftrightarrow>
     clamp_fits (step_map ss) rows \<and> rows' = map (close_at (step_map ss)) rows"
  using assms(2,3)
proof (induction ss arbitrary: rows)
  case Nil
  show ?case by (auto simp: step_map_def clamp_fits_def version_fits_def close_at_empty)
next
  case (Cons s ss)
  obtain b ids where s: "s = (b, ids)" by (cases s)
  let ?f = "\<lambda>i. if i \<in> set ids then Some b else None"
  have "dom ?f = set ids" by (auto split: if_splits)
  then have d: "dom ?f \<inter> dom (step_map ss) = {}" unfolding dom_step_map using Cons.prems(2) s by auto
  have m: "step_map (s # ss) = ?f ++ step_map ss" using map_add_comm [OF d] by (simp add: step_map_Cons s)
  have "try_fold (\<lambda>rows (b, ids). clamp_range_query (wrap b) meta ids b rows) rows (s # ss) = Ok rows' \<longleftrightarrow>
      clamp_fits ?f rows \<and> clamp_fits (step_map ss) (map (close_at ?f) rows) \<and>
      rows' = map (close_at (step_map ss)) (map (close_at ?f) rows)"
    using Cons.IH [OF range_rows_close [OF Cons.prems(1)]] Cons.prems
    by (auto simp: s outcome_simps clamp_range_query_eq [OF assms(1) Cons.prems(1)])
  then show ?case
    unfolding m using clamp_fits_add [OF d, of rows] by (auto simp: close_at_add [OF d])
qed

definition clamp_map :: "'e entity_modification list \<Rightarrow> Id \<Rightarrow> block_number option" where
  "clamp_map rs = map_of (map (\<lambda>r. (em_id r, em_block r)) (filter is_clamp rs))"

definition typed_ids :: "table_meta \<Rightarrow> 'e entity_modification list \<Rightarrow> bool" where
  "typed_ids meta rs \<longleftrightarrow> (\<forall>r \<in> set rs. id_type_of (em_id r) = tm_id_type meta)"

lemma id_list_checked_ok:
  assumes "\<forall>i \<in> set ids. id_type_of i = tm_id_type meta"
  shows "id_list_checked meta ids = Ok ids"
proof -
  obtain l where "ids = as_ids l" "id_list_type l = tm_id_type meta" using as_ids_of_type [OF assms] by blast
  moreover from this have "try_from_iter (tm_id_type meta) ids = Ok l" by (simp add: try_from_iter_ok)
  ultimately show ?thesis by (simp add: id_list_checked_def)
qed

definition clamp_steps_of :: "'e entity_modification list \<Rightarrow> (block_number \<times> Id list) list" where
  "clamp_steps_of rs =
     concat (map (\<lambda>(b, run). map (Pair b) (chunks DELETE_OPERATION_CHUNK_SIZE (map em_id run))) (clamps_by_block rs))"

lemma clamp_steps_of_ids: "concat (map snd (clamp_steps_of rs)) = map em_id (filter is_clamp rs)"
proof -
  have "concat (map snd (concat (map (\<lambda>(b, run). map (Pair b) (chunks DELETE_OPERATION_CHUNK_SIZE (map em_id run))) cs))) =
      map em_id (concat (map snd cs))" for cs :: "(block_number \<times> 'a entity_modification list) list"
    by (induction cs) (auto simp: chunks_concat comp_def DELETE_OPERATION_CHUNK_SIZE_def)
  then show ?thesis by (simp add: clamp_steps_of_def clamps_by_block_concat)
qed

lemma clamp_steps_of_map: "step_map (clamp_steps_of rs) = clamp_map rs"
proof -
  have *: "concat (map (\<lambda>(b, ids). map (\<lambda>i. (i, b)) ids)
        (concat (map (\<lambda>(b, run). map (Pair b) (chunks DELETE_OPERATION_CHUNK_SIZE (map em_id run))) cs))) =
      map (\<lambda>r. (em_id r, em_block r)) (concat (map snd cs))"
    if "\<forall>(b, run) \<in> set cs. \<forall>r \<in> set run. em_block r = b" for cs :: "(block_number \<times> 'a entity_modification list) list"
    using that
  proof (induction cs)
    case (Cons c cs)
    obtain b run where c: "c = (b, run)" by (cases c)
    have "concat (map (map (\<lambda>i. (i, b))) (chunks DELETE_OPERATION_CHUNK_SIZE (map em_id run))) = map (\<lambda>i. (i, b)) (map em_id run)"
      by (subst (2) chunks_concat [of DELETE_OPERATION_CHUNK_SIZE "map em_id run", symmetric])
         (simp_all add: map_concat DELETE_OPERATION_CHUNK_SIZE_def)
    moreover have "map (\<lambda>i. (i, b)) (map em_id run) = map (\<lambda>r. (em_id r, em_block r)) run"
      using Cons.prems c by simp
    ultimately show ?case using Cons c by (simp add: comp_def)
  qed simp
  show ?thesis
    unfolding step_map_def clamp_steps_of_def clamp_map_def clamps_by_block_concat [symmetric]
    by (subst *) (auto dest: clamps_by_block_runs)
qed

lemma clamps_by_block_Nil: "\<not> has_clamps g \<Longrightarrow> clamps_by_block (rg_rows g) = []"
  using clamps_by_block_concat [of "rg_rows g"] clamps_by_block_runs [of _ _ "rg_rows g"]
  by (cases "clamps_by_block (rg_rows g)") (fastforce simp: has_clamps_def filter_empty_conv)+

lemma delete_group_eq:
  assumes mut: "\<not> tm_immutable meta" and rr: "range_rows rows" and ty: "typed_ids meta (rg_rows g)"
    and d: "distinct (map em_id (filter is_clamp (rg_rows g)))"
  shows "delete_group meta g rows = Ok rows' \<longleftrightarrow>
     clamp_fits (clamp_map (rg_rows g)) rows \<and> rows' = map (close_at (clamp_map (rg_rows g))) rows"
proof -
  let ?S = "clamp_steps_of (rg_rows g)"
  have "delete_group meta g rows = try_fold (\<lambda>rows (b, run).
             try_fold (\<lambda>rows ids.
               and_then (id_list_checked meta ids) (\<lambda>ids. clamp_range_query (write_failure (tm_object meta) b ''clamp'') meta ids b rows))
               rows (chunks DELETE_OPERATION_CHUNK_SIZE (map em_id run)))
             rows (clamps_by_block (rg_rows g))"
    using mut clamps_by_block_Nil [of g] by (simp add: delete_group_def)
  also have "\<dots> = try_fold (\<lambda>rows (b, ids). and_then (id_list_checked meta ids) (\<lambda>ids. clamp_range_query (write_failure (tm_object meta) b ''clamp'') meta ids b rows)) rows ?S"
    unfolding clamp_steps_of_def by (rule try_fold_nested)
  also have "\<dots> = try_fold (\<lambda>rows (b, ids). clamp_range_query (write_failure (tm_object meta) b ''clamp'') meta ids b rows) rows ?S"
  proof (rule try_fold_cong, clarsimp)
    fix s b ids assume "(b, ids) \<in> set ?S"
    then have "ids \<in> set (map snd ?S)" by force
    then have "set ids \<subseteq> set (concat (map snd ?S))" by auto
    then have "id_list_checked meta ids = Ok ids"
      using ty by (intro id_list_checked_ok) (auto simp: clamp_steps_of_ids typed_ids_def)
    then show "and_then (id_list_checked meta ids) (\<lambda>ids. clamp_range_query (write_failure (tm_object meta) b ''clamp'') meta ids b s) = clamp_range_query (write_failure (tm_object meta) b ''clamp'') meta ids b s" by simp
  qed
  also have "\<dots> = Ok rows' \<longleftrightarrow> clamp_fits (clamp_map (rg_rows g)) rows \<and> rows' = map (close_at (clamp_map (rg_rows g))) rows"
    using clamp_steps [OF mut rr, of ?S "\<lambda>b. write_failure (tm_object meta) b ''clamp''" rows'] d by (simp add: clamp_steps_of_ids clamp_steps_of_map)
  finally show ?thesis .
qed

section \<open>Inserting\<close>

definition new_version :: "table_meta \<Rightarrow> 'e entity_write \<Rightarrow> 'e version" where
  "new_version meta w =
     \<lparr>v_id = ew_id w,
      v_region = (if tm_has_causality_region meta then ew_causality_region w else ONCHAIN),
      v_block = (if tm_immutable meta then BlockCol (ew_block w)
                 else RangeCol (case ew_end w of
                        None \<Rightarrow> Range (ew_block w) None
                      | Some e \<Rightarrow> if e = ew_block w then EmptyRange else Range (ew_block w) (Some e))),
      v_data = ew_entity w\<rparr>"

definition write_ok :: "table_meta \<Rightarrow> 'e entity_write \<Rightarrow> bool" where
  "write_ok meta w \<longleftrightarrow> tm_immutable meta \<or> (case ew_end w of None \<Rightarrow> True | Some e \<Rightarrow> ew_block w \<le> e)"

text \<open>For an immutable table without \<open>skip_duplicates\<close>, the new ids must be new and different.\<close>

definition ids_ok :: "table_meta \<Rightarrow> 'e version list \<Rightarrow> 'e entity_write list \<Rightarrow> bool" where
  "ids_ok meta rows ws \<longleftrightarrow>
     (tm_immutable meta \<longrightarrow> distinct (map ew_id ws) \<and> set (map v_id rows) \<inter> set (map ew_id ws) = {})"

lemma bex_v_id: "(\<exists>v \<in> set rows. v_id v = i) \<longleftrightarrow> i \<in> v_id ` set rows"
  by auto

lemma insert_writes_eq:
  assumes "\<not> (tm_immutable meta \<and> tm_skip_duplicates meta)"
  shows "try_fold (insert_write meta) rows ws = Ok rows' \<longleftrightarrow>
     ids_ok meta rows ws \<and> (\<forall>w \<in> set ws. write_ok meta w) \<and> rows' = rows @ map (new_version meta) ws"
proof (induction ws arbitrary: rows)
  case Nil
  then show ?case by (auto simp: ids_ok_def)
next
  case (Cons w ws)
  have "insert_write meta rows w = Ok rows1 \<longleftrightarrow>
      ids_ok meta rows [w] \<and> write_ok meta w \<and> rows1 = rows @ [new_version meta w]" for rows1
    using assms
    by (auto simp: insert_write_def block_range_value_def mk_range_def outcome_simps ids_ok_def write_ok_def new_version_def bex_v_id
          split: option.splits if_splits)
  moreover have "ids_ok meta rows [w] \<and> ids_ok meta (rows @ [new_version meta w]) ws \<longleftrightarrow> ids_ok meta rows (w # ws)"
    by (auto simp: ids_ok_def new_version_def)
  ultimately show ?case using Cons by (auto simp: outcome_simps)
qed

lemma try_fold_check: "try_fold (\<lambda>_ w. f w) () ws = Ok () \<longleftrightarrow> (\<forall>w \<in> set ws. f w = Ok ())"
  by (induction ws) (auto simp: outcome_simps)

lemma insert_group_eq:
  assumes skip: "\<not> (tm_immutable meta \<and> tm_skip_duplicates meta)" and size: "0 < insert_chunk_size extra meta"
    and small: "\<forall>c. \<not> too_large c"
  shows "insert_group prep too_large extra meta g rows = Some (Ok rows') \<longleftrightarrow>
     (\<forall>w \<in> set (all_writes (rg_rows g)). prep (ew_id w) (ew_entity w) = Ok () \<and> write_ok meta w) \<and>
     ids_ok meta rows (all_writes (rg_rows g)) \<and> rows' = rows @ map (new_version meta) (all_writes (rg_rows g))"
proof -
  obtain cs where cs: "write_chunks g (insert_chunk_size extra meta) = Some cs" "concat (map wc_iter cs) = all_writes (rg_rows g)"
    using write_chunks_from_cover [OF size, of "rg_rows g" 0] by (auto simp: write_chunks_def)
  have one: "insert_chunk prep too_large meta rows c = Ok rows' \<longleftrightarrow>
      (\<forall>w \<in> set (wc_iter c). prep (ew_id w) (ew_entity w) = Ok () \<and> write_ok meta w) \<and> ids_ok meta rows (wc_iter c) \<and>
      rows' = rows @ map (new_version meta) (wc_iter c)" for rows rows' c
  proof (cases "wc_iter c = []")
    case True
    then show ?thesis by (auto simp: insert_chunk_def wc_is_empty_def ids_ok_def)
  next
    case False
    have "and_then (try_fold (\<lambda>_ w. prep (ew_id w) (ew_entity w)) () ws) (\<lambda>_. k) = Ok y \<longleftrightarrow>
        (\<forall>w \<in> set ws. prep (ew_id w) (ew_entity w) = Ok ()) \<and> k = Ok y" for ws :: "'a entity_write list" and k :: "('a version list, store_error) outcome" and y
      by (auto simp: and_then_eq_Ok try_fold_check [symmetric])
    with False small insert_writes_eq [OF skip] show ?thesis
      by (auto simp: insert_chunk_def insert_query_def wc_is_empty_def map_err_eq_Ok)
  qed
  have "try_fold (insert_chunk prep too_large meta) rows cs = Ok rows' \<longleftrightarrow>
     (\<forall>w \<in> set (concat (map wc_iter cs)). prep (ew_id w) (ew_entity w) = Ok () \<and> write_ok meta w) \<and>
     ids_ok meta rows (concat (map wc_iter cs)) \<and> rows' = rows @ map (new_version meta) (concat (map wc_iter cs))" for rows
  proof (induction cs arbitrary: rows)
    case Nil
    then show ?case by (auto simp: ids_ok_def)
  next
    case (Cons c cs)
    have "ids_ok meta rows (wc_iter c) \<and> ids_ok meta (rows @ map (new_version meta) (wc_iter c)) ws \<longleftrightarrow>
        ids_ok meta rows (wc_iter c @ ws)" for ws
      by (auto simp: ids_ok_def new_version_def comp_def)
    with Cons show ?case by (auto simp: outcome_simps one)
  qed
  with cs show ?thesis by (simp add: insert_group_def)
qed

section \<open>One modification after the other\<close>

definition row_versions :: "table_meta \<Rightarrow> 'e entity_modification \<Rightarrow> 'e version list" where
  "row_versions meta r = (case as_write r of Some w \<Rightarrow> [new_version meta w] | None \<Rightarrow> [])"

text \<open>Close the open versions of one id.\<close>

definition close_one :: "Id \<Rightarrow> block_number \<Rightarrow> 'e version \<Rightarrow> 'e version" where
  "close_one i b v = (if v_id v = i \<and> v_open v then close_version b v else v)"

definition close_id :: "Id \<Rightarrow> block_number \<Rightarrow> 'e version list \<Rightarrow> 'e version list" where
  "close_id i b rows = map (close_one i b) rows"

definition apply_row :: "table_meta \<Rightarrow> 'e entity_modification \<Rightarrow> 'e version list \<Rightarrow> 'e version list" where
  "apply_row meta r rows =
     (if is_clamp r then close_id (em_id r) (em_block r) rows else rows) @ row_versions meta r"

abbreviation apply_rows :: "table_meta \<Rightarrow> 'e entity_modification list \<Rightarrow> 'e version list \<Rightarrow> 'e version list" where
  "apply_rows meta \<equiv> fold (apply_row meta)"

lemma map_all_writes: "map (new_version meta) (all_writes rs) = concat (map (row_versions meta) rs)"
  by (induction rs) (auto simp: map_filter_simps row_versions_def split: option.split)

lemma row_versions_id: "v \<in> set (row_versions meta r) \<Longrightarrow> v_id v = em_id r"
  by (cases r) (auto simp: row_versions_def new_version_def em_id_def)

lemma close_one_id [simp]: "v_id (close_one i b v) = v_id v"
  by (simp add: close_one_def)

lemma close_one_other: "v_id v \<noteq> i \<Longrightarrow> close_one i b v = v"
  by (simp add: close_one_def)

lemma close_id_append [simp]: "close_id i b (xs @ ys) = close_id i b xs @ close_id i b ys"
  by (simp add: close_id_def)

lemma close_id_other: "\<forall>v \<in> set rows. v_id v \<noteq> i \<Longrightarrow> close_id i b rows = rows"
  unfolding close_id_def by (rule map_idI) (simp add: close_one_other)

lemma close_id_versions: "em_id r \<noteq> i \<Longrightarrow> close_id i b (row_versions meta r) = row_versions meta r"
  by (rule close_id_other) (auto dest: row_versions_id)

lemma close_id_close_at:
  assumes "f i = None"
  shows "close_id i b (map (close_at f) rows) = map (close_at (f(i \<mapsto> b))) rows"
  using assms by (auto simp: close_id_def close_at_def close_one_def split: option.splits)

lemma row_chains_snoc_clamp: "row_chains (rs @ [r]) \<Longrightarrow> is_clamp r \<Longrightarrow> em_id r \<notin> em_id ` set rs"
  by (fastforce simp: row_chains_snoc follows_def filter_empty_conv)

lemma apply_rows_eq:
  assumes "row_chains rs"
  shows "apply_rows meta rs rows = map (close_at (clamp_map rs)) rows @ concat (map (row_versions meta) rs)"
  using assms
proof (induction rs rule: rev_induct)
  case Nil
  then show ?case by (simp add: clamp_map_def close_at_empty)
next
  case (snoc r rs)
  have "row_chains rs" using snoc.prems by (simp add: row_chains_snoc)
  note IH = snoc.IH [OF this]
  show ?case
  proof (cases "is_clamp r")
    case False
    then show ?thesis using IH by (simp add: apply_row_def clamp_map_def)
  next
    case True
    then have n: "em_id r \<notin> em_id ` set rs" using snoc.prems by (simp add: row_chains_snoc_clamp)
    then have d: "clamp_map rs (em_id r) = None" by (auto simp: clamp_map_def map_of_eq_None_iff)
    have "close_id (em_id r) (em_block r) (concat (map (row_versions meta) rs)) = concat (map (row_versions meta) rs)"
      using n by (intro close_id_other) (auto dest!: row_versions_id)
    moreover have "clamp_map (rs @ [r]) = (clamp_map rs)(em_id r \<mapsto> em_block r)"
      using True d by (auto simp: clamp_map_def map_add_def fun_eq_iff split: option.split)
    ultimately show ?thesis
      using True close_id_close_at [of "clamp_map rs" "em_id r" "em_block r" rows, OF d]
      by (simp add: IH apply_row_def [of meta r] del: fun_upd_apply)
  qed
qed

lemma row_chains_distinct_clamps: "row_chains rs \<Longrightarrow> distinct (map em_id (filter is_clamp rs))"
proof (induction rs rule: rev_induct)
  case (snoc r rs)
  then have "row_chains rs" by (simp add: row_chains_snoc)
  with snoc show ?case using row_chains_snoc_clamp [of rs r] by auto
qed simp

text \<open>Writing a group: \<open>Layout::delete\<close> and then \<open>Layout::insert\<close>\<close>

definition write_group ::
  "(Id \<Rightarrow> 'e \<Rightarrow> (unit, store_error) outcome) \<Rightarrow> ('e write_chunk \<Rightarrow> bool) \<Rightarrow> nat \<Rightarrow> table_meta \<Rightarrow> 'e row_group \<Rightarrow>
     'e version list \<Rightarrow> ('e version list, store_error) outcome option" where
  "write_group prep too_large extra meta g rows =
     (case delete_group meta g rows of
        Ok rows' \<Rightarrow> insert_group prep too_large extra meta g rows'
      | Err e \<Rightarrow> Some (Err e)
      | Panic s \<Rightarrow> Some (Panic s))"

lemma write_group_Ok:
  "write_group prep too_large extra meta g rows = Some (Ok rows') \<longleftrightarrow>
     (\<exists>rows1. delete_group meta g rows = Ok rows1 \<and> insert_group prep too_large extra meta g rows1 = Some (Ok rows'))"
  by (simp add: write_group_def split: outcome.split)

definition preps_ok :: "(Id \<Rightarrow> 'e \<Rightarrow> (unit, store_error) outcome) \<Rightarrow> 'e entity_modification list \<Rightarrow> bool" where
  "preps_ok prep rs \<longleftrightarrow> (\<forall>w \<in> set (all_writes rs). prep (ew_id w) (ew_entity w) = Ok ())"

lemma write_group_mutable:
  assumes mut: "\<not> tm_immutable meta" and rr: "range_rows rows" and ty: "typed_ids meta (rg_rows g)"
    and ch: "row_chains (rg_rows g)" and ends: "\<forall>r \<in> set (rg_rows g). end_ok r"
    and size: "0 < insert_chunk_size extra meta" and small: "\<forall>c. \<not> too_large c"
  shows "write_group prep too_large extra meta g rows = Some (Ok rows') \<longleftrightarrow>
     clamp_fits (clamp_map (rg_rows g)) rows \<and> preps_ok prep (rg_rows g) \<and> rows' = apply_rows meta (rg_rows g) rows"
proof -
  have "write_ok meta w" if "w \<in> set (all_writes (rg_rows g))" for w
  proof -
    from that obtain r where "r \<in> set (rg_rows g)" "as_write r = Some w" by (auto simp: List.map_filter_def)
    with ends show ?thesis by (cases r) (auto simp: write_ok_def end_ok_def split: option.split)
  qed
  then have "insert_group prep too_large extra meta g rows1 = Some (Ok rows') \<longleftrightarrow>
      preps_ok prep (rg_rows g) \<and> rows' = rows1 @ map (new_version meta) (all_writes (rg_rows g))" for rows1
    using insert_group_eq [OF _ size, of too_large prep g rows1 rows'] small mut
    by (auto simp: preps_ok_def ids_ok_def)
  moreover have "delete_group meta g rows = Ok rows1 \<longleftrightarrow>
      clamp_fits (clamp_map (rg_rows g)) rows \<and> rows1 = map (close_at (clamp_map (rg_rows g))) rows" for rows1
    by (rule delete_group_eq [OF mut rr ty row_chains_distinct_clamps [OF ch]])
  ultimately show ?thesis
    by (auto simp: write_group_Ok apply_rows_eq [OF ch] map_all_writes)
qed

section \<open>Appending to a group\<close>

definition no_open :: "Id \<Rightarrow> 'e version list \<Rightarrow> bool" where
  "no_open i rows \<longleftrightarrow> (\<forall>v \<in> set rows. v_id v = i \<longrightarrow> \<not> v_open v)"

text \<open>Modifications are safe if each insertion finds no open version of its id.\<close>

fun safe_rows :: "table_meta \<Rightarrow> 'e entity_modification list \<Rightarrow> 'e version list \<Rightarrow> bool" where
  "safe_rows meta [] rows = True"
| "safe_rows meta (r # rs) rows =
     ((creates_entity r \<longrightarrow> no_open (em_id r) rows) \<and> safe_rows meta rs (apply_row meta r rows))"

lemma safe_rows_append:
  "safe_rows meta (rs @ qs) rows \<longleftrightarrow> safe_rows meta rs rows \<and> safe_rows meta qs (apply_rows meta rs rows)"
  by (induction rs arbitrary: rows) auto

lemma close_id_none: "no_open i rows \<Longrightarrow> close_id i b rows = rows"
  unfolding close_id_def by (rule map_idI) (auto simp: no_open_def close_one_def)

lemma closed_not_open: "b \<le> BLOCK_NUMBER_MAX \<Longrightarrow> \<not> range_contains (closed_at r b) BLOCK_NUMBER_MAX"
  by (cases r) auto

lemma no_open_close_id: "b \<le> BLOCK_NUMBER_MAX \<Longrightarrow> no_open i (close_id i b rows)"
  using closed_not_open [of b]
  by (auto simp: no_open_def close_id_def close_one_def close_version_def v_open_def split: block_value.splits)

lemma no_open_close_other: "i \<noteq> j \<Longrightarrow> no_open j (close_id i b rows) = no_open j rows"
  by (auto simp: no_open_def close_id_def close_one_def)

lemma close_id_apply_row:
  assumes "em_id r \<noteq> i"
  shows "close_id i b (apply_row meta r rows) = apply_row meta r (close_id i b rows)"
proof -
  have "close_id i b (close_id (em_id r) c rows) = close_id (em_id r) c (close_id i b rows)" for c
    using assms by (auto simp: close_id_def close_one_def)
  then show ?thesis using close_id_versions [OF assms] by (simp add: apply_row_def)
qed

lemma close_id_apply_rows:
  "i \<notin> em_id ` set rs \<Longrightarrow> close_id i b (apply_rows meta rs rows) = apply_rows meta rs (close_id i b rows)"
  by (induction rs arbitrary: rows) (auto simp: close_id_apply_row)

lemma no_open_append: "no_open i (xs @ ys) \<longleftrightarrow> no_open i xs \<and> no_open i ys"
  by (auto simp: no_open_def)

lemma no_open_apply_row: "em_id r \<noteq> i \<Longrightarrow> no_open i (apply_row meta r rows) = no_open i rows"
  using row_versions_id [of _ meta r]
  by (auto simp: apply_row_def no_open_append no_open_close_other no_open_def [of i "row_versions meta r"])

lemma no_open_apply_rows: "i \<notin> em_id ` set rs \<Longrightarrow> no_open i (apply_rows meta rs rows) = no_open i rows"
  by (induction rs arbitrary: rows) (auto simp: no_open_apply_row)

text \<open>Whether modifications of other ids are safe does not depend on the versions of an id.\<close>

lemma safe_rows_close: "i \<notin> em_id ` set rs \<Longrightarrow> safe_rows meta rs (close_id i b rows) = safe_rows meta rs rows"
proof (induction rs arbitrary: rows)
  case (Cons r rs)
  then have "no_open (em_id r) (close_id i b rows) = no_open (em_id r) rows" by (simp add: no_open_close_other)
  moreover have "safe_rows meta rs (apply_row meta r (close_id i b rows)) = safe_rows meta rs (apply_row meta r rows)"
    using Cons close_id_apply_row [of r i b meta rows] by (metis image_insert insert_iff list.simps(15))
  ultimately show ?case by simp
qed simp

text \<open>Closing the version that a row adds is the same as adding the closed version.\<close>

lemma close_id_open_row:
  assumes "is_open p" "em_clamp p b = Ok p'" "em_block p < b" "\<not> tm_immutable meta"
    "em_block p \<le> BLOCK_NUMBER_MAX" "creates_entity p \<longrightarrow> no_open (em_id p) rows"
  shows "close_id (em_id p) b (apply_row meta p rows) = apply_row meta p' rows"
proof -
  have rows: "close_id (em_id p) b (if is_clamp p then close_id (em_id p) (em_block p) rows else rows) =
      (if is_clamp p then close_id (em_id p) (em_block p) rows else rows)"
    using assms(1,5,6) no_open_close_id [OF assms(5)] by (cases p) (auto intro!: close_id_none)
  have "close_id (em_id p) b (row_versions meta p) = row_versions meta p'"
    using assms(1-5)
    by (cases p) (auto simp: row_versions_def new_version_def close_id_def close_one_def em_id_def v_open_def close_version_def)
  moreover have "is_clamp p' = is_clamp p" "em_id p' = em_id p" "em_block p' = em_block p"
    using em_clamp_ok [OF assms(2)] by auto
  ultimately show ?thesis using rows by (simp add: apply_row_def)
qed

lemma em_clamp_creates: "em_clamp m b = Ok m' \<Longrightarrow> creates_entity m' = creates_entity m"
  by (cases "(m, b)" rule: em_clamp.cases) auto

text \<open>
  A modification that is appended to a group has the effect of applying it after the group.
\<close>

lemma append_row_effect:
  assumes ok: "append_row fl memo g row = (g', Ok ())" and imm: "\<not> tf_is_immutable fl (rg_entity_type g)"
    and inv: "rg_inv memo n g" and mut: "\<not> tm_immutable meta"
    and row: "is_open row \<or> is_remove row" "n \<le> em_block row" "em_block row \<le> BLOCK_NUMBER_MAX"
    and safe: "safe_rows meta (rg_rows g) rows" "safe_rows meta [row] (apply_rows meta (rg_rows g) rows)"
  shows "apply_rows meta (rg_rows g') rows = apply_row meta row (apply_rows meta (rg_rows g) rows) \<and>
         safe_rows meta (rg_rows g') rows"
proof -
  have lm: "last_mod_ok memo g" and bd: "\<And>r. r \<in> set (rg_rows g) \<Longrightarrow> em_block r \<le> BLOCK_NUMBER_MAX"
    using inv row(2,3) by (auto simp: rg_inv_def)
  have close: "close_id (em_id p) b (apply_rows meta (xs @ p # ys) rows) = apply_rows meta (xs @ p' # ys) rows \<and>
      safe_rows meta (xs @ p' # ys) rows \<and> no_open (em_id p) (apply_rows meta (xs @ p' # ys) rows)"
    if g: "rg_rows g = xs @ p # ys" and "em_id p \<notin> em_id ` set ys" "is_open p" "em_clamp p b = Ok p'"
      "em_block p < b" "b \<le> BLOCK_NUMBER_MAX" for xs p ys p' b
  proof -
    let ?X = "apply_rows meta xs rows"
    have s: "safe_rows meta xs rows" "creates_entity p \<longrightarrow> no_open (em_id p) ?X" "safe_rows meta ys (apply_row meta p ?X)"
      using safe(1) by (simp_all add: g safe_rows_append)
    have p': "apply_row meta p' ?X = close_id (em_id p) b (apply_row meta p ?X)"
      using close_id_open_row [of p b p' meta ?X] that mut s(2) bd [of p] by (simp add: g)
    moreover have "creates_entity p' = creates_entity p" "em_id p' = em_id p"
      using em_clamp_creates [OF that(4)] em_clamp_ok [OF that(4)] by simp_all
    ultimately show ?thesis
      using s that(2,6) by (simp add: safe_rows_append close_id_apply_rows safe_rows_close no_open_apply_rows no_open_close_id)
  qed
  from ok imm lm show ?thesis
  proof (cases rule: append_row_cases)
    case (overwrite xs p ys p' k d b e)
    then have "apply_row meta (Insert k d b e) (close_id (em_id p) b (apply_rows meta (rg_rows g) rows)) =
        apply_row meta row (apply_rows meta (rg_rows g) rows)"
      by (simp add: apply_row_def row_versions_def em_id_def)
    then show ?thesis
      using close [of xs p ys b p'] overwrite row(3) by (auto simp: safe_rows_append em_id_def)
  next
    case (remove xs p ys p' k b)
    then show ?thesis
      using close [of xs p ys b p'] row(3) by (simp add: apply_row_def row_versions_def em_id_def)
  next
    case (removed xs p ys)
    have "no_open (em_id p) (apply_rows meta (rg_rows g) rows)"
      using removed(1-3,6) bd [of p]
      by (cases p) (auto simp: no_open_apply_rows apply_row_def row_versions_def no_open_close_id em_id_def)
    then have "apply_row meta row (apply_rows meta (rg_rows g) rows) = apply_rows meta (rg_rows g) rows"
      using removed(2,5) by (cases row) (auto simp: apply_row_def row_versions_def close_id_none)
    with removed(7) safe(1) show ?thesis by simp
  qed (use safe in \<open>simp_all add: safe_rows_append\<close>)
qed

lemma append_rows_effect:
  assumes "mut_fold (append_row fl memo) g qs = (g', Ok ())" "\<not> tf_is_immutable fl (rg_entity_type g)"
    "rg_inv memo n g" "\<not> tm_immutable meta" "\<forall>q \<in> set qs. fresh_mod b q" "n \<le> b" "b \<le> BLOCK_NUMBER_MAX"
    "safe_rows meta (rg_rows g) rows" "safe_rows meta qs (apply_rows meta (rg_rows g) rows)"
  shows "apply_rows meta (rg_rows g') rows = apply_rows meta qs (apply_rows meta (rg_rows g) rows) \<and>
         safe_rows meta (rg_rows g') rows"
  using assms
proof (induction qs arbitrary: g n)
  case Nil
  then show ?case by simp
next
  case (Cons q qs)
  obtain h r where h: "append_row fl memo g q = (h, r)" by fastforce
  with Cons.prems(1) have r: "r = Ok ()" and g': "mut_fold (append_row fl memo) h qs = (g', Ok ())"
    by (auto split: outcome.splits)
  have q: "is_open q \<or> is_remove q" "em_block q = b" using Cons.prems(5) by (simp_all add: fresh_mod_def)
  have e: "apply_rows meta (rg_rows h) rows = apply_row meta q (apply_rows meta (rg_rows g) rows)" "safe_rows meta (rg_rows h) rows"
    using append_row_effect [of fl memo g q h n meta rows] h r q Cons.prems by simp_all
  have "rg_inv memo b h"
    using append_row_inv [of memo n g fl q h] h r q Cons.prems by simp
  moreover have "rg_entity_type h = rg_entity_type g" using h by (rule append_row_type)
  ultimately show ?case
    using Cons.IH [OF g', of b] Cons.prems e by simp
qed

section \<open>Lookups after writing\<close>

lemma at_block_range: "at_block meta brin b (RangeCol r) = range_contains r b"
  by (cases r; cases "range_upper r") (auto simp: at_block_def coalesce_upper_def lower_le_def)

text \<open>A table has only versions up to block \<open>h\<close>.\<close>

fun version_upto :: "block_number \<Rightarrow> block_value \<Rightarrow> bool" where
  "version_upto h (BlockCol n) = (n \<le> h)"
| "version_upto h (RangeCol EmptyRange) = True"
| "version_upto h (RangeCol (Range lo hi)) = (lo \<le> h \<and> (case hi of None \<Rightarrow> True | Some u \<Rightarrow> u \<le> h))"

definition version_ok :: "table_meta \<Rightarrow> block_number \<Rightarrow> 'e version \<Rightarrow> bool" where
  "version_ok meta h v \<longleftrightarrow> version_upto h (v_block v) \<and> (tm_immutable meta \<longleftrightarrow> (\<exists>n. v_block v = BlockCol n))"

definition table_inv :: "block_number \<Rightarrow> 'e table \<Rightarrow> bool" where
  "table_inv h t \<longleftrightarrow> (\<forall>v \<in> set (t_rows t). version_ok (t_meta t) h v)"

lemma table_inv_range_rows: "table_inv h t \<Longrightarrow> \<not> tm_immutable (t_meta t) \<Longrightarrow> range_rows (t_rows t)"
  unfolding table_inv_def range_rows_def version_ok_def by (metis block_value.exhaust)

text \<open>All rows for an id but the last are over when the last one starts.\<close>

lemma follows_over:
  assumes "successively follows (qs @ [q])" "\<forall>r \<in> set qs. end_ok r" "r \<in> set qs"
  shows "\<not> is_open r \<and> em_block r < em_block q \<and> em_stop r \<le> em_block q"
  using assms
proof (induction qs arbitrary: r)
  case (Cons a qs)
  show ?case
  proof (cases "qs = []")
    case True
    with Cons.prems show ?thesis by (auto simp: follows_def)
  next
    case False
    then obtain c cs where c: "qs = c # cs" by (cases qs) auto
    have s: "successively follows (qs @ [q])" "follows a c" using Cons.prems(1) c by simp_all
    have IH: "\<not> is_open x \<and> em_block x < em_block q \<and> em_stop x \<le> em_block q" if "x \<in> set qs" for x
      using Cons.IH [OF s(1) _ that] Cons.prems(2) by simp
    show ?thesis
    proof (cases "r = a")
      case True
      with IH [of c] c s(2) show ?thesis by (auto simp: follows_def)
    next
      case False
      with Cons.prems(3) IH show ?thesis by simp
    qed
  qed
qed simp

text \<open>What an operation says about the value of its key.\<close>

fun op_value :: "'e entity_op \<Rightarrow> 'e option" where
  "op_value (WriteOp _ e) = Some e"
| "op_value (RemoveOp _) = None"

lemma as_entity_op_over: "\<not> is_open r \<Longrightarrow> em_stop r \<le> x \<Longrightarrow> op_value (as_entity_op r x) = None"
  by (cases "(r, x)" rule: as_entity_op.cases) auto

lemma find_row_versions:
  assumes "\<not> tm_immutable meta" "em_key q = key"
  shows "map_option v_data (find (find_matches meta key x) (row_versions meta q)) =
     (if em_block q \<le> x then op_value (as_entity_op q x) else None)"
  using assms
  by (cases "(q, x)" rule: as_entity_op.cases)
     (auto simp: row_versions_def new_version_def find_matches_def at_block_range belongs_to_region_def)

lemma find_concat_None: "find P (concat xss) = None \<longleftrightarrow> (\<forall>xs \<in> set xss. find P xs = None)"
  by (auto simp: find_None_iff)

lemma find_new_versions:
  assumes "\<not> tm_immutable meta" "successively follows qs" "\<forall>q \<in> set qs. end_ok q \<and> em_key q = key"
  shows "map_option v_data (find (find_matches meta key x) (concat (map (row_versions meta) qs))) =
     Option.bind (rfind (\<lambda>q. em_block q \<le> x) qs) (\<lambda>q. op_value (as_entity_op q x))"
  using assms(2,3)
proof (induction qs rule: rev_induct)
  case (snoc q qs)
  have s: "successively follows qs" using snoc.prems(1) by (simp add: successively_append_iff)
  show ?case
  proof (cases "em_block q \<le> x")
    case True
    have "find (find_matches meta key x) (row_versions meta r) = None" if "r \<in> set qs" for r
    proof -
      have "op_value (as_entity_op r x) = None"
        using follows_over [OF snoc.prems(1) _ that] snoc.prems(2) True by (intro as_entity_op_over) auto
      then show ?thesis using find_row_versions [OF assms(1), of r key x] snoc.prems(2) that by (simp split: if_splits)
    qed
    then have "find (find_matches meta key x) (concat (map (row_versions meta) qs)) = None"
      by (simp add: find_concat_None)
    then show ?thesis
      using find_row_versions [OF assms(1), of q key x] snoc.prems(2) True by (simp add: find_append)
  next
    case False
    then have "find (find_matches meta key x) (row_versions meta q) = None"
      using find_row_versions [OF assms(1), of q key x] snoc.prems(2) by simp
    then show ?thesis using snoc.IH [OF s] snoc.prems(2) False by (auto simp: find_append split: option.split)
  qed
qed simp

lemma find_versions_of_key:
  "find (find_matches meta key x) (concat (map (row_versions meta) rs)) =
   find (find_matches meta key x) (concat (map (row_versions meta) (rows_for (k_entity_id key) rs)))"
proof (induction rs)
  case (Cons r rs)
  have "find (find_matches meta key x) (row_versions meta r) = None" if "em_id r \<noteq> k_entity_id key"
    using that row_versions_id [of _ meta r] by (auto simp: find_None_iff find_matches_def)
  with Cons show ?case by (auto simp: find_append split: option.split)
qed simp

lemma rfind_filter: "rfind P (filter Q xs) = rfind (\<lambda>x. Q x \<and> P x) xs"
  by (induction xs rule: rev_induct) auto

text \<open>The versions that were there before, at a block before all rows for the id\<close>

lemma find_close_at_before:
  assumes "\<And>b. f (k_entity_id key) = Some b \<Longrightarrow> x < b" "x \<le> BLOCK_NUMBER_MAX"
  shows "map_option v_data (find (find_matches meta key x) (map (close_at f) rows)) =
         map_option v_data (find (find_matches meta key x) rows)"
proof (induction rows)
  case (Cons v rows)
  have "find_matches meta key x (close_at f v) = find_matches meta key x v"
  proof (cases "v_id v = k_entity_id key \<and> v_open v \<and> f (v_id v) \<noteq> None")
    case True
    then obtain b where b: "f (v_id v) = Some b" "x < b" using assms(1) by auto
    from True obtain lo hi where r: "v_block v = RangeCol (Range lo hi)" by (auto elim: range_open_cases)
    have "range_contains (closed_at (Range lo hi) b) x = range_contains (Range lo hi) x"
      using b(2) assms(2) True r by (cases hi) (auto simp: v_open_def)
    then show ?thesis
      using True b r by (auto simp: close_at_def close_version_def find_matches_def at_block_range belongs_to_region_def)
  next
    case False
    then show ?thesis by (cases "f (v_id v)") (auto simp: close_at_def find_matches_def belongs_to_region_def)
  qed
  with Cons show ?case by simp
qed simp

text \<open>... and at a block at or after the first row for the id\<close>

lemma find_close_at_after:
  assumes inv: "table_inv h t" "\<not> tm_immutable (t_meta t)" and x: "h < b" "b \<le> x" "b \<le> BLOCK_NUMBER_MAX"
    and f: "f (k_entity_id key) = Some b \<or> no_open (k_entity_id key) (t_rows t)"
  shows "find (find_matches meta key x) (map (close_at f) (t_rows t)) = None"
  unfolding find_None_iff
proof (clarsimp)
  fix v assume v: "v \<in> set (t_rows t)" and m: "find_matches meta key x (close_at f v)"
  then have id: "v_id v = k_entity_id key" by (simp add: find_matches_def)
  from v inv obtain r where r: "v_block v = RangeCol r" "version_upto h (RangeCol r)"
    using table_inv_range_rows [OF inv] by (fastforce simp: table_inv_def version_ok_def range_rows_def)
  show False
  proof (cases "v_open v")
    case True
    then have "f (k_entity_id key) = Some b" using f v id by (auto simp: no_open_def)
    then have "close_at f v = v\<lparr>v_block := RangeCol (closed_at r b)\<rparr>" using True id r(1) by (simp add: close_at_def close_version_def)
    then have "range_contains (closed_at r b) x" using m by (simp add: find_matches_def at_block_range)
    then show False using x(2) by (cases r) (auto split: if_splits)
  next
    case False
    then have "close_at f v = v" by (simp add: close_at_def split: option.split)
    then have "range_contains r x" using m r(1) by (simp add: find_matches_def at_block_range)
    then show False using False r x by (cases r) (auto simp: v_open_def split: option.splits)
  qed
qed

text \<open>The clamp of an id is its first row.\<close>

lemma clamp_map_rows_for: "clamp_map rs i = clamp_map (rows_for i rs) i"
proof (induction rs)
  case (Cons r rs)
  then show ?case unfolding clamp_map_def by (cases "is_clamp r"; cases "em_id r = i") simp_all
qed simp

lemma follows_no_clamp: "successively follows (q # qs) \<Longrightarrow> \<forall>r \<in> set qs. \<not> is_clamp r"
proof (induction qs arbitrary: q)
  case (Cons c cs)
  from Cons.prems have *: "follows q c" "successively follows (c # cs)" by simp_all
  have "\<not> is_clamp c" using *(1) by (simp add: follows_def)
  moreover have "\<forall>r \<in> set cs. \<not> is_clamp r" using Cons.IH *(2) by blast
  ultimately show ?case by simp
qed simp

lemma clamp_map_first:
  assumes "row_chains rs" "rows_for i rs = q # qs"
  shows "clamp_map rs i = (if is_clamp q then Some (em_block q) else None)"
proof -
  have "successively follows (q # qs)" using assms by (metis row_chains_def)
  then have "filter is_clamp qs = []" using follows_no_clamp by (simp add: filter_empty_conv)
  moreover have "em_id q = i" using assms(2) by (metis (mono_tags, lifting) filter_eq_ConsD)
  ultimately have "clamp_map (q # qs) i = (if is_clamp q then Some (em_block q) else None)" by (simp add: clamp_map_def)
  then show ?thesis using clamp_map_rows_for [of rs i] assms(2) by simp
qed

lemma clamp_map_Some: "clamp_map rs i = Some b \<Longrightarrow> \<exists>q \<in> set (rows_for i rs). em_block q = b"
  by (auto simp: clamp_map_def dest!: map_of_SomeD)

lemma follows_first: "successively follows (q # qs) \<Longrightarrow> m \<in> set (q # qs) \<Longrightarrow> em_block q \<le> em_block m"
proof (induction qs arbitrary: q)
  case (Cons c cs)
  from Cons.prems(1) have *: "follows q c" "successively follows (c # cs)" by simp_all
  have "em_block q < em_block c" using *(1) by (simp add: follows_def)
  moreover have "m = q \<or> em_block c \<le> em_block m" using Cons.IH [OF *(2)] Cons.prems(2) by auto
  ultimately show ?case by auto
qed simp

lemma safe_rows_first:
  assumes "safe_rows meta rs rows" "rows_for i rs = q # qs" "creates_entity q"
  shows "no_open i rows"
proof -
  from assms(2) obtain xs ys where "rs = xs @ q # ys" "\<forall>r \<in> set xs. em_id r \<noteq> i" "em_id q = i"
    by (auto simp: filter_eq_Cons_iff)
  moreover from this have "i \<notin> em_id ` set xs" by auto
  ultimately show ?thesis using assms(1,3) no_open_apply_rows [of i xs meta rows] by (simp add: safe_rows_append)
qed

lemma find_apply_rows:
  assumes mut: "\<not> tm_immutable (t_meta t)" and inv: "table_inv h t"
    and rs: "row_chains rs" "\<forall>r \<in> set rs. end_ok r \<and> h < em_block r \<and> em_block r \<le> BLOCK_NUMBER_MAX"
    and safe: "safe_rows (t_meta t) rs (t_rows t)" and key: "\<forall>r \<in> set rs. em_id r = k_entity_id key \<longrightarrow> em_key r = key"
    and x: "x \<le> BLOCK_NUMBER_MAX"
  shows "table_find (t\<lparr>t_rows := apply_rows (t_meta t) rs (t_rows t)\<rparr>) key x =
     (case rfind (\<lambda>m. em_key m = key \<and> em_block m \<le> x) rs of
        Some m \<Rightarrow> op_value (as_entity_op m x)
      | None \<Rightarrow> table_find t key x)"
proof -
  let ?i = "k_entity_id key" and ?M = "find_matches (t_meta t) key x"
  let ?old = "map (close_at (clamp_map rs)) (t_rows t)" and ?new = "concat (map (row_versions (t_meta t)) rs)"
  have "successively follows (rows_for ?i rs)" using rs(1) by (simp add: row_chains_def)
  then have "map_option v_data (find ?M ?new) =
      Option.bind (rfind (\<lambda>q. em_block q \<le> x) (rows_for ?i rs)) (\<lambda>q. op_value (as_entity_op q x))"
    using find_new_versions [OF mut, of "rows_for ?i rs" key x] rs(2) key
    by (subst find_versions_of_key) auto
  moreover have k: "rfind (\<lambda>q. em_block q \<le> x) (rows_for ?i rs) = rfind (\<lambda>m. em_key m = key \<and> em_block m \<le> x) rs"
    unfolding rfind_filter by (rule rfind_cong) (use key in \<open>auto simp: em_id_def\<close>)
  ultimately have new: "map_option v_data (find ?M ?new) =
      Option.bind (rfind (\<lambda>m. em_key m = key \<and> em_block m \<le> x) rs) (\<lambda>q. op_value (as_entity_op q x))" by simp
  have f: "table_find (t\<lparr>t_rows := apply_rows (t_meta t) rs (t_rows t)\<rparr>) key x =
      (case map_option v_data (find ?M ?old) of None \<Rightarrow> map_option v_data (find ?M ?new) | Some e \<Rightarrow> Some e)"
    by (simp add: table_find_def apply_rows_eq [OF rs(1)] find_append split: option.split)
  show ?thesis
  proof (cases "rfind (\<lambda>m. em_key m = key \<and> em_block m \<le> x) rs")
    case None
    then have "\<forall>q \<in> set (rows_for ?i rs). x < em_block q" unfolding k [symmetric] by (auto simp: rfind_None_iff)
    then have "x < b" if "clamp_map rs ?i = Some b" for b
      using clamp_map_Some [OF that] by auto
    then have "map_option v_data (find ?M ?old) = table_find t key x"
      unfolding table_find_def by (rule find_close_at_before) (use x in simp_all)
    with f new None show ?thesis by (simp split: option.split)
  next
    case (Some m)
    then have "rows_for ?i rs \<noteq> []" unfolding k [symmetric] by auto
    then obtain q qs where q: "rows_for ?i rs = q # qs" by (cases "rows_for ?i rs") auto
    then have qr: "q \<in> set rs" by (metis filter_is_subset list.set_intros(1) subsetD)
    have "em_block q \<le> x"
    proof -
      have m: "m \<in> set (q # qs)" "em_block m \<le> x" using Some k q by (auto dest: rfind_Some_D)
      have "successively follows (q # qs)" using rs(1) q by (metis row_chains_def)
      then have "em_block q \<le> em_block m" using m(1) by (rule follows_first)
      with m(2) show ?thesis by simp
    qed
    moreover have "clamp_map rs ?i = Some (em_block q) \<or> no_open ?i (t_rows t)"
      using clamp_map_first [OF rs(1) q] safe_rows_first [OF safe q] by (cases q) auto
    ultimately have "find ?M ?old = None"
      using find_close_at_after [OF inv mut, of "em_block q" x] rs(2) qr by simp
    with f new Some show ?thesis by simp
  qed
qed

lemma version_upto_mono: "version_upto h b \<Longrightarrow> h \<le> n \<Longrightarrow> version_upto n b"
  by (cases "(h, b)" rule: version_upto.cases) (auto split: option.splits)

lemma close_at_upto:
  assumes "version_upto n (v_block v)" "\<And>b. f (v_id v) = Some b \<Longrightarrow> b \<le> n"
  shows "version_upto n (v_block (close_at f v))"
proof (cases "v_open v \<and> f (v_id v) \<noteq> None")
  case True
  then obtain lo hi where "v_block v = RangeCol (Range lo hi)" by (auto elim: range_open_cases)
  with True assms show ?thesis by (auto simp: close_at_def close_version_def)
next
  case False
  with assms(1) show ?thesis by (auto simp: close_at_def split: option.split)
qed

lemma close_at_blockcol: "(\<exists>n. v_block (close_at f v) = BlockCol n) \<longleftrightarrow> (\<exists>n. v_block v = BlockCol n)"
  by (auto simp: close_at_def close_version_def split: option.split block_value.split)

lemma row_versions_ok:
  assumes "v \<in> set (row_versions meta r)" "em_block r \<le> n" "em_stop r \<le> n"
  shows "version_ok meta n v"
  using assms by (cases r) (auto simp: version_ok_def row_versions_def new_version_def split: option.splits)

lemma close_at_ok:
  assumes "version_ok meta h v" "h \<le> n" "\<And>b. f (v_id v) = Some b \<Longrightarrow> b \<le> n"
  shows "version_ok meta n (close_at f v)"
  using assms close_at_upto [of n v f] version_upto_mono [of h "v_block v" n]
  by (auto simp: version_ok_def close_at_blockcol)

lemma table_inv_apply_rows:
  assumes "table_inv h t" "row_chains rs" "\<forall>r \<in> set rs. em_block r \<le> n \<and> em_stop r \<le> n" "h \<le> n"
  shows "table_inv n (t\<lparr>t_rows := apply_rows (t_meta t) rs (t_rows t)\<rparr>)"
proof -
  have "b \<le> n" if "clamp_map rs i = Some b" for i b using clamp_map_Some [OF that] assms(3) by auto
  then have "\<forall>v \<in> set (t_rows t). version_ok (t_meta t) n (close_at (clamp_map rs) v)"
    using assms(1,4) by (auto simp: table_inv_def intro!: close_at_ok)
  moreover have "\<forall>r \<in> set rs. \<forall>v \<in> set (row_versions (t_meta t) r). version_ok (t_meta t) n v"
    using assms(3) by (blast intro: row_versions_ok)
  ultimately show ?thesis by (auto simp: table_inv_def apply_rows_eq [OF assms(2)])
qed

section \<open>Immutable tables\<close>

lemma write_group_immutable:
  assumes imm: "tm_immutable meta" "\<not> tm_skip_duplicates meta"
    and size: "0 < insert_chunk_size extra meta" and small: "\<forall>c. \<not> too_large c"
  shows "write_group prep too_large extra meta g rows = Some (Ok rows') \<longleftrightarrow>
     \<not> has_clamps g \<and> preps_ok prep (rg_rows g) \<and> ids_ok meta rows (all_writes (rg_rows g)) \<and>
     rows' = rows @ concat (map (row_versions meta) (rg_rows g))"
proof -
  have "delete_group meta g rows = (if has_clamps g then Err (InternalError ''entities can not be deleted since they are immutable'') else Ok rows)"
    using imm by (simp add: delete_group_def)
  then show ?thesis
    using insert_group_eq [OF _ size, of too_large prep g _ rows'] small imm
    by (auto simp: write_group_Ok preps_ok_def write_ok_def map_all_writes split: if_splits)
qed

lemma all_writes_ids: "(\<And>r. r \<in> set rs \<Longrightarrow> is_write r) \<Longrightarrow> map ew_id (all_writes rs) = map em_id rs"
proof (induction rs)
  case (Cons r rs)
  then have "is_write r" "map ew_id (all_writes rs) = map em_id rs" by simp_all
  then show ?case by (cases r) (auto simp: map_filter_simps em_id_def)
qed (simp add: map_filter_simps)

lemma find_insert_rows:
  assumes imm: "tm_immutable (t_meta t)" and inv: "table_inv h t"
    and rs: "\<forall>r \<in> set rs. creates_entity r \<and> is_open r \<and> em_block r \<le> BLOCK_NUMBER_MAX"
    and ids: "ids_ok (t_meta t) (t_rows t) (all_writes rs)"
    and key: "\<forall>r \<in> set rs. em_id r = k_entity_id key \<longrightarrow> em_key r = key"
    and x: "x \<le> BLOCK_NUMBER_MAX"
  shows "table_find (t\<lparr>t_rows := t_rows t @ concat (map (row_versions (t_meta t)) rs)\<rparr>) key x =
     (case rfind (\<lambda>m. em_key m = key \<and> em_block m \<le> x) rs of
        Some m \<Rightarrow> op_value (as_entity_op m x)
      | None \<Rightarrow> table_find t key x)"
proof -
  let ?i = "k_entity_id key" and ?M = "find_matches (t_meta t) key x"
  have w: "is_write r" if "r \<in> set rs" for r using rs that by (cases r) auto
  then have d: "distinct (map em_id rs)" "set (map v_id (t_rows t)) \<inter> set (map em_id rs) = {}"
    using ids imm all_writes_ids [of rs] by (simp_all add: ids_ok_def)
  have one: "map_option v_data (find ?M (row_versions (t_meta t) r)) = (if em_block r \<le> x then op_value (as_entity_op r x) else None)"
    if "r \<in> set rs" "em_key r = key" for r
    using rs that imm x
    by (cases r) (auto simp: row_versions_def new_version_def find_matches_def at_block_def belongs_to_region_def em_id_def)
  have f: "table_find (t\<lparr>t_rows := t_rows t @ concat (map (row_versions (t_meta t)) rs)\<rparr>) key x =
      (case table_find t key x of None \<Rightarrow> map_option v_data (find ?M (concat (map (row_versions (t_meta t)) (rows_for ?i rs)))) | Some e \<Rightarrow> Some e)"
    unfolding table_find_def by (simp add: find_append find_versions_of_key [of _ _ _ rs] split: option.split)
  show ?thesis
  proof (cases "rows_for ?i rs")
    case Nil
    then have "rfind (\<lambda>m. em_key m = key \<and> em_block m \<le> x) rs = None"
      by (auto simp: rfind_None_iff filter_empty_conv em_id_def)
    with f Nil show ?thesis by (simp split: option.split)
  next
    case (Cons q qs)
    then have "distinct (map em_id (q # qs))" using d(1) by (metis distinct_map_filter)
    moreover have "\<forall>r \<in> set (q # qs). em_id r = ?i" using Cons by (metis (mono_tags, lifting) mem_Collect_eq set_filter)
    ultimately have qs: "qs = []" by (cases qs) auto
    have q: "q \<in> set rs" "em_id q = ?i" using Cons by (auto simp: filter_eq_Cons_iff)
    then have k: "em_key q = key" using key by simp
    have "?i \<in> set (map em_id rs)" using q by force
    then have "\<forall>v \<in> set (t_rows t). v_id v \<noteq> ?i" using d(2) by auto
    then have "table_find t key x = None" by (auto simp: table_find_def find_None_iff find_matches_def)
    moreover have "rfind (\<lambda>m. em_key m = key \<and> em_block m \<le> x) rs = rfind (\<lambda>m. em_block m \<le> x) (rows_for ?i rs)"
      unfolding rfind_filter by (rule rfind_cong) (use key in \<open>auto simp: em_id_def\<close>)
    moreover have "rfind (\<lambda>m. em_block m \<le> x) [q] = (if em_block q \<le> x then Some q else None)" by (simp add: rfind_def)
    ultimately show ?thesis using f one [OF q(1) k] by (simp add: Cons qs)
  qed
qed

section \<open>Reverting\<close>

lemma find_map_filter:
  assumes "\<forall>v \<in> set vs. (Q v \<and> P (f v)) = P' v" "\<And>v. d (f v) = d v"
  shows "map_option d (find P (map f (filter Q vs))) = map_option d (find P' vs)"
  using assms(1)
proof (induction vs)
  case (Cons v vs)
  then show ?case using assms(2) [of v] by (cases "Q v"; cases "P (f v)") auto
qed simp

lemma unclamp_version_id [simp]:
  "v_id (unclamp_version b v) = v_id v" "v_data (unclamp_version b v) = v_data v" "v_region (unclamp_version b v) = v_region v"
  by (simp_all add: unclamp_version_def split: option.split)

text \<open>A version of the reverted table is seen at \<open>x\<close> if it was seen at \<open>x\<close> or at \<open>r\<close>, whichever is earlier.\<close>

lemma unclamp_contains:
  assumes "version_upto h (RangeCol s)" "h < BLOCK_NUMBER_MAX" "v_block v = RangeCol s" "x \<le> BLOCK_NUMBER_MAX" "r < BLOCK_NUMBER_MAX"
  shows "\<exists>s'. v_block (unclamp_version r v) = RangeCol s' \<and>
     ((\<not> br_changed_since (r + 1) (RangeCol s) \<and> range_contains s' x) = range_contains s (min x r)) \<and>
     (\<not> br_changed_since (r + 1) (RangeCol s) \<longrightarrow> version_upto r (RangeCol s'))"
proof (cases s)
  case EmptyRange
  then show ?thesis using assms(3) by (simp add: unclamp_version_def unclamp_hits_def lower_ge_def)
next
  case (Range lo hi)
  then show ?thesis
    using assms
    by (cases hi) (auto simp: unclamp_version_def unclamp_hits_def coalesce_upper_def lower_le_def lower_ge_def min_def)
qed

lemma table_revert_ok: "\<exists>t' c. table_revert b t = Ok (t', c) \<and> t_meta t' = t_meta t"
  by (simp add: table_revert_def revert_remove_query_def revert_clamp_query_def)

lemma table_revert_rows:
  "table_revert b t = Ok (t', c) \<Longrightarrow>
     t' = t\<lparr>t_rows := (let vs = filter (\<lambda>v. \<not> br_changed_since b (v_block v)) (t_rows t)
                       in if tm_immutable (t_meta t) then vs else map (unclamp_version (b - 1)) vs)\<rparr>"
  by (auto simp: table_revert_def revert_remove_query_def revert_clamp_query_def Let_def)

lemma table_revert_find:
  assumes rev: "table_revert (r + 1) t = Ok (t', c)" and inv: "table_inv h t"
    and b: "h < BLOCK_NUMBER_MAX" "r < BLOCK_NUMBER_MAX" "x \<le> BLOCK_NUMBER_MAX"
  shows "table_find t' key x = table_find t key (min x r) \<and> table_inv r t'"
proof (cases "tm_immutable (t_meta t)")
  case True
  then have t': "t' = t\<lparr>t_rows := map (\<lambda>v. v) (filter (\<lambda>v. \<not> br_changed_since (r + 1) (v_block v)) (t_rows t))\<rparr>"
    using table_revert_rows [OF rev] by simp
  have c: "\<exists>n. v_block v = BlockCol n \<and> n \<le> h" if "v \<in> set (t_rows t)" for v
    using inv that True by (fastforce simp: table_inv_def version_ok_def)
  have "map_option v_data (find (find_matches (t_meta t) key x) (map (\<lambda>v. v) (filter (\<lambda>v. \<not> br_changed_since (r + 1) (v_block v)) (t_rows t)))) =
      map_option v_data (find (find_matches (t_meta t) key (min x r)) (t_rows t))"
    by (rule find_map_filter) (use c b in \<open>fastforce simp: find_matches_def at_block_def min_def split: if_splits\<close>)+
  moreover have "table_inv r t'"
    using c t' True by (fastforce simp: table_inv_def version_ok_def)
  ultimately show ?thesis using t' by (simp add: table_find_def)
next
  case False
  then have t': "t' = t\<lparr>t_rows := map (unclamp_version r) (filter (\<lambda>v. \<not> br_changed_since (r + 1) (v_block v)) (t_rows t))\<rparr>"
    using table_revert_rows [OF rev] by simp
  have c: "\<exists>s s'. v_block v = RangeCol s \<and> v_block (unclamp_version r v) = RangeCol s' \<and>
      ((\<not> br_changed_since (r + 1) (RangeCol s) \<and> range_contains s' x) = range_contains s (min x r)) \<and>
      (\<not> br_changed_since (r + 1) (RangeCol s) \<longrightarrow> version_upto r (RangeCol s'))" if v: "v \<in> set (t_rows t)" for v
  proof -
    obtain s where s: "v_block v = RangeCol s" using table_inv_range_rows [OF inv False] v by (auto simp: range_rows_def)
    moreover have "version_upto h (RangeCol s)" using inv v s by (auto simp: table_inv_def version_ok_def)
    ultimately show ?thesis using unclamp_contains [of h s v x r] b by auto
  qed
  have "map_option v_data (find (find_matches (t_meta t) key x) (map (unclamp_version r) (filter (\<lambda>v. \<not> br_changed_since (r + 1) (v_block v)) (t_rows t)))) =
      map_option v_data (find (find_matches (t_meta t) key (min x r)) (t_rows t))"
  proof (rule find_map_filter, rule ballI)
    fix v assume "v \<in> set (t_rows t)"
    from c [OF this] show "(\<not> br_changed_since (r + 1) (v_block v) \<and> find_matches (t_meta t) key x (unclamp_version r v)) =
        find_matches (t_meta t) key (min x r) v"
      by (auto simp: find_matches_def at_block_range belongs_to_region_def)
  qed simp
  moreover have "table_inv r t'"
    using c t' False by (fastforce simp: table_inv_def version_ok_def)
  ultimately show ?thesis using t' by (simp add: table_find_def)
qed

end
