(* ===== verification/Layouts.thy ===== *)
theory Layouts
  imports Row_Laws
begin

text \<open>
  The tables of a deployment, \<open>Layout\<close> in \<open>store/postgres/src/relational.rs\<close>: lookups of one entity, of
  many, and of the entities that point to an entity, writing and clamping a group, the check
  that ids are unique across the types that share an interface (\<open>ConflictingEntitiesQuery\<close>),
  truncating and reverting. The laws at the end lift those of one table to all of them.
\<close>

section \<open>Tables by entity type\<close>

type_synonym 'e layout = "(entity_type \<times> 'e table) list"

definition table_for_entity :: "'e layout \<Rightarrow> entity_type \<Rightarrow> ('e table, store_error) outcome" where
  "table_for_entity l t = (case map_of l t of Some tab \<Rightarrow> Ok tab | None \<Rightarrow> Err (UnknownTable t))"

definition set_rows :: "entity_type \<Rightarrow> 'e version list \<Rightarrow> 'e layout \<Rightarrow> 'e layout" where
  "set_rows t rows l = map (\<lambda>(n, tab). (n, if n = t then tab\<lparr>t_rows := rows\<rparr> else tab)) l"

section \<open>Lookups\<close>

definition layout_find :: "'e layout \<Rightarrow> entity_key \<Rightarrow> block_number \<Rightarrow> ('e option, store_error) outcome" where
  "layout_find l key b = map_ok (\<lambda>t. table_find t key b) (table_for_entity l (k_entity_type key))"

text \<open>The key of a row that was read: \<open>CausalityRegion::from_entity\<close> gives \<open>ONCHAIN\<close> if there is no such column.\<close>

definition row_key :: "'e table \<Rightarrow> 'e version \<Rightarrow> entity_key" where
  "row_key t v = key_in (tm_object (t_meta t)) (v_id v) (if tm_has_causality_region (t_meta t) then v_region v else ONCHAIN)"

definition add_found :: "(entity_key \<Rightarrow> 'e option) \<Rightarrow> entity_key \<times> 'e \<Rightarrow> (entity_key \<Rightarrow> 'e option, store_error) outcome" where
  "add_found m kv =
     (if m (fst kv) \<noteq> None then Err (InternalError ''duplicate entity in result set'') else Ok (m(fst kv \<mapsto> snd kv)))"

definition layout_find_many ::
  "bool \<Rightarrow> 'e layout \<Rightarrow> ((entity_type \<times> causality_region) \<times> Id list) list \<Rightarrow> block_number \<Rightarrow>
     (entity_key \<Rightarrow> 'e option, store_error) outcome" where
  "layout_find_many brin l ids_for_type b =
     and_then (try_map (\<lambda>((t, cr), ids). map_ok (\<lambda>tab. (tab, cr, ids)) (table_for_entity l t)) ids_for_type) (\<lambda>tabs.
       try_fold add_found Map.empty
         (concat (map (\<lambda>(tab, cr, ids). map (\<lambda>v. (row_key tab v, v_data v)) (find_many_rows brin tab cr ids b)) tabs)))"

definition layout_find_derived ::
  "('e \<Rightarrow> bool) \<Rightarrow> 'e layout \<Rightarrow> entity_type \<Rightarrow> causality_region \<Rightarrow> block_number \<Rightarrow> entity_key list \<Rightarrow>
     (entity_key \<Rightarrow> 'e option, store_error) outcome" where
  "layout_find_derived is_related l t cr b excluded =
     and_then (table_for_entity l t) (\<lambda>tab.
     and_then (id_list_checked (t_meta tab) (map k_entity_id excluded)) (\<lambda>ids.
       Ok (fold (\<lambda>v m. m(row_key tab v \<mapsto> v_data v)) (find_derived_rows is_related tab cr b ids) Map.empty)))"

section \<open>Writing\<close>

text \<open>
  What the store knows besides the tables: the check of entity data for a table (\<open>InsertQuery::new\<close>),
  which chunks are refused as too large, the number of extra columns, and the types that share an
  interface with a type (\<open>EntityType::share_interfaces\<close>).
\<close>

record 'e store_env =
  env_prep :: "table_meta \<Rightarrow> Id \<Rightarrow> 'e \<Rightarrow> (unit, store_error) outcome"
  env_too_large :: "'e write_chunk \<Rightarrow> bool"
  env_insert_extra_cols :: nat
  env_share_interfaces :: "entity_type \<Rightarrow> entity_type list"

definition layout_delete :: "'e layout \<Rightarrow> 'e row_group \<Rightarrow> ('e layout, store_error) outcome" where
  "layout_delete l g =
     (if \<not> has_clamps g then Ok l
      else and_then (table_for_entity l (rg_entity_type g)) (\<lambda>t.
             map_ok (\<lambda>rows. set_rows (rg_entity_type g) rows l) (delete_group (t_meta t) g (t_rows t))))"

definition layout_insert :: "'e store_env \<Rightarrow> 'e layout \<Rightarrow> 'e row_group \<Rightarrow> ('e layout, store_error) outcome option" where
  "layout_insert env l g =
     and_then_opt (Some (table_for_entity l (rg_entity_type g))) (\<lambda>t.
     and_then_opt (insert_group (env_prep env (t_meta t)) (env_too_large env) (env_insert_extra_cols env) (t_meta t) g (t_rows t))
       (\<lambda>rows. Some (Ok (set_rows (rg_entity_type g) rows l))))"

definition layout_update :: "'e store_env \<Rightarrow> 'e layout \<Rightarrow> 'e row_group \<Rightarrow> ('e layout, store_error) outcome option" where
  "layout_update env l g =
     and_then_opt (Some (table_for_entity l (rg_entity_type g))) (\<lambda>t.
     and_then_opt (update_rows (env_prep env (t_meta t)) (env_insert_extra_cols env) (t_meta t) g (t_rows t))
       (\<lambda>rows. Some (Ok (set_rows (rg_entity_type g) rows l))))"

text \<open>\<open>ConflictingEntitiesQuery\<close>: the rows of the tables that have one of the ids of the group\<close>

definition conflicting_entities_query ::
  "'e layout \<Rightarrow> entity_type list \<Rightarrow> 'e row_group \<Rightarrow> ((entity_type \<times> Id) list, store_error) outcome" where
  "conflicting_entities_query l types g =
     and_then (try_map (table_for_entity l) types) (\<lambda>tabs.
     map_ok (\<lambda>ids.
         concat (map (\<lambda>t. map (\<lambda>v. (tm_object (t_meta t), v_id v)) (filter (\<lambda>v. v_id v \<in> set (as_ids ids)) (t_rows t))) tabs))
       (map_err QueryExecutionError (try_from_iter_ref (rg_ids g))))"

text \<open>\<open>Layout::conflicting_entities\<close> takes the last row of the result.\<close>

definition conflicting_entities ::
  "'e layout \<Rightarrow> entity_type list \<Rightarrow> 'e row_group \<Rightarrow> ((entity_type \<times> Id) option, store_error) outcome" where
  "conflicting_entities l types g =
     map_ok (\<lambda>rows. case rows of [] \<Rightarrow> None | x # xs \<Rightarrow> Some (last (x # xs))) (conflicting_entities_query l types g)"

text \<open>\<open>DeploymentStore::check_intf_uniqueness\<close>; \<open>show_id\<close> prints an id.\<close>

definition check_intf_uniqueness :: "(Id \<Rightarrow> string) \<Rightarrow> 'e store_env \<Rightarrow> 'e layout \<Rightarrow> 'e row_group \<Rightarrow> (unit, store_error) outcome" where
  "check_intf_uniqueness show_id env l g =
     (let types = env_share_interfaces env (rg_entity_type g) in
      if types = [] then Ok ()
      else and_then (conflicting_entities l types g) (\<lambda>c.
             case c of
               Some (t, i) \<Rightarrow> Err (ConflictingId (rg_entity_type g) (show_id i) t)
             | None \<Rightarrow> Ok ()))"

text \<open>
  The body of the loop of \<open>DeploymentStore::apply_entity_modifications\<close>, and the loop: the new tables
  and the change of the entity count.
\<close>

definition apply_group ::
  "(Id \<Rightarrow> string) \<Rightarrow> 'e store_env \<Rightarrow> 'e layout \<times> int \<Rightarrow> 'e row_group \<Rightarrow> ('e layout \<times> int, store_error) outcome option" where
  "apply_group show_id env lc g =
     and_then_opt (Some (layout_delete (fst lc) g)) (\<lambda>l1.
     and_then_opt (Some (check_intf_uniqueness show_id env l1 g)) (\<lambda>_.
     and_then_opt (layout_insert env l1 g) (\<lambda>l2. Some (Ok (l2, snd lc + rg_entity_count_change g)))))"

definition apply_entity_modifications ::
  "(Id \<Rightarrow> string) \<Rightarrow> 'e store_env \<Rightarrow> 'e layout \<Rightarrow> 'e row_groups \<Rightarrow> ('e layout \<times> int, store_error) outcome option" where
  "apply_entity_modifications show_id env l gs = try_fold_opt (apply_group show_id env) (l, 0) gs"

section \<open>Truncating and reverting\<close>

definition truncate_tables :: "'e layout \<Rightarrow> 'e layout" where
  "truncate_tables l = map (\<lambda>(n, t). (n, t\<lparr>t_rows := []\<rparr>)) l"

definition layout_revert_block :: "'e layout \<Rightarrow> block_number \<Rightarrow> ('e layout \<times> int, store_error) outcome" where
  "layout_revert_block l b =
     try_fold (\<lambda>(done, count) (n, t). map_ok (\<lambda>(t', c). (done @ [(n, t')], count + c)) (table_revert b t)) ([], 0) l"

section \<open>Laws\<close>

lemma map_of_set_rows:
  "map_of (set_rows t rows l) n = (if n = t then map_option (\<lambda>tab. tab\<lparr>t_rows := rows\<rparr>) (map_of l t) else map_of l n)"
  by (induction l) (auto simp: set_rows_def)

lemma table_for_entity_Ok: "table_for_entity l t = Ok tab \<longleftrightarrow> map_of l t = Some tab"
  by (simp add: table_for_entity_def split: option.split)

lemma set_rows_fst [simp]: "map fst (set_rows t rows l) = map fst l"
  by (induction l) (auto simp: set_rows_def)

lemma set_rows_twice: "set_rows t rows' (set_rows t rows l) = set_rows t rows' l"
  by (induction l) (auto simp: set_rows_def)

abbreviation env_write_group :: "'e store_env \<Rightarrow> 'e table \<Rightarrow> 'e row_group \<Rightarrow> ('e version list, store_error) outcome option" where
  "env_write_group env t g \<equiv>
     write_group (env_prep env (t_meta t)) (env_too_large env) (env_insert_extra_cols env) (t_meta t) g (t_rows t)"

lemma apply_group_Ok:
  assumes "apply_group show_id env (l, c) g = Some (Ok (l', c'))" "distinct (map fst l)"
  obtains t rows where "map_of l (rg_entity_type g) = Some t" "env_write_group env t g = Some (Ok rows)"
    "l' = set_rows (rg_entity_type g) rows l" "c' = c + rg_entity_count_change g"
proof -
  from assms(1) obtain l1 where l1: "layout_delete l g = Ok l1" and l2: "layout_insert env l1 g = Some (Ok l')"
    and c': "c' = c + rg_entity_count_change g"
    by (auto simp: apply_group_def outcome_simps)
  from l2 obtain t1 rows where t1: "map_of l1 (rg_entity_type g) = Some t1"
    "insert_group (env_prep env (t_meta t1)) (env_too_large env) (env_insert_extra_cols env) (t_meta t1) g (t_rows t1) = Some (Ok rows)"
    "l' = set_rows (rg_entity_type g) rows l1"
    by (auto simp: layout_insert_def outcome_simps table_for_entity_Ok)
  show ?thesis
  proof (cases "has_clamps g")
    case False
    then have "l1 = l" using l1 by (simp add: layout_delete_def)
    with t1 c' False that show ?thesis by (auto simp: write_group_Ok delete_group_def)
  next
    case True
    with l1 obtain t rows1 where t: "map_of l (rg_entity_type g) = Some t"
      "delete_group (t_meta t) g (t_rows t) = Ok rows1" "l1 = set_rows (rg_entity_type g) rows1 l"
      by (auto simp: layout_delete_def outcome_simps table_for_entity_Ok)
    then have "t1 = t\<lparr>t_rows := rows1\<rparr>" using t1(1) by (simp add: map_of_set_rows)
    with t t1 c' that show ?thesis by (auto simp: write_group_Ok set_rows_twice)
  qed
qed

text \<open>
  The tables are in order if they are up to block \<open>h\<close>, agree with the schema, and their rows fit
  into statements. Immutable tables that skip duplicates are left out: such a table keeps the
  first version of an entity, whatever comes later.
\<close>

definition meta_ok :: "type_flags \<Rightarrow> 'e store_env \<Rightarrow> entity_type \<Rightarrow> table_meta \<Rightarrow> bool" where
  "meta_ok fl env n m \<longleftrightarrow>
     tm_object m = n \<and> tm_immutable m = tf_is_immutable fl n \<and> tm_skip_duplicates m = tf_skip_duplicates fl n \<and>
     \<not> (tm_immutable m \<and> tm_skip_duplicates m) \<and>
     0 < insert_chunk_size (env_insert_extra_cols env) m"

definition layout_inv :: "type_flags \<Rightarrow> 'e store_env \<Rightarrow> block_number \<Rightarrow> 'e layout \<Rightarrow> bool" where
  "layout_inv fl env h l \<longleftrightarrow>
     distinct (map fst l) \<and> (\<forall>(n, t) \<in> set l. meta_ok fl env n (t_meta t) \<and> table_inv h t)"

text \<open>
  Modifications that can be written: their ids have the type of the table, and an insertion
  is for an entity that does not exist.
\<close>

definition group_fits :: "'e table \<Rightarrow> 'e row_group \<Rightarrow> bool" where
  "group_fits t g \<longleftrightarrow>
     typed_ids (t_meta t) (rg_rows g) \<and> (\<not> tm_immutable (t_meta t) \<longrightarrow> safe_rows (t_meta t) (rg_rows g) (t_rows t))"

definition same_key :: "entity_key \<Rightarrow> 'e row_group \<Rightarrow> bool" where
  "same_key key g \<longleftrightarrow>
     (rg_entity_type g = k_entity_type key \<longrightarrow> (\<forall>m \<in> set (rg_rows g). em_id m = k_entity_id key \<longrightarrow> em_key m = key))"

lemma layout_inv_table:
  "layout_inv fl env h l \<Longrightarrow> map_of l n = Some t \<Longrightarrow> meta_ok fl env n (t_meta t) \<and> table_inv h t"
  by (auto simp: layout_inv_def dest!: map_of_SomeD)

lemma is_open_stop: "is_open r \<Longrightarrow> em_stop r = em_block r"
  by (cases r) auto

text \<open>Writing one group into its table\<close>

lemma write_group_table:
  assumes wr: "env_write_group env t g = Some (Ok rows)" and small: "\<forall>c. \<not> env_too_large env c"
    and meta: "meta_ok fl env (rg_entity_type g) (t_meta t)" and inv: "table_inv h t"
    and g: "group_inv fl memo f n g" "h < f" "f \<le> n" "n \<le> BLOCK_NUMBER_MAX" and fits: "group_fits t g"
  shows "table_inv n (t\<lparr>t_rows := rows\<rparr>) \<and>
    (same_key key g \<longrightarrow> rg_entity_type g = k_entity_type key \<longrightarrow> x \<le> BLOCK_NUMBER_MAX \<longrightarrow>
     table_find (t\<lparr>t_rows := rows\<rparr>) key x =
       (case rg_last_op False g key x of Some op \<Rightarrow> op_value op | None \<Rightarrow> table_find t key x))"
proof (cases "tm_immutable (t_meta t)")
  case False
  then have gi: "rg_inv memo n g" "\<forall>r \<in> set (rg_rows g). f \<le> em_block r"
    using meta g(1) by (auto simp: meta_ok_def group_inv_def)
  then have rs: "row_chains (rg_rows g)" "\<forall>r \<in> set (rg_rows g). end_ok r \<and> em_block r \<le> n \<and> em_stop r \<le> n"
    by (auto simp: rg_inv_def)
  have rows: "rows = apply_rows (t_meta t) (rg_rows g) (t_rows t)"
  proof -
    have "typed_ids (t_meta t) (rg_rows g)" "\<forall>r \<in> set (rg_rows g). end_ok r"
      "0 < insert_chunk_size (env_insert_extra_cols env) (t_meta t)"
      using fits rs(2) meta by (auto simp: group_fits_def meta_ok_def)
    then show ?thesis
      using write_group_mutable [OF False table_inv_range_rows [OF inv False] _ rs(1) _ _ small] wr by simp
  qed
  have "table_inv n (t\<lparr>t_rows := rows\<rparr>)"
    unfolding rows using table_inv_apply_rows [OF inv rs(1)] rs(2) g(2,3) by simp
  moreover have "table_find (t\<lparr>t_rows := rows\<rparr>) key x =
       (case rg_last_op False g key x of Some op \<Rightarrow> op_value op | None \<Rightarrow> table_find t key x)"
    if "same_key key g" "rg_entity_type g = k_entity_type key" "x \<le> BLOCK_NUMBER_MAX"
  proof -
    have "\<forall>r \<in> set (rg_rows g). end_ok r \<and> h < em_block r \<and> em_block r \<le> BLOCK_NUMBER_MAX"
      using rs(2) gi(2) g(2,4) by auto
    moreover have "safe_rows (t_meta t) (rg_rows g) (t_rows t)" using fits False by (simp add: group_fits_def)
    moreover have "\<forall>r \<in> set (rg_rows g). em_id r = k_entity_id key \<longrightarrow> em_key r = key"
      using that(1,2) by (simp add: same_key_def)
    ultimately show ?thesis
      unfolding rows by (subst find_apply_rows [OF False inv rs(1) _ _ _ that(3)]) (simp_all add: rg_last_op_scan split: option.split)
  qed
  ultimately show ?thesis by blast
next
  case True
  then have gi: "\<forall>r \<in> set (rg_rows g). creates_entity r \<and> is_open r \<and> em_block r \<le> n"
    using meta g(1) by (auto simp: meta_ok_def group_inv_def)
  have rows: "rows = t_rows t @ concat (map (row_versions (t_meta t)) (rg_rows g))" "ids_ok (t_meta t) (t_rows t) (all_writes (rg_rows g))"
  proof -
    have "\<not> tm_skip_duplicates (t_meta t)" "0 < insert_chunk_size (env_insert_extra_cols env) (t_meta t)"
      using meta True by (auto simp: meta_ok_def)
    from write_group_immutable [OF True this small, of "env_prep env (t_meta t)" g "t_rows t" rows] wr
    show "rows = t_rows t @ concat (map (row_versions (t_meta t)) (rg_rows g))" "ids_ok (t_meta t) (t_rows t) (all_writes (rg_rows g))"
      by simp_all
  qed
  have "version_ok (t_meta t) n v" if "r \<in> set (rg_rows g)" "v \<in> set (row_versions (t_meta t) r)" for r v
    using row_versions_ok [OF that(2), of n] gi that(1) is_open_stop [of r] by auto
  moreover have "version_ok (t_meta t) n v" if "v \<in> set (t_rows t)" for v
    using inv that g(2,3) version_upto_mono [of h "v_block v" n] by (auto simp: table_inv_def version_ok_def)
  ultimately have "table_inv n (t\<lparr>t_rows := rows\<rparr>)" by (auto simp: table_inv_def rows(1))
  moreover have "table_find (t\<lparr>t_rows := rows\<rparr>) key x =
       (case rg_last_op False g key x of Some op \<Rightarrow> op_value op | None \<Rightarrow> table_find t key x)"
    if "same_key key g" "rg_entity_type g = k_entity_type key" "x \<le> BLOCK_NUMBER_MAX"
  proof -
    have "\<forall>r \<in> set (rg_rows g). creates_entity r \<and> is_open r \<and> em_block r \<le> BLOCK_NUMBER_MAX"
      using gi g(4) by auto
    moreover have "\<forall>r \<in> set (rg_rows g). em_id r = k_entity_id key \<longrightarrow> em_key r = key"
      using that(1,2) by (simp add: same_key_def)
    ultimately show ?thesis
      unfolding rows(1) by (subst find_insert_rows [OF True inv _ rows(2) _ that(3)]) (simp_all add: rg_last_op_scan split: option.split)
  qed
  ultimately show ?thesis by blast
qed

text \<open>Writing the groups of a batch: each table is changed by its group only.\<close>

lemma apply_groups_Ok:
  assumes "try_fold_opt (apply_group show_id env) (l, c) gs = Some (Ok (l', c'))"
    "distinct (map rg_entity_type gs)" "distinct (map fst l)"
  shows "map fst l' = map fst l \<and> c' = c + sum_list (map rg_entity_count_change gs) \<and>
    (\<forall>n. n \<notin> rg_entity_type ` set gs \<longrightarrow> map_of l' n = map_of l n) \<and>
    (\<forall>g \<in> set gs. \<exists>t rows. map_of l (rg_entity_type g) = Some t \<and> env_write_group env t g = Some (Ok rows) \<and>
        map_of l' (rg_entity_type g) = Some (t\<lparr>t_rows := rows\<rparr>))"
  using assms
proof (induction gs arbitrary: l c)
  case (Cons g gs)
  then obtain l1 c1 where a: "apply_group show_id env (l, c) g = Some (Ok (l1, c1))"
    and r: "try_fold_opt (apply_group show_id env) (l1, c1) gs = Some (Ok (l', c'))"
    by (auto simp: outcome_simps)
  from apply_group_Ok [OF a Cons.prems(3)] obtain t rows where
    t: "map_of l (rg_entity_type g) = Some t" "env_write_group env t g = Some (Ok rows)"
      "l1 = set_rows (rg_entity_type g) rows l" "c1 = c + rg_entity_count_change g" .
  have IH: "map fst l' = map fst l1 \<and> c' = c1 + sum_list (map rg_entity_count_change gs) \<and>
    (\<forall>n. n \<notin> rg_entity_type ` set gs \<longrightarrow> map_of l' n = map_of l1 n) \<and>
    (\<forall>g \<in> set gs. \<exists>t rows. map_of l1 (rg_entity_type g) = Some t \<and> env_write_group env t g = Some (Ok rows) \<and>
        map_of l' (rg_entity_type g) = Some (t\<lparr>t_rows := rows\<rparr>))"
    by (rule Cons.IH [OF r]) (use Cons.prems(2,3) t(3) in simp_all)
  have l1: "map_of l1 n = map_of l n" if "n \<noteq> rg_entity_type g" for n using that t(3) by (simp add: map_of_set_rows)
  have "rg_entity_type g \<notin> rg_entity_type ` set gs" using Cons.prems(2) by simp
  then have g: "map_of l' (rg_entity_type g) = Some (t\<lparr>t_rows := rows\<rparr>)" using IH t(1,3) by (simp add: map_of_set_rows)
  moreover have "map_of l1 (rg_entity_type h) = map_of l (rg_entity_type h)" if "h \<in> set gs" for h
    using l1 that \<open>rg_entity_type g \<notin> rg_entity_type ` set gs\<close> by (metis image_eqI)
  ultimately show ?case using IH l1 t by auto
qed simp

text \<open>A lookup after writing finds what the groups say, or what was there before.\<close>

definition groups_last_op :: "'e row_groups \<Rightarrow> entity_key \<Rightarrow> block_number \<Rightarrow> 'e entity_op option" where
  "groups_last_op gs key x = Option.bind (rgs_group gs (k_entity_type key)) (\<lambda>g. rg_last_op False g key x)"

lemma rgs_group_Some: "rgs_group gs n = Some g \<Longrightarrow> g \<in> set gs \<and> rg_entity_type g = n"
  by (auto simp: rgs_group_def dest: find_Some_mem)

lemma rgs_group_None: "rgs_group gs n = None \<longleftrightarrow> n \<notin> rg_entity_type ` set gs"
  by (auto simp: rgs_group_def find_None_iff)

definition groups_fit :: "'e layout \<Rightarrow> 'e row_groups \<Rightarrow> bool" where
  "groups_fit l gs \<longleftrightarrow> (\<forall>g \<in> set gs. \<forall>t. map_of l (rg_entity_type g) = Some t \<longrightarrow> group_fits t g)"

lemma layout_write_law:
  assumes ap: "apply_entity_modifications show_id env l gs = Some (Ok (l', c))"
    and inv: "layout_inv fl env h l" and small: "\<forall>c. \<not> env_too_large env c"
    and gs: "groups_inv fl memo f n gs" "h < f" "f \<le> n" "n \<le> BLOCK_NUMBER_MAX" and fits: "groups_fit l gs"
  shows "layout_inv fl env n l' \<and>
    ((\<forall>g \<in> set gs. same_key key g) \<longrightarrow> x \<le> BLOCK_NUMBER_MAX \<longrightarrow>
     layout_find l' key x = (case groups_last_op gs key x of Some op \<Rightarrow> Ok (op_value op) | None \<Rightarrow> layout_find l key x))"
proof -
  have d: "distinct (map fst l)" "distinct (map rg_entity_type gs)" using inv gs(1) by (auto simp: layout_inv_def groups_inv_def)
  note ok = apply_groups_Ok [OF ap [unfolded apply_entity_modifications_def] d(2,1)]
  have wr: "\<exists>t rows. map_of l (rg_entity_type g) = Some t \<and> map_of l' (rg_entity_type g) = Some (t\<lparr>t_rows := rows\<rparr>) \<and>
      table_inv n (t\<lparr>t_rows := rows\<rparr>) \<and> meta_ok fl env (rg_entity_type g) (t_meta t) \<and>
      (same_key key g \<longrightarrow> rg_entity_type g = k_entity_type key \<longrightarrow> x \<le> BLOCK_NUMBER_MAX \<longrightarrow>
       table_find (t\<lparr>t_rows := rows\<rparr>) key x =
         (case rg_last_op False g key x of Some op \<Rightarrow> op_value op | None \<Rightarrow> table_find t key x))"
    if g: "g \<in> set gs" for g
  proof -
    from ok g obtain t rows where t: "map_of l (rg_entity_type g) = Some t" "env_write_group env t g = Some (Ok rows)"
      "map_of l' (rg_entity_type g) = Some (t\<lparr>t_rows := rows\<rparr>)" by blast
    have m: "meta_ok fl env (rg_entity_type g) (t_meta t)" "table_inv h t" using layout_inv_table [OF inv t(1)] by auto
    have "group_inv fl memo f n g" "group_fits t g" using gs(1) g fits t(1) by (auto simp: groups_inv_def groups_fit_def)
    from write_group_table [OF t(2) small m this(1) gs(2-4) this(2)] show ?thesis using t m(1) by blast
  qed
  have "meta_ok fl env m (t_meta t) \<and> table_inv n t" if "map_of l' m = Some t" for m t
  proof (cases "m \<in> rg_entity_type ` set gs")
    case True
    then show ?thesis using wr that by fastforce
  next
    case False
    then have "map_of l m = Some t" using ok that by simp
    from layout_inv_table [OF inv this] show ?thesis
      using version_upto_mono gs(2,3) by (fastforce simp: table_inv_def version_ok_def)
  qed
  moreover have "distinct (map fst l')" using ok d(1) by simp
  ultimately have "layout_inv fl env n l'" by (auto simp: layout_inv_def)
  moreover have "layout_find l' key x = (case groups_last_op gs key x of Some op \<Rightarrow> Ok (op_value op) | None \<Rightarrow> layout_find l key x)"
    if k: "\<forall>g \<in> set gs. same_key key g" "x \<le> BLOCK_NUMBER_MAX"
  proof (cases "rgs_group gs (k_entity_type key)")
    case None
    then have "map_of l' (k_entity_type key) = map_of l (k_entity_type key)" using ok by (simp add: rgs_group_None)
    with None show ?thesis by (simp add: groups_last_op_def layout_find_def table_for_entity_def)
  next
    case (Some g)
    then have g: "g \<in> set gs" "rg_entity_type g = k_entity_type key" by (auto dest: rgs_group_Some)
    with wr k Some show ?thesis
      by (fastforce simp: groups_last_op_def layout_find_def table_for_entity_def split: option.split)
  qed
  ultimately show ?thesis by blast
qed

text \<open>Lookups after the last block give what the last block gives.\<close>

lemma range_contains_upto:
  "version_upto h (RangeCol r) \<Longrightarrow> h \<le> x \<Longrightarrow> range_contains r x = range_contains r h"
  by (cases r) (auto split: option.splits)

lemma at_block_upto:
  assumes "version_upto h b" "h \<le> x" "x \<le> BLOCK_NUMBER_MAX"
  shows "at_block meta brin x b = at_block meta brin h b"
proof (cases b)
  case (RangeCol r)
  then show ?thesis using assms range_contains_upto [of h r x] by (simp add: at_block_range)
qed (use assms in \<open>auto simp: at_block_def\<close>)

lemma table_find_upto:
  assumes "table_inv h t" "h \<le> x" "x \<le> BLOCK_NUMBER_MAX"
  shows "table_find t key x = table_find t key h"
proof -
  have "find_matches (t_meta t) key x v = find_matches (t_meta t) key h v" if "v \<in> set (t_rows t)" for v
    using at_block_upto [of h "v_block v" x] assms that by (auto simp: table_inv_def version_ok_def find_matches_def)
  then show ?thesis by (simp add: table_find_def cong: find_cong)
qed

lemma layout_find_upto:
  assumes "layout_inv fl env h l" "h \<le> x" "x \<le> BLOCK_NUMBER_MAX"
  shows "layout_find l key x = layout_find l key h"
  using layout_inv_table [OF assms(1)] table_find_upto [OF _ assms(2,3)]
  by (fastforce simp: layout_find_def table_for_entity_def split: option.split)

text \<open>Reverting\<close>

definition reverted :: "block_number \<Rightarrow> 'e table \<Rightarrow> 'e table" where
  "reverted b t = (case table_revert b t of Ok (t', _) \<Rightarrow> t' | _ \<Rightarrow> t)"

lemma reverted_Ok: "table_revert b t = Ok (t', k) \<Longrightarrow> reverted b t = t'"
  by (simp add: reverted_def)

lemma revert_fold:
  "\<exists>c'. try_fold (\<lambda>(done, count) (n, t). map_ok (\<lambda>(t', c). (done @ [(n, t')], count + c)) (table_revert b t)) (done, c) l =
     Ok (done @ map (\<lambda>(n, t). (n, reverted b t)) l, c')"
proof (induction l arbitrary: "done" c)
  case (Cons p l)
  obtain n t where p: "p = (n, t)" by fastforce
  obtain t' k where "table_revert b t = Ok (t', k)" using table_revert_ok by blast
  then show ?case using Cons.IH [of "done @ [(n, t')]" "c + k"] by (simp add: p reverted_Ok)
qed simp

lemma layout_revert_eq:
  "\<exists>c. layout_revert_block l b = Ok (map (\<lambda>(n, t). (n, reverted b t)) l, c)"
  using revert_fold [of b "[]" 0 l] by (simp add: layout_revert_block_def)

lemma map_of_map_snd: "map_of (map (\<lambda>(n, t). (n, f t)) l) n = map_option f (map_of l n)"
  by (induction l) auto

lemma layout_revert_law:
  assumes rev: "layout_revert_block l (r + 1) = Ok (l', c)" and inv: "layout_inv fl env h l"
    and b: "h < BLOCK_NUMBER_MAX" "r < BLOCK_NUMBER_MAX"
  shows "layout_inv fl env r l' \<and> (x \<le> BLOCK_NUMBER_MAX \<longrightarrow> layout_find l' key x = layout_find l key (min x r))"
proof -
  let ?f = "\<lambda>t. reverted (r + 1) t"
  have l': "l' = map (\<lambda>(n, t). (n, ?f t)) l" using rev layout_revert_eq [of l "r + 1"] by auto
  have t: "table_inv r (?f t) \<and> t_meta (?f t) = t_meta t \<and>
      (x \<le> BLOCK_NUMBER_MAX \<longrightarrow> table_find (?f t) key x = table_find t key (min x r))" if "table_inv h t" for t
  proof -
    obtain t' k where e: "table_revert (r + 1) t = Ok (t', k)" "t_meta t' = t_meta t" using table_revert_ok by blast
    then show ?thesis using table_revert_find [OF e(1) that b, of BLOCK_NUMBER_MAX key] table_revert_find [OF e(1) that b, of x key]
      by (simp add: reverted_Ok)
  qed
  have "layout_inv fl env r l'" using inv t unfolding l' layout_inv_def by (auto simp: comp_def case_prod_beta)
  moreover have "layout_find l' key x = layout_find l key (min x r)" if "x \<le> BLOCK_NUMBER_MAX"
    using that t layout_inv_table [OF inv] 
    by (auto simp: l' layout_find_def table_for_entity_def map_of_map_snd split: option.split)
  ultimately show ?thesis by blast
qed

text \<open>
  Appending to a group and writing it once: what \<open>RowGroup::append\<close> does is checked and written
  like the rows one after the other.
\<close>

definition prep_ok :: "(Id \<Rightarrow> 'e \<Rightarrow> (unit, store_error) outcome) \<Rightarrow> 'e entity_modification \<Rightarrow> bool" where
  "prep_ok prep r \<longleftrightarrow> (\<forall>w. as_write r = Some w \<longrightarrow> prep (ew_id w) (ew_entity w) = Ok ())"

lemma preps_ok_all: "preps_ok prep rs \<longleftrightarrow> (\<forall>r \<in> set rs. prep_ok prep r)"
  by (force simp: preps_ok_def prep_ok_def List.map_filter_def)

lemma prep_ok_clamp: "em_clamp m b = Ok m' \<Longrightarrow> prep_ok prep m \<Longrightarrow> prep_ok prep m'"
  by (cases "(m, b)" rule: em_clamp.cases) (auto simp: prep_ok_def split: if_splits option.splits)

lemma prep_ok_insert: "prep_ok prep (Insert k d b e) = prep_ok prep (Overwrite k d b e)"
  by (simp add: prep_ok_def)

lemma append_row_props:
  assumes "append_row fl memo g row = (g', Ok ())" "\<not> tf_is_immutable fl (rg_entity_type g)" "last_mod_ok memo g"
    "\<forall>r \<in> insert row (set (rg_rows g)). prep_ok prep r \<and> id_type_of (em_id r) = ty"
  shows "\<forall>r \<in> set (rg_rows g'). prep_ok prep r \<and> id_type_of (em_id r) = ty"
  using assms(1-3)
proof (cases rule: append_row_cases)
  case (overwrite xs p ys p' k d b e)
  have "em_id p' = em_id p" "em_id (Insert k d b e) = em_id row"
    using em_clamp_ok [OF overwrite(7)] overwrite(5) by (auto simp: em_id_def)
  then show ?thesis
    using overwrite assms(4) prep_ok_clamp [OF overwrite(7)] prep_ok_insert [of prep k d b e] by auto
next
  case (remove xs p ys p' k b)
  then show ?thesis
    using assms(4) prep_ok_clamp [OF remove(7)] em_clamp_ok [OF remove(7)] em_id_cong [of p' p] by auto
qed (use assms(4) in auto)

lemma append_rows_props:
  assumes "mut_fold (append_row fl memo) g qs = (g', Ok ())" "\<not> tf_is_immutable fl (rg_entity_type g)"
    "rg_inv memo n g" "\<forall>q \<in> set qs. fresh_mod b q" "n \<le> b"
    "\<forall>r \<in> set (rg_rows g) \<union> set qs. prep_ok prep r \<and> id_type_of (em_id r) = ty"
  shows "\<forall>r \<in> set (rg_rows g'). prep_ok prep r \<and> id_type_of (em_id r) = ty"
  using assms
proof (induction qs arbitrary: g n)
  case (Cons q qs)
  obtain h r where h: "append_row fl memo g q = (h, r)" by fastforce
  with Cons.prems(1) have r: "r = Ok ()" and g': "mut_fold (append_row fl memo) h qs = (g', Ok ())"
    by (auto split: outcome.splits)
  have "is_open q \<or> is_remove q" "em_block q = b" using Cons.prems(4) by (simp_all add: fresh_mod_def)
  then have "rg_inv memo b h" using append_row_inv [of memo n g fl q h] h r Cons.prems by simp
  moreover have "rg_entity_type h = rg_entity_type g" using h by (rule append_row_type)
  moreover have "\<forall>r \<in> set (rg_rows h). prep_ok prep r \<and> id_type_of (em_id r) = ty"
    using append_row_props [of fl memo g q h prep ty] h r Cons.prems by (auto simp: rg_inv_def)
  ultimately show ?case by (intro Cons.IH [OF g' _ _ _ order_refl]) (use Cons.prems(2,4-6) in \<open>simp_all add: ball_Un\<close>)
qed simp

lemma clamp_fits_above:
  assumes "table_inv h t" "\<forall>r \<in> set rs. h \<le> em_block r"
  shows "clamp_fits (clamp_map rs) (t_rows t)"
proof -
  have "version_fits (clamp_map rs) v" if v: "v \<in> set (t_rows t)" for v
  proof (cases "clamp_map rs (v_id v)")
    case (Some b)
    then have "h \<le> b" using clamp_map_Some assms(2) by fastforce
    moreover have "version_upto h (v_block v)" using assms(1) v by (simp add: table_inv_def version_ok_def)
    moreover have "\<exists>lo hi. v_block v = RangeCol (Range lo hi)" if "v_open v" using range_open_cases [OF that] by blast
    ultimately show ?thesis using Some by (auto simp: version_fits_def)
  qed (simp add: version_fits_def)
  then show ?thesis by (simp add: clamp_fits_def)
qed

end
