(* ===== verification/Batch_Writes.thy ===== *)
theory Batch_Writes
  imports Layouts
begin

text \<open>
  Writing the batch that \<open>Batch::append\<close> makes from the changes of several blocks has the same
  effect as writing the changes block by block (\<open>Batch\<close> in \<open>graph/src/components/store/write.rs\<close>,
  \<open>DeploymentStore::apply_entity_modifications\<close> in \<open>store/postgres/src/deployment_store.rs\<close>).
\<close>

section \<open>One group\<close>

lemma append_group_mutable:
  assumes ap: "rg_append fl memo g other = (g', Ok ())" and mut: "\<not> tm_immutable (t_meta t)"
    and meta: "meta_ok fl env (rg_entity_type g) (t_meta t)" and small: "\<forall>c. \<not> env_too_large env c"
    and inv: "table_inv h t" and g: "group_inv fl memo f n g" "h < f" and fits: "group_fits t g"
    and other: "group_inv fl memo b b other" "n \<le> b" "f \<le> b" "b \<le> BLOCK_NUMBER_MAX"
    and w1: "env_write_group env t g = Some (Ok rows1)" and fits': "group_fits (t\<lparr>t_rows := rows1\<rparr>) other"
    and w2: "env_write_group env (t\<lparr>t_rows := rows1\<rparr>) other = Some (Ok rows2)"
  shows "env_write_group env t g' = Some (Ok rows2) \<and> group_fits t g'"
proof -
  have ty: "rg_entity_type g = rg_entity_type other" and fold: "mut_fold (append_row fl memo) g (rg_rows other) = (g', Ok ())"
    using ap by (auto simp: rg_append_def split: if_splits)
  have tm: "\<not> tf_is_immutable fl (rg_entity_type g)" "\<not> tf_is_immutable fl (rg_entity_type other)"
    "0 < insert_chunk_size (env_insert_extra_cols env) (t_meta t)"
    using meta mut ty by (auto simp: meta_ok_def)
  have rg: "rg_inv memo n g" "rg_inv memo b other" using g(1) other(1) tm by (simp_all add: group_inv_def)
  have fresh: "\<forall>q \<in> set (rg_rows other). fresh_mod b q" using group_inv_fresh [OF other(1)] by blast
  note mutable = write_group_mutable [OF mut _ _ _ _ tm(3) small]
  have w1': "preps_ok (env_prep env (t_meta t)) (rg_rows g)" "rows1 = apply_rows (t_meta t) (rg_rows g) (t_rows t)"
    using w1 mutable [OF table_inv_range_rows [OF inv mut], of g] rg(1) fits
    by (auto simp: rg_inv_def group_fits_def)
  have "h \<le> n \<or> rg_rows g = []" using g by (cases "rg_rows g") (auto simp: group_inv_def tm rg_inv_def)
  then have inv1: "table_inv (max h n) (t\<lparr>t_rows := rows1\<rparr>)"
    unfolding w1'(2) using table_inv_apply_rows [OF inv, of "rg_rows g" "max h n"] rg(1) by (auto simp: rg_inv_def)
  have w2': "preps_ok (env_prep env (t_meta t)) (rg_rows other)" "rows2 = apply_rows (t_meta t) (rg_rows other) rows1"
    using w2 mutable [OF table_inv_range_rows [OF inv1, simplified, OF mut], of other] rg(2) fits'
    by (auto simp: rg_inv_def group_fits_def)
  have eff: "apply_rows (t_meta t) (rg_rows g') (t_rows t) = rows2" "safe_rows (t_meta t) (rg_rows g') (t_rows t)"
    using append_rows_effect [OF fold tm(1) rg(1) mut fresh other(2,4)] fits fits' mut w1'(2) w2'(2)
    by (auto simp: group_fits_def)
  have "\<forall>r \<in> set (rg_rows g'). prep_ok (env_prep env (t_meta t)) r \<and> id_type_of (em_id r) = tm_id_type (t_meta t)"
    by (rule append_rows_props [OF fold tm(1) rg(1) fresh other(2)])
      (use w1'(1) w2'(1) fits fits' in \<open>auto simp: preps_ok_all group_fits_def typed_ids_def\<close>)
  then have p: "preps_ok (env_prep env (t_meta t)) (rg_rows g')" "typed_ids (t_meta t) (rg_rows g')"
    by (auto simp: preps_ok_all typed_ids_def)
  have "group_inv fl memo f b g'"
    using rg_append_inv [OF g(1) ap other(2,3)] fresh other(1) by (auto simp: group_inv_def)
  then have rg': "rg_inv memo b g'" "\<forall>r \<in> set (rg_rows g'). h \<le> em_block r"
    using rg_append_inv [OF g(1) ap other(2,3)] fresh other(1) tm g(2) by (auto simp: group_inv_def)
  show ?thesis
    using mutable [OF table_inv_range_rows [OF inv mut], of g'] rg'(1) p eff clamp_fits_above [OF inv rg'(2)]
    by (auto simp: rg_inv_def group_fits_def)
qed

lemma append_rows_immutable:
  assumes "mut_fold (append_row fl memo) g qs = (g', Ok ())" "tf_is_immutable fl (rg_entity_type g)"
    "\<not> tf_skip_duplicates fl (rg_entity_type g)"
  shows "rg_rows g' = rg_rows g @ qs \<and> rg_entity_type g' = rg_entity_type g"
  using assms
proof (induction qs arbitrary: g)
  case (Cons q qs)
  obtain h r where h: "append_row fl memo g q = (h, r)" by fastforce
  with Cons.prems(1) have r: "r = Ok ()" and g': "mut_fold (append_row fl memo) h qs = (g', Ok ())"
    by (auto split: outcome.splits)
  have "h = push_row memo g q"
    using h r Cons.prems(2,3) by (cases q) (auto simp: append_row_def append_immutable_def split: option.splits if_splits)
  then show ?case using Cons.IH [OF g'] Cons.prems(2,3) by simp
qed simp

lemma append_group_immutable:
  assumes ap: "rg_append fl memo g other = (g', Ok ())" and imm: "tm_immutable (t_meta t)"
    and meta: "meta_ok fl env (rg_entity_type g) (t_meta t)" and small: "\<forall>c. \<not> env_too_large env c"
    and fits: "group_fits t g" and fits': "group_fits (t\<lparr>t_rows := rows1\<rparr>) other"
    and w1: "env_write_group env t g = Some (Ok rows1)"
    and w2: "env_write_group env (t\<lparr>t_rows := rows1\<rparr>) other = Some (Ok rows2)"
  shows "env_write_group env t g' = Some (Ok rows2) \<and> group_fits t g'"
proof -
  let ?m = "t_meta t"
  have m: "\<not> tm_skip_duplicates ?m" "0 < insert_chunk_size (env_insert_extra_cols env) ?m"
    "tf_is_immutable fl (rg_entity_type g)" "\<not> tf_skip_duplicates fl (rg_entity_type g)"
    using meta imm by (auto simp: meta_ok_def)
  have rows: "rg_rows g' = rg_rows g @ rg_rows other"
    using append_rows_immutable [OF _ m(3,4)] ap by (auto simp: rg_append_def split: if_splits)
  note eq = write_group_immutable [OF imm m(1,2) small]
  have "map v_id (concat (map (row_versions ?m) rs)) = map ew_id (all_writes rs)" for rs :: "'a entity_modification list"
    by (simp add: map_all_writes [symmetric] comp_def new_version_def)
  then have v: "v_id ` set (concat (map (row_versions ?m) rs)) = ew_id ` set (all_writes rs)" for rs :: "'a entity_modification list"
    by (metis list.set_map)
  have "all_writes (rg_rows g @ rg_rows other) = all_writes (rg_rows g) @ all_writes (rg_rows other)"
    by (simp add: List.map_filter_def)
  moreover have "has_clamps g' \<longleftrightarrow> has_clamps g \<or> has_clamps other" by (auto simp: has_clamps_def rows)
  ultimately show ?thesis
    using w1 w2 eq [of "env_prep env ?m" g "t_rows t" rows1] eq [of "env_prep env ?m" other rows1 rows2] fits fits' imm
    by (auto simp: eq rows ids_ok_def preps_ok_def group_fits_def typed_ids_def v [simplified] image_Un)
qed

lemma append_group_writes:
  assumes "rg_append fl memo g other = (g', Ok ())"
    "meta_ok fl env (rg_entity_type g) (t_meta t)" "\<forall>c. \<not> env_too_large env c"
    "table_inv h t" "group_inv fl memo f n g" "h < f" "group_fits t g"
    "group_inv fl memo b b other" "n \<le> b" "f \<le> b" "b \<le> BLOCK_NUMBER_MAX"
    "env_write_group env t g = Some (Ok rows1)" "group_fits (t\<lparr>t_rows := rows1\<rparr>) other"
    "env_write_group env (t\<lparr>t_rows := rows1\<rparr>) other = Some (Ok rows2)"
  shows "env_write_group env t g' = Some (Ok rows2) \<and> group_fits t g'"
  using append_group_mutable [OF assms(1) _ assms(2-14)] append_group_immutable [OF assms(1) _ assms(2,3,7,13,12,14)]
  by blast

lemma write_group_new:
  assumes "meta_ok fl env u (t_meta t)" "\<forall>c. \<not> env_too_large env c" "table_inv h t"
  shows "env_write_group env t (row_group_new v) = Some (Ok (t_rows t)) \<and> group_fits t (row_group_new v)"
proof (cases "tm_immutable (t_meta t)")
  case True
  then have "\<not> tm_skip_duplicates (t_meta t)" "0 < insert_chunk_size (env_insert_extra_cols env) (t_meta t)"
    using assms(1) by (auto simp: meta_ok_def)
  from write_group_immutable [OF True this assms(2)] show ?thesis
    by (simp add: row_group_new_def group_fits_def typed_ids_def preps_ok_def ids_ok_def has_clamps_def map_filter_simps)
next
  case False
  have "0 < insert_chunk_size (env_insert_extra_cols env) (t_meta t)" using assms(1) by (auto simp: meta_ok_def)
  from write_group_mutable [OF False table_inv_range_rows [OF assms(3) False] _ _ _ this assms(2), of "row_group_new v"]
  show ?thesis
    by (simp add: row_group_new_def group_fits_def typed_ids_def preps_ok_def row_chains_def clamp_fits_def clamp_map_def
        version_fits_def map_filter_simps)
qed

section \<open>All groups\<close>

definition group_or_new :: "'e row_groups \<Rightarrow> entity_type \<Rightarrow> 'e row_group" where
  "group_or_new gs t = (case rgs_group gs t of Some g \<Rightarrow> g | None \<Rightarrow> row_group_new t)"

lemma group_or_new_type [simp]: "rg_entity_type (group_or_new gs t) = t"
  by (auto simp: group_or_new_def row_group_new_def split: option.split dest: rgs_group_Some)

lemma rgs_group_Cons: "rgs_group (g # gs) t = (if rg_entity_type g = t then Some g else rgs_group gs t)"
  by (simp add: rgs_group_def)

lemma update_group_lookup:
  assumes "update_group f t gs = (gs', r)" "\<And>g. rg_entity_type g = t \<Longrightarrow> rg_entity_type (fst (f g)) = t"
  shows "f (group_or_new gs t) = (group_or_new gs' t, r) \<and> rgs_group gs' t = Some (group_or_new gs' t) \<and>
    (\<forall>u. u \<noteq> t \<longrightarrow> rgs_group gs' u = rgs_group gs u)"
  using assms(1)
proof (induction gs arbitrary: gs')
  case Nil
  moreover obtain g q where "f (row_group_new t) = (g, q)" by fastforce
  ultimately show ?case
    using assms(2) [of "row_group_new t"] by (auto simp: group_or_new_def rgs_group_def row_group_new_def)
next
  case (Cons g gs)
  show ?case
  proof (cases "rg_entity_type g = t")
    case True
    obtain h q where "f g = (h, q)" by fastforce
    with True Cons.prems assms(2) [of g] show ?thesis by (auto simp: group_or_new_def rgs_group_Cons)
  next
    case False
    obtain hs q where "update_group f t gs = (hs, q)" by fastforce
    with False Cons show ?thesis by (auto simp: group_or_new_def rgs_group_Cons)
  qed
qed

lemma rg_append_type: "rg_entity_type (fst (rg_append fl memo g other)) = rg_entity_type g"
proof -
  have "rg_entity_type (fst (mut_fold (append_row fl memo) g (rg_rows other))) = rg_entity_type g"
    by (rule mut_fold_invariant [where P = "\<lambda>h. rg_entity_type h = rg_entity_type g"]) (auto dest: append_row_type)
  then show ?thesis by (simp add: rg_append_def)
qed

lemma rgs_append_lookup:
  assumes "rgs_append fl memo gs others = (gs', Ok ())" "distinct (map rg_entity_type others)"
  shows "case rgs_group others u of
      None \<Rightarrow> rgs_group gs' u = rgs_group gs u
    | Some other \<Rightarrow> \<exists>g'. rg_append fl memo (group_or_new gs u) other = (g', Ok ()) \<and> rgs_group gs' u = Some g'"
  using assms
proof (induction others arbitrary: gs)
  case Nil
  then show ?case by (simp add: rgs_append_def rgs_group_def)
next
  case (Cons other others)
  let ?t = "rg_entity_type other"
  obtain hs r where u: "update_group (\<lambda>g. rg_append fl memo g other) ?t gs = (hs, r)" by fastforce
  with Cons.prems(1) have r: "r = Ok ()" and hs: "rgs_append fl memo hs others = (gs', Ok ())"
    by (auto simp: rgs_append_def split: outcome.splits)
  have l: "rg_append fl memo (group_or_new gs ?t) other = (group_or_new hs ?t, Ok ())" "rgs_group hs ?t = Some (group_or_new hs ?t)"
    "\<And>v. v \<noteq> ?t \<Longrightarrow> rgs_group hs v = rgs_group gs v"
    using update_group_lookup [OF u] r by (simp_all add: rg_append_type)
  have IH: "case rgs_group others u of
      None \<Rightarrow> rgs_group gs' u = rgs_group hs u
    | Some other \<Rightarrow> \<exists>g'. rg_append fl memo (group_or_new hs u) other = (g', Ok ()) \<and> rgs_group gs' u = Some g'"
    using Cons.IH [OF hs] Cons.prems(2) by simp
  show ?case
  proof (cases "u = ?t")
    case True
    then have "rgs_group others u = None" using Cons.prems(2) by (simp add: rgs_group_None)
    with IH l True show ?thesis by (simp add: rgs_group_Cons)
  next
    case False
    then have "group_or_new hs u = group_or_new gs u" using l(3) by (simp add: group_or_new_def)
    with IH l(3) [OF False] False show ?thesis by (simp add: rgs_group_Cons split: option.splits)
  qed
qed

text \<open>If every group can be written into its table, and no interfaces are shared, the loop succeeds.\<close>

lemma apply_group_succeeds:
  assumes "map_of l (rg_entity_type g) = Some t" "env_write_group env t g = Some (Ok rows)" "distinct (map fst l)"
    "env_share_interfaces env (rg_entity_type g) = []"
  shows "apply_group show_id env (l, c) g = Some (Ok (set_rows (rg_entity_type g) rows l, c + rg_entity_count_change g))"
proof -
  from assms(2) obtain rows1 where r: "delete_group (t_meta t) g (t_rows t) = Ok rows1"
    "insert_group (env_prep env (t_meta t)) (env_too_large env) (env_insert_extra_cols env) (t_meta t) g rows1 = Some (Ok rows)"
    by (auto simp: write_group_Ok)
  define l1 where "l1 = (if has_clamps g then set_rows (rg_entity_type g) rows1 l else l)"
  have "layout_delete l g = Ok l1"
    using r(1) assms(1) by (simp add: layout_delete_def table_for_entity_def l1_def outcome_simps)
  moreover have "map_of l1 (rg_entity_type g) = Some (t\<lparr>t_rows := rows1\<rparr>)"
    using r(1) assms(1) by (auto simp: l1_def map_of_set_rows delete_group_def)
  moreover have "set_rows (rg_entity_type g) rows l1 = set_rows (rg_entity_type g) rows l"
    by (simp add: l1_def set_rows_twice)
  ultimately show ?thesis
    using r(2) assms(4)
    by (simp add: apply_group_def check_intf_uniqueness_def layout_insert_def table_for_entity_def and_then_opt_def)
qed

lemma apply_groups_succeed:
  assumes "\<forall>g \<in> set gs. \<exists>t rows. map_of l (rg_entity_type g) = Some t \<and> env_write_group env t g = Some (Ok rows)"
    "distinct (map rg_entity_type gs)" "distinct (map fst l)" "\<forall>t. env_share_interfaces env t = []"
  shows "\<exists>l' c'. try_fold_opt (apply_group show_id env) (l, c) gs = Some (Ok (l', c'))"
  using assms(1-3)
proof (induction gs arbitrary: l c)
  case (Cons g gs)
  then obtain t rows where t: "map_of l (rg_entity_type g) = Some t" "env_write_group env t g = Some (Ok rows)" by auto
  let ?l = "set_rows (rg_entity_type g) rows l"
  have "map_of ?l (rg_entity_type h) = map_of l (rg_entity_type h)" if "h \<in> set gs" for h
    using that Cons.prems(2) by (auto simp: map_of_set_rows image_iff)
  then have "\<forall>g \<in> set gs. \<exists>t rows. map_of ?l (rg_entity_type g) = Some t \<and> env_write_group env t g = Some (Ok rows)"
    using Cons.prems(1) by simp
  from Cons.IH [OF this, of "c + rg_entity_count_change g"] show ?case
    using apply_group_succeeds [OF t Cons.prems(3), of show_id c] Cons.prems(2,3) assms(4)
    by (simp add: and_then_opt_def)
qed simp

lemma map_of_entries: "distinct (map fst l) \<Longrightarrow> map (\<lambda>n. (n, the (map_of l n))) (map fst l) = l"
  unfolding list.map_comp by (rule map_idI) (auto simp: comp_def)

lemma map_of_inj:
  assumes "map fst l = map fst l'" "distinct (map fst l)" "\<And>n. map_of l n = map_of l' n"
  shows "l = l'"
  using map_of_entries [of l] map_of_entries [of l'] assms by simp

lemma rgs_group_mem: "distinct (map rg_entity_type gs) \<Longrightarrow> g \<in> set gs \<Longrightarrow> rgs_group gs (rg_entity_type g) = Some g"
  by (induction gs) (auto simp: rgs_group_Cons image_iff)

text \<open>Writing the groups also writes the empty group for each table that has none.\<close>

lemma group_or_new_written:
  assumes inv: "layout_inv fl env h l" and small: "\<forall>c. \<not> env_too_large env c"
    and gs: "groups_inv fl memo f n gs" "groups_fit l gs"
    and w: "apply_entity_modifications show_id env l gs = Some (Ok (l1, c1))" and t: "map_of l u = Some t"
  shows "\<exists>rows. map_of l1 u = Some (t\<lparr>t_rows := rows\<rparr>) \<and>
      env_write_group env t (group_or_new gs u) = Some (Ok rows) \<and> group_fits t (group_or_new gs u) \<and>
      group_inv fl memo f n (group_or_new gs u)"
proof -
  have d: "distinct (map rg_entity_type gs)" "distinct (map fst l)" using inv gs(1) by (auto simp: layout_inv_def groups_inv_def)
  note ok = apply_groups_Ok [OF w [unfolded apply_entity_modifications_def] d]
  show ?thesis
  proof (cases "rgs_group gs u")
    case None
    then have "map_of l1 u = Some t" using ok t by (simp add: rgs_group_None)
    moreover have "t\<lparr>t_rows := t_rows t\<rparr> = t" by simp
    ultimately show ?thesis
      using None write_group_new [OF _ small, of fl u t h u] layout_inv_table [OF inv t] group_inv_new
      by (force simp: group_or_new_def)
  next
    case (Some g)
    then have "g \<in> set gs" "rg_entity_type g = u" by (auto dest: rgs_group_Some)
    with ok gs t Some show ?thesis by (fastforce simp: group_or_new_def groups_inv_def groups_fit_def)
  qed
qed

lemma append_groups_each:
  assumes ap: "rgs_append fl memo gs others = (gs', Ok ())" and inv: "layout_inv fl env h l"
    and small: "\<forall>c. \<not> env_too_large env c"
    and gs: "groups_inv fl memo f n gs" "h < f" "groups_fit l gs"
    and others: "groups_inv fl memo b b others" "n \<le> b" "f \<le> b" "b \<le> BLOCK_NUMBER_MAX"
    and w1: "apply_entity_modifications show_id env l gs = Some (Ok (l1, c1))" and fits1: "groups_fit l1 others"
    and w2: "apply_entity_modifications show_id env l1 others = Some (Ok (l2, c2))"
  shows "case rgs_group gs' u of
      None \<Rightarrow> map_of l2 u = map_of l u
    | Some g \<Rightarrow> \<exists>t rows. map_of l u = Some t \<and> env_write_group env t g = Some (Ok rows) \<and>
        map_of l2 u = Some (t\<lparr>t_rows := rows\<rparr>) \<and> group_fits t g"
proof -
  have d: "distinct (map fst l)" "distinct (map rg_entity_type gs)" "distinct (map rg_entity_type others)"
    using inv gs(1) others(1) by (auto simp: layout_inv_def groups_inv_def)
  note ok1 = apply_groups_Ok [OF w1 [unfolded apply_entity_modifications_def] d(2,1)]
  have d1: "distinct (map fst l1)" using ok1 d(1) by simp
  note ok2 = apply_groups_Ok [OF w2 [unfolded apply_entity_modifications_def] d(3) d1]
  note look = rgs_append_lookup [OF ap d(3), of u]
  show ?thesis
  proof (cases "rgs_group others u")
    case None
    then have "rgs_group gs' u = rgs_group gs u" using look by simp
    moreover have "map_of l2 u = map_of l1 u" using ok2 None by (simp add: rgs_group_None)
    moreover have "map_of l1 u = map_of l u" if "rgs_group gs u = None" using ok1 that by (simp add: rgs_group_None)
    moreover have "\<exists>t rows. map_of l u = Some t \<and> env_write_group env t g = Some (Ok rows) \<and>
        map_of l1 u = Some (t\<lparr>t_rows := rows\<rparr>) \<and> group_fits t g" if "rgs_group gs u = Some g" for g
      using ok1 gs(3) rgs_group_Some [OF that] by (fastforce simp: groups_fit_def)
    ultimately show ?thesis by (simp split: option.split)
  next
    case (Some other)
    then obtain g where g: "rg_append fl memo (group_or_new gs u) other = (g, Ok ())" "rgs_group gs' u = Some g" using look by auto
    have o: "other \<in> set others" "rg_entity_type other = u" using rgs_group_Some [OF Some] by auto
    then obtain t1 rows2 where t1: "map_of l1 u = Some t1" "env_write_group env t1 other = Some (Ok rows2)"
      "map_of l2 u = Some (t1\<lparr>t_rows := rows2\<rparr>)" using ok2 by blast
    have "fst ` set l1 = fst ` set l" using ok1 by (metis list.set_map)
    then have "map_of l u \<noteq> None" using t1(1) by (metis map_of_eq_None_iff option.distinct(1))
    then obtain t where t: "map_of l u = Some t" by blast
    obtain rows1 where r: "t1 = t\<lparr>t_rows := rows1\<rparr>" "env_write_group env t (group_or_new gs u) = Some (Ok rows1)"
      "group_fits t (group_or_new gs u)" "group_inv fl memo f n (group_or_new gs u)"
      using group_or_new_written [OF inv small gs(1,3) w1 t] t1(1) by auto
    have "group_fits t1 other" "group_inv fl memo b b other"
      using fits1 o t1(1) others(1) by (auto simp: groups_fit_def groups_inv_def)
    then have "env_write_group env t g = Some (Ok rows2) \<and> group_fits t g"
      using append_group_writes [OF g(1) _ small _ r(4) gs(2) r(3) _ others(2-4) r(2)]
        layout_inv_table [OF inv t] t1(2) r(1) by simp
    with g(2) t t1(3) r(1) show ?thesis by simp
  qed
qed

lemma append_groups_write:
  assumes ap: "rgs_append fl memo gs others = (gs', Ok ())" and inv: "layout_inv fl env h l"
    and small: "\<forall>c. \<not> env_too_large env c" and intf: "\<forall>t. env_share_interfaces env t = []"
    and gs: "groups_inv fl memo f n gs" "h < f" "groups_fit l gs"
    and others: "groups_inv fl memo b b others" "n \<le> b" "f \<le> b" "b \<le> BLOCK_NUMBER_MAX"
    and w1: "apply_entity_modifications show_id env l gs = Some (Ok (l1, c1))" and fits1: "groups_fit l1 others"
    and w2: "apply_entity_modifications show_id env l1 others = Some (Ok (l2, c2))"
  shows "\<exists>c. apply_entity_modifications show_id env l gs' = Some (Ok (l2, c)) \<and> groups_fit l gs'"
proof -
  have d: "distinct (map fst l)" "distinct (map rg_entity_type gs)" "distinct (map rg_entity_type others)"
    using inv gs(1) others(1) by (auto simp: layout_inv_def groups_inv_def)
  note each = append_groups_each [OF ap inv small gs others w1 fits1 w2]
  have "groups_inv fl memo f b gs'"
    using rgs_append_inv [OF gs(1) ap others(2,3)] others(1) group_inv_fresh by (fastforce simp: groups_inv_def group_inv_def)
  then have d': "distinct (map rg_entity_type gs')" by (simp add: groups_inv_def)
  have in_gs': "\<exists>t rows. map_of l (rg_entity_type g) = Some t \<and> env_write_group env t g = Some (Ok rows) \<and>
      map_of l2 (rg_entity_type g) = Some (t\<lparr>t_rows := rows\<rparr>) \<and> group_fits t g" if "g \<in> set gs'" for g
    using each [of "rg_entity_type g"] rgs_group_mem [OF d' that] by simp
  obtain l' c where w: "apply_entity_modifications show_id env l gs' = Some (Ok (l', c))"
    using apply_groups_succeed [OF _ d' d(1) intf] in_gs' unfolding apply_entity_modifications_def by blast
  note ok' = apply_groups_Ok [OF w [unfolded apply_entity_modifications_def] d' d(1)]
  have "map_of l' u = map_of l2 u" for u
  proof (cases "rgs_group gs' u")
    case None
    then have "map_of l2 u = map_of l u" using each [of u] by simp
    moreover have "map_of l' u = map_of l u" using ok' None by (simp add: rgs_group_None)
    ultimately show ?thesis by simp
  next
    case (Some g)
    then have g: "g \<in> set gs'" "u = rg_entity_type g" by (auto dest: rgs_group_Some)
    show ?thesis using in_gs' [OF g(1)] ok' g by fastforce
  qed
  moreover have "map fst l' = map fst l2"
    using ok' apply_groups_Ok [OF w1 [unfolded apply_entity_modifications_def] d(2,1)]
      apply_groups_Ok [OF w2 [unfolded apply_entity_modifications_def] d(3)] d(1) by simp
  ultimately have "l' = l2" using map_of_inj [of l' l2] ok' d(1) by auto
  moreover have "groups_fit l gs'" using in_gs' by (fastforce simp: groups_fit_def)
  ultimately show ?thesis using w by blast
qed

lemma try_from_iter_ref_as_ids: "\<exists>m. try_from_iter_ref (as_ids l) = Ok m \<and> as_ids m = as_ids l"
proof (cases "as_ids l")
  case (Cons i ids)
  then show ?thesis
    by (intro exI [of _ l]) (cases l; force simp: try_from_iter_ref_def collect_ids_simps map_eq_Cons_conv outcome_simps)
qed (simp add: try_from_iter_ref_def)

text \<open>Groups have no operation before their first block.\<close>

lemma groups_last_op_before:
  assumes "groups_inv fl memo f n gs" "x < f"
  shows "groups_last_op gs key x = None"
proof -
  have "rg_last_op False g key x = None" if "g \<in> set gs" for g
  proof -
    have "\<forall>r \<in> set (rg_rows g). x < em_block r" using that assms by (force simp: groups_inv_def group_inv_def)
    then show ?thesis by (auto simp: rg_last_op_scan rfind_None_iff)
  qed
  then show ?thesis by (cases "rgs_group gs (k_entity_type key)") (auto simp: groups_last_op_def dest: rgs_group_Some)
qed

section \<open>Example data\<close>

definition example_meta :: table_meta where
  "example_meta = \<lparr>tm_object = ''Account'', tm_immutable = False, tm_skip_duplicates = False, tm_has_causality_region = False,
     tm_is_account_like = False, tm_has_vid_seq = False, tm_columns = [Some 1, None], tm_id_type = ID_String\<rparr>"

definition example_env :: "nat store_env" where
  "example_env = \<lparr>env_prep = (\<lambda>_ _ _. Ok ()), env_too_large = (\<lambda>_. False), env_insert_extra_cols = 0, env_share_interfaces = (\<lambda>_. [])\<rparr>"

definition example_table :: "nat version list \<Rightarrow> nat table" where
  "example_table rows = \<lparr>t_meta = example_meta, t_rows = rows\<rparr>"

definition example_layout :: "nat version list \<Rightarrow> nat layout" where
  "example_layout rows = [(''Account'', example_table rows)]"

definition example_row :: "string \<Rightarrow> int4range \<Rightarrow> nat \<Rightarrow> nat version" where
  "example_row i r e = \<lparr>v_id = StringId i, v_region = ONCHAIN, v_block = RangeCol r, v_data = e\<rparr>"

definition example_group :: "nat entity_modification list \<Rightarrow> nat row_group" where
  "example_group rs = \<lparr>rg_entity_type = ''Account'', rg_rows = rs, rg_last_mod = [StringId ''x'' \<mapsto> length rs - 1]\<rparr>"

lemma example_store_simps [simp]:
  "tm_immutable example_meta = False" "tm_id_type example_meta = ID_String" "tm_has_causality_region example_meta = False"
  "env_prep example_env = (\<lambda>_ _ _. Ok ())" "env_too_large example_env = (\<lambda>_. False)" "env_share_interfaces example_env = (\<lambda>_. [])"
  "t_meta (example_table rows) = example_meta" "t_rows (example_table rows) = rows"
  "(example_table rows)\<lparr>t_rows := rows'\<rparr> = example_table rows'"
  "map_of (example_layout rows) ''Account'' = Some (example_table rows)"
  "v_id (example_row i r e) = StringId i" "v_block (example_row i r e) = RangeCol r" "v_data (example_row i r e) = e"
  "v_region (example_row i r e) = ONCHAIN" "rg_entity_type (example_group rs) = ''Account''" "rg_rows (example_group rs) = rs"
  by (simp_all add: example_meta_def example_env_def example_table_def example_layout_def example_row_def example_group_def)

lemma example_meta_ok: "meta_ok example_flags example_env ''Account'' example_meta"
  by (simp add: meta_ok_def example_meta_def example_flags_def example_env_def insert_chunk_size_def bind_count_def POSTGRES_MAX_PARAMETERS_def)

lemma example_layout_inv:
  "\<forall>v \<in> set rows. version_ok example_meta h v \<Longrightarrow> layout_inv example_flags example_env h (example_layout rows)"
  using example_meta_ok by (simp add: layout_inv_def example_layout_def table_inv_def)

lemma example_write:
  assumes "range_rows rows" "typed_ids example_meta rs" "row_chains rs" "\<forall>r \<in> set rs. end_ok r" "clamp_fits (clamp_map rs) rows"
  shows "apply_entity_modifications show_id example_env (example_layout rows) [example_group rs] =
    Some (Ok (example_layout (apply_rows example_meta rs rows), rg_entity_count_change (example_group rs)))"
proof -
  have "0 < insert_chunk_size (env_insert_extra_cols example_env) example_meta" using example_meta_ok by (simp add: meta_ok_def)
  then have "env_write_group example_env (example_table rows) (example_group rs) = Some (Ok (apply_rows example_meta rs rows))"
    using assms write_group_mutable [of example_meta rows "example_group rs"] by (simp add: preps_ok_def)
  moreover have "distinct (map fst (example_layout rows))" "set_rows ''Account'' rows' (example_layout rows) = example_layout rows'" for rows'
    by (simp_all add: example_layout_def set_rows_def)
  ultimately show ?thesis
    using apply_group_succeeds [of "example_layout rows" "example_group rs" "example_table rows" example_env _ show_id 0]
    by (simp add: apply_entity_modifications_def and_then_opt_def)
qed

lemma example_row_chains [simp]: "row_chains [r]"
  by (simp add: row_chains_def)

section \<open>Properties\<close>

text \<open>
  C7 (batching changes nothing). A batch \<open>a\<close> and the changes \<open>b\<close> of a later block that can be written
  one after the other can be appended and written at once, and the tables are the same ones, row
  by row. The tables are up to a block before the batch, ids have the type of their table, an
  insertion is for an entity that does not exist, and no interface is shared between types.
\<close>

theorem batch_append_transparent:
  assumes sort: "unstable_sort mod_kind srt" and mods: "\<forall>m \<in> set mods. fresh_mod (bp_number ptr) m"
    and new: "batch_new fl memo srt weigh ptr time cursor mods dss errs offchain nonfatal = Ok b"
    and inv: "batch_inv fl memo a" and app: "batch_append fl memo weigh a b = (a', Ok ())"
    and l: "layout_inv fl env h l" "h < b_first_block a" and n: "bp_number ptr \<le> BLOCK_NUMBER_MAX"
    and small: "\<forall>c. \<not> env_too_large env c" and intf: "\<forall>t. env_share_interfaces env t = []"
    and w1: "groups_fit l (b_mods a)" "apply_entity_modifications show_id env l (b_mods a) = Some (Ok (l1, c1))"
    and w2: "groups_fit l1 (b_mods b)" "apply_entity_modifications show_id env l1 (b_mods b) = Some (Ok (l2, c2))"
  shows "\<exists>c. apply_entity_modifications show_id env l (b_mods a') = Some (Ok (l2, c)) \<and> groups_fit l (b_mods a')"
proof -
  have b: "groups_inv fl memo (bp_number ptr) (bp_number ptr) (b_mods b)" "b_block_ptr b = ptr"
    using batch_new_inv [OF sort mods new] by auto
  obtain gs r where g: "rgs_append fl memo (b_mods a) (b_mods b) = (gs, r)" by fastforce
  have "bp_number (b_block_ptr a) < bp_number ptr" "r = Ok ()" "b_mods a' = gs"
    using app b(2) g by (auto simp: batch_append_def batch_append_inner_def Let_def split: if_splits outcome.splits)
  with append_groups_write [OF _ l(1) small intf _ l(2) w1(1) b(1) _ _ n w1(2) w2] g inv show ?thesis
    by (force simp: batch_inv_def)
qed

lemma batch_append_transparent_witness:
  "\<exists>a b a' l2 c. example_batch_new 5 [Insert (example_key ''x'' 0) 1 5 None] = Ok a \<and>
     example_batch_new 6 [Overwrite (example_key ''x'' 0) 2 6 None] = Ok b \<and>
     batch_append example_flags True rgs_entity_count a b = (a', Ok ()) \<and>
     apply_entity_modifications (\<lambda>_. []) example_env (example_layout []) (b_mods a') = Some (Ok (l2, c)) \<and>
     l2 = example_layout [example_row ''x'' (Range 5 (Some 6)) 1, example_row ''x'' (Range 6 None) 2]"
proof -
  let ?k = "example_key ''x'' 0" and ?a = "Insert (example_key ''x'' 0) (1::nat) 5 None" and ?b = "Overwrite (example_key ''x'' 0) (2::nat) 6 None"
  obtain a where a: "example_batch_new 5 [?a] = Ok a" "b_block_ptr a = example_ptr 5" "b_first_block a = 5" "b_mods a = [example_group [?a]]"
    by (simp add: example_batch_new_def batch_eval example_group_def)
  obtain b where b: "example_batch_new 6 [?b] = Ok b" and b': "b_block_ptr b = example_ptr 6" "b_mods b = [example_group [?b]]"
    by (simp add: example_batch_new_def batch_eval example_group_def)
  have "append_row example_flags True (example_group [?a]) ?b = (example_group [Insert ?k 1 5 (Some 6), Insert ?k 2 6 None], Ok ())"
    by (simp add: batch_eval example_group_def)
  then obtain a' where a': "batch_append example_flags True rgs_entity_count a b = (a', Ok ())"
    using a(2,4) b' by (simp add: batch_append_def batch_append_inner_def rgs_append_def rg_append_def)
  have inv: "batch_inv example_flags True a"
    using batch_new_inv [OF sort_key_unstable _ a(1) [unfolded example_batch_new_def]]
    by (simp add: batch_inv_def fresh_mod_def example_ptr_def)
  let ?r1 = "[example_row ''x'' (Range 5 None) 1]" and ?r2 = "[example_row ''x'' (Range 5 (Some 6)) 1, example_row ''x'' (Range 6 None) 2]"
  have "apply_rows example_meta [?a] [] = ?r1"
    by (simp add: apply_row_def row_versions_def new_version_def example_row_def em_id_def)
  then have w1: "apply_entity_modifications (\<lambda>_. []) example_env (example_layout []) (b_mods a) = Some (Ok (example_layout ?r1, 1))"
    using example_write [of "[]" "[?a]" "\<lambda>_. []"]
    by (simp add: a(4) range_rows_def typed_ids_def em_id_def end_ok_def clamp_fits_def rg_entity_count_change_def)
  have "apply_rows example_meta [?b] ?r1 = ?r2"
    by (simp add: apply_row_def row_versions_def new_version_def example_row_def em_id_def close_id_def close_one_def v_open_def
        close_version_def BLOCK_NUMBER_MAX_def)
  then have w2: "apply_entity_modifications (\<lambda>_. []) example_env (example_layout ?r1) (b_mods b) = Some (Ok (example_layout ?r2, 0))"
    using example_write [of ?r1 "[?b]" "\<lambda>_. []"]
    by (simp add: b'(2) range_rows_def typed_ids_def em_id_def end_ok_def clamp_fits_def rg_entity_count_change_def version_fits_def clamp_map_def)
  have fits: "groups_fit (example_layout []) (b_mods a)" "groups_fit (example_layout ?r1) (b_mods b)"
    by (simp_all add: groups_fit_def group_fits_def typed_ids_def a(4) b'(2) em_id_def no_open_def)
  have "\<exists>c. apply_entity_modifications (\<lambda>_. []) example_env (example_layout []) (b_mods a') = Some (Ok (example_layout ?r2, c)) \<and>
      groups_fit (example_layout []) (b_mods a')"
    by (rule batch_append_transparent [OF sort_key_unstable _ b [unfolded example_batch_new_def] inv a', where h = 0])
      (use w1 w2 fits in \<open>simp_all add: fresh_mod_def a(3) BLOCK_NUMBER_MAX_def example_layout_inv\<close>)
  with a(1) b a' show ?thesis by blast
qed

text \<open>
  C8 (lookups after writing). After the groups of a well-formed batch have been written, a lookup
  at any block finds the entity that the last operation of the batch at or before that block
  left there, and what it found before the write if there is none; the tables are in order up to
  the block of the batch.
\<close>

theorem write_then_find:
  assumes "apply_entity_modifications show_id env l (b_mods b) = Some (Ok (l', c))"
    and "layout_inv fl env h l" "batch_inv fl memo b" "h < b_first_block b" "bp_number (b_block_ptr b) \<le> BLOCK_NUMBER_MAX"
    and "\<forall>c. \<not> env_too_large env c" "groups_fit l (b_mods b)"
    and "\<forall>g \<in> set (b_mods b). same_key key g" "x \<le> BLOCK_NUMBER_MAX"
  shows "layout_inv fl env (bp_number (b_block_ptr b)) l' \<and>
    layout_find l' key x = (case batch_last_op False b key x of Some op \<Rightarrow> Ok (op_value op) | None \<Rightarrow> layout_find l key x)"
  using layout_write_law [OF assms(1,2,6) _ assms(4) _ assms(5,7), of memo key x] assms(3,8,9)
  by (simp add: batch_inv_def batch_last_op_def groups_last_op_def)

text \<open>The batch of the examples: \<open>x\<close>, which has an open version since block 3, is overwritten at block 5.\<close>

definition example_batch :: "(nat, nat, nat) batch" where
  "example_batch =
     \<lparr>b_block_ptr = example_ptr 5, b_block_times = [(5, 0)], b_first_block = 5, b_firehose_cursor = None,
      b_mods = [example_group [Overwrite (example_key ''x'' 0) 7 5 None]], b_data_sources = [], b_deterministic_errors = [],
      b_offchain_to_remove = [], b_error = None, b_is_non_fatal_errors_active = False, b_indirect_weight = 0\<rparr>"

abbreviation "example_rows_before \<equiv> [example_row ''x'' (Range 3 None) 6]"
abbreviation "example_rows_after \<equiv> [example_row ''x'' (Range 3 (Some 5)) 6, example_row ''x'' (Range 5 None) 7]"

lemma example_batch_ok:
  "batch_inv example_flags True example_batch" "b_first_block example_batch = 5" "bp_number (b_block_ptr example_batch) = 5"
  "layout_inv example_flags example_env 4 (example_layout example_rows_before)"
  "groups_fit (example_layout example_rows_before) (b_mods example_batch)"
  "apply_entity_modifications show_id example_env (example_layout example_rows_before) (b_mods example_batch) =
     Some (Ok (example_layout example_rows_after, 0))"
  "\<forall>g \<in> set (b_mods example_batch). same_key (example_key ''x'' 0) g"
proof -
  let ?m = "Overwrite (example_key ''x'' 0) (7::nat) 5 None"
  have m: "b_mods example_batch = [example_group [?m]]" "b_block_ptr example_batch = example_ptr 5" "b_first_block example_batch = 5"
    by (simp_all add: example_batch_def)
  then show "b_first_block example_batch = 5" "bp_number (b_block_ptr example_batch) = 5" by simp_all
  show "batch_inv example_flags True example_batch"
    by (simp add: m batch_inv_def groups_inv_def group_inv_def rg_inv_def last_mod_ok_def example_group_def end_ok_def em_id_def fun_eq_iff)
  show "layout_inv example_flags example_env 4 (example_layout example_rows_before)"
    by (intro example_layout_inv) (simp add: version_ok_def)
  show "groups_fit (example_layout example_rows_before) (b_mods example_batch)"
    by (simp add: m groups_fit_def group_fits_def typed_ids_def em_id_def)
  have "apply_rows example_meta [?m] example_rows_before = example_rows_after"
    by (simp add: apply_row_def row_versions_def new_version_def example_row_def em_id_def close_id_def close_one_def v_open_def
        close_version_def BLOCK_NUMBER_MAX_def)
  then show "apply_entity_modifications show_id example_env (example_layout example_rows_before) (b_mods example_batch) =
     Some (Ok (example_layout example_rows_after, 0))"
    using example_write [of example_rows_before "[?m]" show_id]
    by (simp add: m range_rows_def typed_ids_def em_id_def end_ok_def clamp_fits_def rg_entity_count_change_def version_fits_def clamp_map_def)
  show "\<forall>g \<in> set (b_mods example_batch). same_key (example_key ''x'' 0) g"
    by (simp add: m same_key_def)
qed

lemma write_then_find_witness:
  "layout_find (example_layout example_rows_after) (example_key ''x'' 0) 9 =
     (case batch_last_op False example_batch (example_key ''x'' 0) 9 of
        Some op \<Rightarrow> Ok (op_value op) | None \<Rightarrow> layout_find (example_layout example_rows_before) (example_key ''x'' 0) 9)"
  using write_then_find [OF example_batch_ok(6) example_batch_ok(4,1) _ _ _ example_batch_ok(5,7)] example_batch_ok(2,3)
  by (simp add: BLOCK_NUMBER_MAX_def)

text \<open>
  C9 (reverting undoes writing). If a batch has been written into tables that were up to block \<open>h\<close>,
  reverting the blocks after \<open>h\<close> succeeds, gives tables that are up to \<open>h\<close> again, and gives a lookup at
  any block the result that it had before the write.
\<close>

theorem write_then_revert:
  assumes "apply_entity_modifications show_id env l (b_mods b) = Some (Ok (l', c))"
    and "layout_inv fl env h l" "batch_inv fl memo b" "h < b_first_block b" "bp_number (b_block_ptr b) < BLOCK_NUMBER_MAX"
    and "\<forall>c. \<not> env_too_large env c" "groups_fit l (b_mods b)"
    and "\<forall>g \<in> set (b_mods b). same_key key g" "x \<le> BLOCK_NUMBER_MAX"
  shows "\<exists>l'' c''. layout_revert_block l' (h + 1) = Ok (l'', c'') \<and> layout_inv fl env h l'' \<and>
    layout_find l'' key x = layout_find l key x"
proof -
  let ?n = "bp_number (b_block_ptr b)"
  have n: "?n \<le> BLOCK_NUMBER_MAX" "h < ?n" using assms(3-5) by (auto simp: batch_inv_def)
  have w: "layout_inv fl env ?n l' \<and> layout_find l' key (min x h) =
      (case groups_last_op (b_mods b) key (min x h) of Some op \<Rightarrow> Ok (op_value op) | None \<Rightarrow> layout_find l key (min x h))"
    using layout_write_law [OF assms(1,2,6) _ assms(4) _ n(1) assms(7), of memo key "min x h"] assms(3,8,9)
    by (simp add: batch_inv_def)
  have "groups_last_op (b_mods b) key (min x h) = None"
    using groups_last_op_before [of fl memo "b_first_block b" ?n "b_mods b"] assms(3,4) by (simp add: batch_inv_def)
  then have "layout_find l' key (min x h) = layout_find l key (min x h)" using w by simp
  also have "\<dots> = layout_find l key x"
    using layout_find_upto [OF assms(2), of x] assms(9) by (cases "x \<le> h") auto
  finally have f: "layout_find l' key (min x h) = layout_find l key x" .
  obtain l'' c'' where "layout_revert_block l' (h + 1) = Ok (l'', c'')" using layout_revert_eq by blast
  with layout_revert_law [OF this, of fl env ?n x key] w assms(5,9) n f show ?thesis by auto
qed

lemma write_then_revert_witness:
  "\<exists>l'' c''. layout_revert_block (example_layout example_rows_after) 5 = Ok (l'', c'') \<and>
     layout_find l'' (example_key ''x'' 0) 9 = layout_find (example_layout example_rows_before) (example_key ''x'' 0) 9"
  using write_then_revert [OF example_batch_ok(6) example_batch_ok(4,1) _ _ _ example_batch_ok(5,7), of 9] example_batch_ok(2,3)
  by (auto simp: BLOCK_NUMBER_MAX_def)

text \<open>
  C20 (what a revert keeps). Reverting the blocks after \<open>r\<close> never fails; after it the tables are in order
  up to \<open>r\<close>, and a lookup at any block finds what it found before at that block or at \<open>r\<close>,
  whichever comes first.
\<close>

theorem revert_keeps_history:
  assumes "layout_inv fl env h l" "h < BLOCK_NUMBER_MAX" "r < BLOCK_NUMBER_MAX" "x \<le> BLOCK_NUMBER_MAX"
  shows "\<exists>l' c. layout_revert_block l (r + 1) = Ok (l', c) \<and> layout_inv fl env r l' \<and>
    layout_find l' key x = layout_find l key (min x r)"
proof -
  obtain l' c where "layout_revert_block l (r + 1) = Ok (l', c)" using layout_revert_eq by blast
  with layout_revert_law [OF this assms(1-3)] assms(4) show ?thesis by blast
qed

lemma revert_keeps_history_witness:
  "\<exists>l' c. layout_revert_block (example_layout example_rows_after) (4 + 1) = Ok (l', c) \<and>
     layout_inv example_flags example_env 4 l' \<and>
     layout_find l' (example_key ''x'' 0) 9 = layout_find (example_layout example_rows_after) (example_key ''x'' 0) (min 9 4)"
  by (rule revert_keeps_history [where h = 5 and fl = example_flags and env = example_env])
    (auto simp: BLOCK_NUMBER_MAX_def version_ok_def intro!: example_layout_inv)

text \<open>
  C32 (ids are unique across an interface). If the tables of the types that share an interface with
  the type of a group exist and the ids of the group have one type, the check of the group fails
  exactly if one of these tables has a row with one of the ids, and the error names the type and
  the id of such a row.
\<close>

theorem conflicting_id_reported:
  assumes tabs: "\<forall>t \<in> set (env_share_interfaces env (rg_entity_type g)). map_of l t \<noteq> None"
    and meta: "\<forall>t tab. map_of l t = Some tab \<longrightarrow> tm_object (t_meta tab) = t"
    and ids: "\<forall>i \<in> set (rg_ids g). id_type_of i = ty"
  shows "case check_intf_uniqueness show_id env l g of
      Ok _ \<Rightarrow> \<forall>t \<in> set (env_share_interfaces env (rg_entity_type g)). \<forall>v \<in> set (t_rows (the (map_of l t))). v_id v \<notin> set (rg_ids g)
    | Err e \<Rightarrow> \<exists>t \<in> set (env_share_interfaces env (rg_entity_type g)). \<exists>v \<in> set (t_rows (the (map_of l t))).
        v_id v \<in> set (rg_ids g) \<and> e = ConflictingId (rg_entity_type g) (show_id (v_id v)) t
    | Panic _ \<Rightarrow> False"
proof -
  let ?ts = "env_share_interfaces env (rg_entity_type g)"
  have "try_map (table_for_entity l) ts = Ok (map (\<lambda>t. the (map_of l t)) ts)" if "\<forall>t \<in> set ts. map_of l t \<noteq> None" for ts
    using that by (auto simp: try_map_Ok list_all2_conv_all_nth table_for_entity_Ok)
  with tabs have t: "try_map (table_for_entity l) ?ts = Ok (map (\<lambda>t. the (map_of l t)) ?ts)" by blast
  obtain il where il: "rg_ids g = as_ids il" "id_list_type il = ty" using as_ids_of_type [OF ids] by blast
  obtain jl where jl: "try_from_iter_ref (rg_ids g) = Ok jl" "as_ids jl = rg_ids g"
    using try_from_iter_ref_as_ids [of il] il(1) by auto
  define found where "found = concat (map (\<lambda>t. map (\<lambda>v. (tm_object (t_meta t), v_id v))
      (filter (\<lambda>v. v_id v \<in> set (as_ids jl)) (t_rows t))) (map (\<lambda>t. the (map_of l t)) ?ts))"
  have c: "conflicting_entities l ?ts g = Ok (case found of [] \<Rightarrow> None | x # xs \<Rightarrow> Some (last (x # xs)))"
    using t jl(1) by (simp add: conflicting_entities_def conflicting_entities_query_def found_def)
  have mem: "\<exists>t \<in> set ?ts. \<exists>v \<in> set (t_rows (the (map_of l t))). v_id v \<in> set (rg_ids g) \<and> p = (t, v_id v)"
    if "p \<in> set found" for p
    using that meta tabs jl(2) unfolding found_def by fastforce
  show ?thesis
  proof (cases found)
    case Nil
    then have "\<forall>t \<in> set ?ts. \<forall>v \<in> set (t_rows (the (map_of l t))). v_id v \<notin> set (rg_ids g)"
      by (auto simp: found_def jl(2) filter_empty_conv)
    then show ?thesis using c Nil by (simp add: check_intf_uniqueness_def Let_def)
  next
    case (Cons p ps)
    then have "last (p # ps) \<in> set found" by (metis last_in_set list.distinct(1))
    from mem [OF this] obtain t v where tv: "t \<in> set ?ts" "v \<in> set (t_rows (the (map_of l t)))" "v_id v \<in> set (rg_ids g)"
      "last (p # ps) = (t, v_id v)" by blast
    have "?ts \<noteq> []" using tv(1) by auto
    then have "check_intf_uniqueness show_id env l g = Err (ConflictingId (rg_entity_type g) (show_id (v_id v)) t)"
      using c tv(4) unfolding Cons by (simp add: check_intf_uniqueness_def Let_def)
    with tv show ?thesis by auto
  qed
qed

lemma conflicting_id_reported_witness:
  "check_intf_uniqueness (\<lambda>_. ''x'') (example_env\<lparr>env_share_interfaces := \<lambda>_. [''Account'']\<rparr>) (example_layout example_rows_before)
     ((example_group [Insert (example_key ''x'' 0) 7 5 None])\<lparr>rg_entity_type := ''User''\<rparr>) =
   Err (ConflictingId ''User'' ''x'' ''Account'')"
proof -
  let ?env = "example_env\<lparr>env_share_interfaces := \<lambda>_. [''Account'']\<rparr>" and ?l = "example_layout example_rows_before"
    and ?g = "(example_group [Insert (example_key ''x'' 0) 7 5 None])\<lparr>rg_entity_type := ''User''\<rparr>"
  have g: "rg_entity_type ?g = ''User''" "set (rg_ids ?g) = {StringId ''x''}" by (simp_all add: rg_ids_def em_id_def)
  have "\<forall>t tab. map_of ?l t = Some tab \<longrightarrow> tm_object (t_meta tab) = t"
    by (simp add: example_layout_def example_meta_def)
  from conflicting_id_reported [of ?env ?g ?l ID_String "\<lambda>_. ''x''", OF _ this] show ?thesis
    by (cases "check_intf_uniqueness (\<lambda>_. ''x'') ?env ?l ?g") (simp_all add: g)
qed

end
