(* ===== verification/Data_Source_Store.thy ===== *)
theory Data_Source_Store
  imports Layouts "HOL-Library.Option_ord"
begin

text \<open>
  The dynamic data sources of a deployment, \<open>DataSourcesTable\<close> in
  \<open>store/postgres/src/dynds/private.rs\<close>: the table \<open>data_sources$\<close> with its load, insert, revert, copy
  and status operations. The table is a list of rows in the order of their \<open>vid\<close>. A block range is a
  lower bound and an upper bound, each of which may be absent; the lower bound belongs to the
  range and the upper bound does not, the form in which the database keeps integer ranges.
\<close>

section \<open>Rows\<close>

record dds =
  ds_manifest_idx :: "32 word"
  ds_param :: "bytes option"
  ds_context :: "string option"
  ds_creation_block :: "block_number option"
  ds_done_at :: "int option"
  ds_causality_region :: causality_region

record ds_row =
  dr_lower :: "block_number option"
  dr_upper :: "block_number option"
  dr_idx :: "32 word"
  dr_param :: "bytes option"
  dr_context :: "string option"
  dr_causality_region :: causality_region
  dr_done_at :: "int option"

definition dr_contains :: "ds_row \<Rightarrow> block_number \<Rightarrow> bool" where
  "dr_contains r b \<longleftrightarrow>
     (case dr_lower r of Some lo \<Rightarrow> lo \<le> b | None \<Rightarrow> True) \<and> (case dr_upper r of Some hi \<Rightarrow> b < hi | None \<Rightarrow> True)"

section \<open>Operations\<close>

text \<open>\<open>load\<close>: the rows that are live at the block, sorted by creation block; the sort is stable.\<close>

definition stored_of_row :: "ds_row \<Rightarrow> (dds, store_error) outcome" where
  "stored_of_row r =
     (case dr_lower r of
        Some b \<Rightarrow>
          Ok \<lparr>ds_manifest_idx = dr_idx r, ds_param = dr_param r, ds_context = dr_context r, ds_creation_block = Some b,
              ds_done_at = dr_done_at r, ds_causality_region = dr_causality_region r\<rparr>
      | None \<Rightarrow> Panic ''dds with open creation'')"

definition dynds_load :: "ds_row list \<Rightarrow> block_number \<Rightarrow> (dds list, store_error) outcome" where
  "dynds_load rows b =
     map_ok (sort_key ds_creation_block) (try_map stored_of_row (filter (\<lambda>r. dr_contains r b) rows))"

text \<open>\<open>insert\<close>: only on-chain data sources must have been created at the block of their entry.\<close>

definition row_of_stored :: "dds \<Rightarrow> ds_row" where
  "row_of_stored ds =
     \<lparr>dr_lower = ds_creation_block ds, dr_upper = None, dr_idx = ds_manifest_idx ds, dr_param = ds_param ds,
      dr_context = ds_context ds, dr_causality_region = ds_causality_region ds, dr_done_at = ds_done_at ds\<rparr>"

definition dynds_insert_one :: "block_number \<Rightarrow> ds_row list \<Rightarrow> dds \<Rightarrow> (ds_row list, store_error) outcome" where
  "dynds_insert_one b rows ds =
     (if ds_causality_region ds = ONCHAIN \<and> ds_creation_block ds \<noteq> Some b
      then Err (InternalError ''mismatching creation blocks'')
      else Ok (rows @ [row_of_stored ds]))"

definition dynds_insert :: "ds_row list \<Rightarrow> dds data_sources \<Rightarrow> (ds_row list, store_error) outcome" where
  "dynds_insert rows entries =
     try_fold (\<lambda>rows (ptr, dss). try_fold (dynds_insert_one (bp_number ptr)) rows dss) rows entries"

text \<open>\<open>revert\<close>: the rows whose range does not extend to the left of the block are deleted.\<close>

definition dynds_revert :: "ds_row list \<Rightarrow> block_number \<Rightarrow> ds_row list" where
  "dynds_revert rows b = filter (\<lambda>r. case dr_lower r of Some lo \<Rightarrow> lo < b | None \<Rightarrow> True) rows"

text \<open>
  \<open>update_offchain_status\<close>: a data source that is done is found by its causality region. The function in
  \<open>dynds/mod.rs\<close> does nothing if there are no data sources.
\<close>

definition set_done :: "ds_row list \<Rightarrow> dds \<Rightarrow> (ds_row list, store_error) outcome" where
  "set_done rows ds =
     (let hit = (\<lambda>r. dr_causality_region r = ds_causality_region ds);
          rows' = map (\<lambda>r. if hit r then r\<lparr>dr_done_at := ds_done_at ds\<rparr> else r) rows
      in if 1 < length (filter hit rows)
         then Err (InternalError ''expected to remove at most one offchain data source'')
         else Ok rows')"

definition dynds_update_offchain_status :: "ds_row list \<Rightarrow> dds data_sources \<Rightarrow> (ds_row list, store_error) outcome" where
  "dynds_update_offchain_status rows entries =
     (if data_sources_is_empty entries then Ok rows
      else try_fold (\<lambda>rows (_, dss). try_fold set_done rows dss) rows entries)"

text \<open>\<open>causality_region_curr_val\<close>: the largest region of all rows\<close>

definition causality_region_curr_val :: "ds_row list \<Rightarrow> causality_region option" where
  "causality_region_curr_val rows =
     (case map dr_causality_region rows of [] \<Rightarrow> None | c # cs \<Rightarrow> Some (fold max cs c))"

section \<open>Copying\<close>

text \<open>
  \<open>ManifestIdxMap\<close>: the index and name of a template of the source are mapped to the index that the
  template of that name has in the destination; a later entry for the same key wins.
\<close>

type_synonym manifest_names = "(32 word \<times> string) list"
type_synonym manifest_idx_map = "32 word \<Rightarrow> (32 word option \<times> string) option"

definition hash_map_from :: "('k \<times> 'v) list \<Rightarrow> 'k \<Rightarrow> 'v option" where
  "hash_map_from kvs = map_of (rev kvs)"

definition manifest_idx_map_new :: "manifest_names \<Rightarrow> manifest_names \<Rightarrow> manifest_idx_map" where
  "manifest_idx_map_new src dst =
     (let dst_idx_map = hash_map_from (map (\<lambda>(idx, name). (name, idx)) dst)
      in hash_map_from (map (\<lambda>(idx, name). (idx, (dst_idx_map name, name))) src))"

definition dst_idx :: "manifest_idx_map \<Rightarrow> 32 word \<Rightarrow> (32 word, store_error) outcome" where
  "dst_idx m src_idx =
     (case m src_idx of
        None \<Rightarrow> Err (Unknown ''the source does not have a template with this index'')
      | Some (None, _) \<Rightarrow> Err (Unknown ''the destination is missing a template'')
      | Some (Some i, _) \<Rightarrow> Ok i)"

text \<open>\<open>DsForCopy::src_to_dst\<close>: the range is opened if it ends after the target block.\<close>

definition src_to_dst :: "block_number \<Rightarrow> manifest_idx_map \<Rightarrow> ds_row \<Rightarrow> (ds_row, store_error) outcome" where
  "src_to_dst target m r =
     (let r' = (case dr_upper r of
                  Some hi \<Rightarrow> if target < hi - 1 then r\<lparr>dr_upper := None\<rparr> else r
                | None \<Rightarrow> r)
      in map_ok (\<lambda>i. r'\<lparr>dr_idx := i\<rparr>) (dst_idx m (dr_idx r)))"

definition COPY_BIND_PARAMS :: nat where
  "COPY_BIND_PARAMS = 6"

definition dynds_copy_to ::
  "ds_row list \<Rightarrow> ds_row list \<Rightarrow> block_number \<Rightarrow> manifest_names \<Rightarrow> manifest_names \<Rightarrow> (ds_row list \<times> nat, store_error) outcome" where
  "dynds_copy_to src dst target src_names dst_names =
     (if dst \<noteq> [] then Ok (dst, length dst)
      else
        map_ok (\<lambda>dss. fold (\<lambda>chunk (rows, count). (rows @ chunk, count + length chunk))
                          (chunks (POSTGRES_MAX_PARAMETERS div COPY_BIND_PARAMS) dss) (dst, 0))
          (try_map (src_to_dst target (manifest_idx_map_new src_names dst_names))
             (filter (\<lambda>r. case dr_lower r of Some lo \<Rightarrow> lo \<le> target | None \<Rightarrow> False) src)))"

section \<open>Laws\<close>

text \<open>A table in order: ranges start at or before the block and are open.\<close>

definition ds_row_ok :: "block_number \<Rightarrow> ds_row \<Rightarrow> bool" where
  "ds_row_ok h r \<longleftrightarrow> (\<exists>lo \<le> h. dr_lower r = Some lo) \<and> dr_upper r = None"

definition ds_table_inv :: "block_number \<Rightarrow> ds_row list \<Rightarrow> bool" where
  "ds_table_inv h rows \<longleftrightarrow> (\<forall>r \<in> set rows. ds_row_ok h r)"

text \<open>Data sources as the runtime makes them: on-chain ones are created at the block of their entry.\<close>

definition created_after :: "block_number \<Rightarrow> dds data_sources \<Rightarrow> bool" where
  "created_after h entries \<longleftrightarrow>
     (\<forall>(ptr, dss) \<in> set entries. \<forall>ds \<in> set dss. \<exists>c. ds_creation_block ds = Some c \<and> h < c \<and> c \<le> bp_number ptr)"

abbreviation all_sources :: "dds data_sources \<Rightarrow> dds list" where
  "all_sources entries \<equiv> concat (map snd entries)"

lemma dynds_insert_one_Ok:
  "dynds_insert_one b rows ds = Ok rows' \<Longrightarrow> rows' = rows @ [row_of_stored ds]"
  by (simp add: dynds_insert_one_def split: if_splits)

lemma insert_entry_Ok:
  "try_fold (dynds_insert_one b) rows dss = Ok rows' \<Longrightarrow> rows' = rows @ map row_of_stored dss"
proof (induction dss arbitrary: rows)
  case (Cons ds dss)
  then obtain rows1 where r: "dynds_insert_one b rows ds = Ok rows1" "try_fold (dynds_insert_one b) rows1 dss = Ok rows'"
    by (auto simp: outcome_simps)
  from Cons.IH [OF r(2)] dynds_insert_one_Ok [OF r(1)] show ?case by simp
qed simp

lemma dynds_insert_Ok:
  "dynds_insert rows entries = Ok rows' \<Longrightarrow> rows' = rows @ map row_of_stored (all_sources entries)"
proof (induction entries arbitrary: rows)
  case (Cons e entries)
  obtain ptr dss where e: "e = (ptr, dss)" by fastforce
  with Cons.prems obtain rows1 where r: "try_fold (dynds_insert_one (bp_number ptr)) rows dss = Ok rows1"
    "dynds_insert rows1 entries = Ok rows'"
    by (auto simp: dynds_insert_def outcome_simps)
  from Cons.IH [OF r(2)] insert_entry_Ok [OF r(1)] show ?case by (simp add: e)
qed (simp add: dynds_insert_def)

lemma try_map_stored:
  "\<forall>r \<in> set rows. ds_row_ok h r \<Longrightarrow>
     \<exists>dss. try_map stored_of_row rows = Ok dss \<and> map row_of_stored dss = rows"
proof (induction rows)
  case (Cons r rows)
  then obtain dss where "try_map stored_of_row rows = Ok dss" "map row_of_stored dss = rows" by auto
  moreover have "\<exists>d. stored_of_row r = Ok d \<and> row_of_stored d = r"
    using Cons.prems by (auto simp: ds_row_ok_def stored_of_row_def row_of_stored_def)
  ultimately show ?case by (metis (no_types, lifting) list.simps(9) try_map.simps(2) and_then.simps(1) map_ok.simps(1))
qed simp

lemma dynds_load_ok:
  assumes "ds_table_inv h rows"
  shows "\<exists>dss. dynds_load rows b = Ok (sort_key ds_creation_block dss) \<and>
    map row_of_stored dss = filter (\<lambda>r. dr_contains r b) rows"
  using try_map_stored [of "filter (\<lambda>r. dr_contains r b) rows" h] assms
  by (auto simp: dynds_load_def ds_table_inv_def)

lemma row_of_stored_inj: "row_of_stored a = row_of_stored b \<Longrightarrow> a = b"
  by (cases a; cases b) (simp add: row_of_stored_def)

lemma insort_key_append: "\<forall>y \<in> set ys. f x \<le> f y \<Longrightarrow> insort_key f x (xs @ ys) = insort_key f x xs @ ys"
  by (induction xs) (auto simp: insort_is_Cons)

lemma sort_key_append:
  assumes "\<forall>x \<in> set xs. \<forall>y \<in> set ys. f x \<le> f y"
  shows "sort_key f (xs @ ys) = sort_key f xs @ sort_key f ys"
  using assms by (induction xs) (auto simp: insort_key_append)

lemma stored_of_row_of_stored:
  "ds_creation_block ds \<noteq> None \<Longrightarrow> stored_of_row (row_of_stored ds) = Ok ds"
  by (auto simp: stored_of_row_def row_of_stored_def)

lemma map_row_of_stored_inj: "map row_of_stored xs = map row_of_stored ys \<Longrightarrow> xs = ys"
  using row_of_stored_inj by (auto dest!: map_injective intro: injI)

lemma all_sources_sorted:
  assumes "sorted (map (\<lambda>(ptr, _). bp_number ptr) entries)"
    and "\<forall>(ptr, dss) \<in> set entries. \<forall>ds \<in> set dss. ds_creation_block ds = Some (bp_number ptr)"
  shows "sorted (map ds_creation_block (all_sources entries))"
  using assms
proof (induction entries)
  case (Cons e entries)
  let ?f = ds_creation_block
  obtain ptr dss where e: "e = (ptr, dss)" by fastforce
  have "sorted (map ?f dss)" using Cons.prems(2) by (auto simp: e sorted_iff_nth_mono)
  moreover have "?f a \<le> ?f b" if "a \<in> set dss" "b \<in> set (all_sources entries)" for a b
  proof -
    from that(2) obtain p ds where p: "(p, ds) \<in> set entries" "b \<in> set ds" by force
    then have "?f b = Some (bp_number p)" "?f a = Some (bp_number ptr)" using Cons.prems(2) that(1) by (auto simp: e)
    moreover have "bp_number ptr \<le> bp_number p" using Cons.prems(1) p(1) by (auto simp: e)
    ultimately show ?thesis by simp
  qed
  ultimately show ?case using Cons by (auto simp: e sorted_append)
qed simp

lemma dynds_revert_insert:
  assumes "\<forall>r \<in> set rows. \<exists>b \<le> h. dr_lower r = Some b" "\<forall>ds \<in> set dss. \<exists>b > h. ds_creation_block ds = Some b"
  shows "dynds_revert (rows @ map row_of_stored dss) (h + 1) = rows"
proof -
  have "filter (\<lambda>r. case dr_lower r of Some lo \<Rightarrow> lo < h + 1 | None \<Rightarrow> True) rows = rows"
    using assms(1) by (fastforce simp: filter_id_conv)
  moreover have "filter (\<lambda>r. case dr_lower r of Some lo \<Rightarrow> lo < h + 1 | None \<Rightarrow> True) (map row_of_stored dss) = []"
    using assms(2) by (fastforce simp: filter_empty_conv row_of_stored_def)
  ultimately show ?thesis by (simp add: dynds_revert_def)
qed

section \<open>Properties\<close>

text \<open>
  C23 (data sources stay in insertion order). If the table has only data sources up to block \<open>h\<close> and
  the data sources of later blocks, each created at the block of its entry and with the entries in
  block order, are inserted, then a load gives the old data sources followed by the new ones in the
  order in which they were inserted, and reverting the blocks after \<open>h\<close> gives back the old table.
\<close>

theorem data_sources_in_order:
  assumes inv: "ds_table_inv h rows" and ins: "dynds_insert rows entries = Ok rows'"
    and new: "\<forall>(ptr, dss) \<in> set entries. h < bp_number ptr \<and> bp_number ptr \<le> n \<and>
                (\<forall>ds \<in> set dss. ds_creation_block ds = Some (bp_number ptr))"
    and ord: "sorted (map (\<lambda>(ptr, _). bp_number ptr) entries)" and n: "h \<le> n"
  shows "ds_table_inv n rows' \<and> dynds_revert rows' (h + 1) = rows \<and>
    (\<exists>old. dynds_load rows h = Ok old \<and> dynds_load rows' n = Ok (old @ all_sources entries))"
proof -
  let ?new = "all_sources entries" and ?f = ds_creation_block
  have rows': "rows' = rows @ map row_of_stored ?new" using dynds_insert_Ok [OF ins] .
  have c: "\<exists>b. ?f ds = Some b \<and> h < b \<and> b \<le> n" if "ds \<in> set ?new" for ds using that new by fastforce
  have lo: "\<exists>b \<le> h. dr_lower r = Some b" "dr_upper r = None" if "r \<in> set rows" for r
    using inv that by (auto simp: ds_table_inv_def ds_row_ok_def)
  have inv': "ds_table_inv n rows'"
    using lo c n by (fastforce simp: rows' ds_table_inv_def ds_row_ok_def row_of_stored_def)
  have "sorted (map ?f ?new)" by (rule all_sources_sorted [OF ord]) (use new in fastforce)
  then have new_sorted: "sort_key ?f ?new = ?new" by (rule sort_key_id_if_sorted)
  obtain old where old: "dynds_load rows h = Ok (sort_key ?f old)" "map row_of_stored old = filter (\<lambda>r. dr_contains r h) rows"
    using dynds_load_ok [OF inv] by blast
  have "filter (\<lambda>r. dr_contains r b) rows = rows" if "h \<le> b" for b
    using lo that by (fastforce simp: filter_id_conv dr_contains_def)
  moreover have "filter (\<lambda>r. dr_contains r n) (map row_of_stored ?new) = map row_of_stored ?new"
    using c by (fastforce simp: filter_id_conv dr_contains_def row_of_stored_def)
  ultimately have "filter (\<lambda>r. dr_contains r n) rows' = map row_of_stored (old @ ?new)"
    using old(2) n by (simp add: rows')
  moreover obtain dss where "dynds_load rows' n = Ok (sort_key ?f dss)" "map row_of_stored dss = filter (\<lambda>r. dr_contains r n) rows'"
    using dynds_load_ok [OF inv'] by blast
  ultimately have l: "dynds_load rows' n = Ok (sort_key ?f (old @ ?new))" using map_row_of_stored_inj by metis
  have "\<exists>b \<le> h. ?f ds = Some b" if "ds \<in> set old" for ds
  proof -
    have "row_of_stored ds \<in> set (filter (\<lambda>r. dr_contains r h) rows)" using that old(2) by (metis image_eqI list.set_map)
    then show ?thesis using lo(1) by (fastforce simp: row_of_stored_def)
  qed
  then have "\<forall>x \<in> set old. \<forall>y \<in> set ?new. ?f x \<le> ?f y" using c by fastforce
  then have "dynds_load rows' n = Ok (sort_key ?f old @ ?new)" using l new_sorted by (simp add: sort_key_append)
  moreover have "dynds_revert rows' (h + 1) = rows"
    unfolding rows' using lo(1) c by (blast intro: dynds_revert_insert)
  ultimately show ?thesis using inv' old(1) by blast
qed

definition example_dds :: "block_number \<Rightarrow> dds" where
  "example_dds b = \<lparr>ds_manifest_idx = 1, ds_param = None, ds_context = None, ds_creation_block = Some b, ds_done_at = None,
     ds_causality_region = ONCHAIN\<rparr>"

lemma data_sources_in_order_witness:
  "\<exists>rows' old. dynds_insert [row_of_stored (example_dds 3)] [(example_ptr 5, [example_dds 5]), (example_ptr 7, [example_dds 7])] = Ok rows' \<and>
     dynds_load [row_of_stored (example_dds 3)] 4 = Ok old \<and> dynds_load rows' 8 = Ok (old @ [example_dds 5, example_dds 7]) \<and>
     dynds_revert rows' 5 = [row_of_stored (example_dds 3)]"
proof -
  let ?rows = "[row_of_stored (example_dds 3)]" and ?new = "[(example_ptr 5, [example_dds 5]), (example_ptr 7, [example_dds 7])]"
  have ex [simp]: "ds_creation_block (example_dds b) = Some b" for b by (simp add: example_dds_def)
  obtain rows' where r: "dynds_insert ?rows ?new = Ok rows'" by (simp add: dynds_insert_def dynds_insert_one_def)
  have "ds_table_inv 4 ?rows" by (simp add: ds_table_inv_def ds_row_ok_def row_of_stored_def)
  from data_sources_in_order [OF this r, of 8] r show ?thesis by auto
qed

end
