(* ===== verification/Rollups.thy ===== *)
theory Rollups
  imports Store_Errors
begin

text \<open>
  When which aggregation is rolled up: the buckets of an interval
  (\<open>AggregationInterval::buckets\<close> in \<open>graph/src/schema/input/mod.rs\<close>, \<open>BlockTime::bucket\<close> in
  \<open>graph/src/blockchain/types.rs\<close>) and the loop of \<open>Layout::rollup\<close> in
  \<open>store/postgres/src/relational.rs\<close>. The statement that a rollup runs for one bucket
  (\<open>Rollup::insert\<close>) is a parameter. A block time is a number of nanoseconds since the epoch.
\<close>

section \<open>Buckets\<close>

type_synonym block_time = int

datatype aggregation_interval = Hour | Day

fun as_duration_secs :: "aggregation_interval \<Rightarrow> nat" where
  "as_duration_secs Hour = 3600"
| "as_duration_secs Day = 3600 * 24"

text \<open>\<open>timestamp_millis\<close> rounds towards minus infinity; times before the epoch count as the epoch.\<close>

definition bucket :: "aggregation_interval \<Rightarrow> block_time \<Rightarrow> nat" where
  "bucket i t = nat (max (t div 1000000) 0) div (1000 * as_duration_secs i)"

text \<open>The number of a bucket is cut to 32 bits before it is multiplied with the length of the interval.\<close>

definition bucket_range :: "aggregation_interval \<Rightarrow> nat \<Rightarrow> block_time \<times> block_time" where
  "bucket_range i nr =
     (let start = as_duration_secs i * unat (word_of_nat nr :: 32 word)
      in (int start * 1000000000, int (start + as_duration_secs i) * 1000000000))"

definition buckets :: "aggregation_interval \<Rightarrow> block_time \<Rightarrow> block_time \<Rightarrow> (block_time \<times> block_time) list" where
  "buckets i from until = map (bucket_range i) [bucket i from ..< bucket i until]"

section \<open>The loop\<close>

text \<open>
  The inner loop over the rollups ends with the first one that has no bucket. \<open>run\<close> is
  \<open>Rollup::insert\<close>; \<open>interval\<close> is the interval of a rollup.
\<close>

fun rollup_block ::
  "('r \<Rightarrow> aggregation_interval) \<Rightarrow> ('r \<Rightarrow> block_time \<times> block_time \<Rightarrow> int \<Rightarrow> 's \<Rightarrow> ('s, store_error) outcome) \<Rightarrow>
     block_time \<Rightarrow> int \<Rightarrow> block_time \<Rightarrow> 'r list \<Rightarrow> 's \<Rightarrow> ('s, store_error) outcome" where
  "rollup_block interval run last_rollup block time [] s = Ok s"
| "rollup_block interval run last_rollup block time (r # rs) s =
     (case buckets (interval r) last_rollup time of
        [] \<Rightarrow> Ok s
      | b # _ \<Rightarrow> and_then (run r b block s) (rollup_block interval run last_rollup block time rs))"

definition rollup_loop ::
  "('r \<Rightarrow> aggregation_interval) \<Rightarrow> ('r \<Rightarrow> block_time \<times> block_time \<Rightarrow> int \<Rightarrow> 's \<Rightarrow> ('s, store_error) outcome) \<Rightarrow>
     'r list \<Rightarrow> block_time \<Rightarrow> (int \<times> block_time) list \<Rightarrow> 's \<Rightarrow> (block_time \<times> 's, store_error) outcome" where
  "rollup_loop interval run rollups last_rollup block_times s =
     try_fold (\<lambda>(last_rollup, s) (block, time).
         map_ok (\<lambda>s'. (time, s')) (rollup_block interval run last_rollup block time rollups s))
       (last_rollup, s) block_times"

definition layout_rollup ::
  "('r \<Rightarrow> aggregation_interval) \<Rightarrow> ('r \<Rightarrow> block_time \<times> block_time \<Rightarrow> int \<Rightarrow> 's \<Rightarrow> ('s, store_error) outcome) \<Rightarrow>
     'r list \<Rightarrow> block_time option \<Rightarrow> (int \<times> block_time) list \<Rightarrow> 's \<Rightarrow> ('s, store_error) outcome" where
  "layout_rollup interval run rollups last_rollup block_times s =
     (case block_times of
        [] \<Rightarrow> Ok s
      | (_, t) # rest \<Rightarrow>
          map_ok snd (rollup_loop interval run rollups
            (case last_rollup of Some l \<Rightarrow> l | None \<Rightarrow> fold (\<lambda>(_, t). min t) rest t) block_times s))"

section \<open>Laws\<close>

lemma bucket_Day: "bucket Day t = bucket Hour t div 24"
  by (simp add: bucket_def div_mult2_eq [symmetric])

text \<open>If the hour of two times does not go forward, the day does not either.\<close>

lemma bucket_mono_interval:
  assumes "bucket Hour t \<le> bucket Hour s"
  shows "bucket i t \<le> bucket i s"
  using assms by (cases i) (auto simp: bucket_Day div_le_mono)

lemma bucket_mono: "s \<le> t \<Longrightarrow> bucket i s \<le> bucket i t"
  unfolding bucket_def by (intro div_le_mono nat_mono max.mono zdiv_mono1) auto

lemma buckets_first:
  "buckets i s t = (if bucket i s < bucket i t
     then bucket_range i (bucket i s) # map (bucket_range i) [Suc (bucket i s) ..< bucket i t] else [])"
  by (simp add: buckets_def upt_conv_Cons)

text \<open>The calls for one block, if the rollups are ordered by interval\<close>

definition rollup_calls :: "('r \<Rightarrow> aggregation_interval) \<Rightarrow> block_time \<Rightarrow> block_time \<Rightarrow> 'r list \<Rightarrow> ('r \<times> nat) list" where
  "rollup_calls interval s t rs =
     map (\<lambda>r. (r, bucket (interval r) s)) (filter (\<lambda>r. bucket (interval r) s < bucket (interval r) t) rs)"

fun hours_first :: "('r \<Rightarrow> aggregation_interval) \<Rightarrow> 'r list \<Rightarrow> bool" where
  "hours_first interval [] = True"
| "hours_first interval (r # rs) = ((interval r = Day \<longrightarrow> (\<forall>q \<in> set rs. interval q = Day)) \<and> hours_first interval rs)"

lemma rollup_block_calls:
  assumes "hours_first interval rs"
  shows "rollup_block interval run s b t rs st =
    try_fold (\<lambda>st (r, nr). run r (bucket_range (interval r) nr) b st) st (rollup_calls interval s t rs)"
  using assms
proof (induction rs arbitrary: st)
  case (Cons r rs)
  show ?case
  proof (cases "bucket (interval r) s < bucket (interval r) t")
    case True
    moreover have "rollup_block interval run s b t rs =
        (\<lambda>st. try_fold (\<lambda>st (r, nr). run r (bucket_range (interval r) nr) b st) st (rollup_calls interval s t rs))"
      using Cons by auto
    ultimately show ?thesis by (simp add: buckets_first rollup_calls_def)
  next
    case False
    have "\<not> bucket (interval q) s < bucket (interval q) t" if "q \<in> set rs" for q
      using False Cons.prems that bucket_mono_interval [of t s "interval q"] by (cases "interval r"; cases "interval q") auto
    with False show ?thesis by (simp add: buckets_first rollup_calls_def filter_empty_conv)
  qed
qed (simp add: rollup_calls_def)

text \<open>The buckets and blocks for which the loop runs a rollup with a given interval\<close>

fun loop_calls :: "aggregation_interval \<Rightarrow> block_time \<Rightarrow> (int \<times> block_time) list \<Rightarrow> (nat \<times> int) list" where
  "loop_calls i s [] = []"
| "loop_calls i s ((b, t) # rest) = (if bucket i s < bucket i t then [(bucket i s, b)] else []) @ loop_calls i t rest"

definition log_call :: "'r \<Rightarrow> block_time \<times> block_time \<Rightarrow> int \<Rightarrow> ('r \<times> (block_time \<times> block_time) \<times> int) list \<Rightarrow>
    (('r \<times> (block_time \<times> block_time) \<times> int) list, store_error) outcome" where
  "log_call r rng b calls = Ok (calls @ [(r, rng, b)])"

lemma log_calls:
  "try_fold (\<lambda>st (r, nr). log_call r (f r nr) b st) st cs = Ok (st @ map (\<lambda>(r, nr). (r, f r nr, b)) cs)"
  by (induction cs arbitrary: st) (auto simp: log_call_def)

lemma filter_calls:
  assumes "distinct rs" "r \<in> set rs"
  shows "filter (\<lambda>c. fst c = r) (rollup_calls interval s t rs) =
    (if bucket (interval r) s < bucket (interval r) t then [(r, bucket (interval r) s)] else [])"
proof -
  let ?P = "\<lambda>q. bucket (interval q) s < bucket (interval q) t"
  have "filter (\<lambda>q. q = r) rs = [r]"
    using assms by (induction rs) (auto simp: filter_empty_conv)
  moreover have "filter (\<lambda>q. q = r) (filter ?P rs) = filter ?P (filter (\<lambda>q. q = r) rs)"
    by (simp add: conj_commute)
  ultimately have "filter (\<lambda>q. q = r) (filter ?P rs) = (if ?P r then [r] else [])" by (simp del: filter_filter)
  then show ?thesis by (simp add: rollup_calls_def filter_map comp_def del: filter_filter)
qed

lemma rollup_loop_log:
  assumes "hours_first interval rs" "distinct rs" "r \<in> set rs"
  shows "\<exists>l calls. rollup_loop interval log_call rs s block_times st = Ok (l, st @ calls) \<and>
    filter (\<lambda>c. fst c = r) calls = map (\<lambda>(nr, b). (r, bucket_range (interval r) nr, b)) (loop_calls (interval r) s block_times)"
proof (induction block_times arbitrary: s st)
  case Nil
  then show ?case by (simp add: rollup_loop_def)
next
  case (Cons bt rest)
  obtain b t where bt: "bt = (b, t)" by fastforce
  let ?cs = "map (\<lambda>(r, nr). (r, bucket_range (interval r) nr, b)) (rollup_calls interval s t rs)"
  have "rollup_block interval log_call s b t rs st = Ok (st @ ?cs)"
    by (simp add: rollup_block_calls [OF assms(1)] log_calls)
  moreover obtain l calls where "rollup_loop interval log_call rs t rest (st @ ?cs) = Ok (l, (st @ ?cs) @ calls)"
    "filter (\<lambda>c. fst c = r) calls = map (\<lambda>(nr, b). (r, bucket_range (interval r) nr, b)) (loop_calls (interval r) t rest)"
    using Cons.IH by blast
  moreover have "filter (\<lambda>c. fst c = r) ?cs = map (\<lambda>(r, nr). (r, bucket_range (interval r) nr, b)) (filter (\<lambda>c. fst c = r) (rollup_calls interval s t rs))"
    by (simp add: filter_map comp_def case_prod_unfold)
  ultimately show ?case
    by (intro exI [of _ l] exI [of _ "?cs @ calls"]) (simp add: bt rollup_loop_def filter_calls [OF assms(2,3)])
qed

lemma loop_calls_ge: "sorted (s # map snd block_times) \<Longrightarrow> (nr, b) \<in> set (loop_calls i s block_times) \<Longrightarrow> bucket i s \<le> nr"
proof (induction i s block_times rule: loop_calls.induct)
  case (2 i s b' t rest)
  have "bucket i s \<le> bucket i t" using 2(2) by (simp add: bucket_mono)
  moreover have "bucket i t \<le> nr" if "(nr, b) \<in> set (loop_calls i t rest)" using 2(1,2) that by simp
  ultimately show ?case using 2(3) by (auto split: if_splits)
qed simp

lemma loop_calls_sorted: "sorted (s # map snd block_times) \<Longrightarrow> sorted_wrt (<) (map fst (loop_calls i s block_times))"
proof (induction i s block_times rule: loop_calls.induct)
  case (2 i s b t rest)
  have "bucket i t \<le> nr" if "(nr, b') \<in> set (loop_calls i t rest)" for nr b'
    using loop_calls_ge [OF _ that] 2(2) by simp
  then have "\<forall>x \<in> set (loop_calls i t rest). bucket i t \<le> fst x" by auto
  moreover have "sorted_wrt (<) (map fst (loop_calls i t rest))" using 2 by simp
  ultimately show ?case by (auto intro: less_le_trans)
qed simp

lemma image_below:
  assumes "f s \<le> f t" "f t \<le> (B :: nat)" "t \<in> A"
  shows "(if f s < f t then {f s} else {}) \<union> {f u | u. u \<in> A \<and> f u < B} = {f u | u. u \<in> insert s A \<and> f u < B}"
proof (cases "f s < f t")
  case True
  then have "f s < B" using assms(2) by simp
  with True show ?thesis by auto
next
  case False
  then have "f s = f t" using assms(1) by simp
  with assms(3) show ?thesis by auto
qed

lemma loop_calls_set:
  "sorted (s # map snd block_times) \<Longrightarrow>
     fst ` set (loop_calls i s block_times) =
     {bucket i t | t. t \<in> set (s # map snd block_times) \<and> bucket i t < bucket i (last (s # map snd block_times))}"
proof (induction i s block_times rule: loop_calls.induct)
  case (2 i s b t rest)
  have t: "t \<le> last (t # map snd rest)" "s \<le> t"
    using 2(2) last_in_set [of "map snd rest"] by (fastforce simp del: last_in_set)+
  then have "bucket i t \<le> bucket i (last (t # map snd rest))" "bucket i s \<le> bucket i t" by (simp_all add: bucket_mono)
  moreover have "fst ` set (loop_calls i t rest) =
      {bucket i u | u. u \<in> set (t # map snd rest) \<and> bucket i u < bucket i (last (t # map snd rest))}"
    using 2 by simp
  moreover have "fst ` set (loop_calls i s ((b, t) # rest)) =
      (if bucket i s < bucket i t then {bucket i s} else {}) \<union> fst ` set (loop_calls i t rest)"
    by (simp add: image_Un)
  moreover have "t \<in> set (t # map snd rest)" by simp
  ultimately have "fst ` set (loop_calls i s ((b, t) # rest)) =
      {bucket i u | u. u \<in> insert s (set (t # map snd rest)) \<and> bucket i u < bucket i (last (t # map snd rest))}"
    by (simp only: image_below)
  then show ?case by simp
qed simp

lemma div_pos_in_range:
  assumes "0 < (l :: int)"
  shows "n * l \<le> t \<and> t < (n + 1) * l \<longleftrightarrow> t div l = n"
proof
  assume "n * l \<le> t \<and> t < (n + 1) * l"
  then show "t div l = n" by (intro int_div_pos_eq [of t l n "t - n * l"]) (auto simp: algebra_simps)
next
  assume "t div l = n"
  then have "t = n * l + t mod l" by (metis div_mult_mod_eq)
  then show "n * l \<le> t \<and> t < (n + 1) * l"
    using pos_mod_bound [OF assms, of t] pos_mod_sign [OF assms, of t] by (simp add: distrib_right)
qed

text \<open>A time lies in the range of its bucket and in no other one, as long as the number fits 32 bits.\<close>

lemma in_bucket_range:
  assumes "nr < 2 ^ 32" "0 \<le> t"
  shows "fst (bucket_range i nr) \<le> t \<and> t < snd (bucket_range i nr) \<longleftrightarrow> bucket i t = nr"
proof -
  let ?l = "int (as_duration_secs i) * 1000000000"
  have l: "0 < ?l" by (cases i) auto
  have "max (t div 1000000) 0 = t div 1000000" using assms(2) by (simp add: pos_imp_zdiv_nonneg_iff)
  then have "int (bucket i t) = t div 1000000 div (1000 * int (as_duration_secs i))"
    using assms(2) by (simp add: bucket_def zdiv_int pos_imp_zdiv_nonneg_iff)
  also have "\<dots> = t div ?l" by (simp add: zdiv_zmult2_eq [symmetric] mult.commute mult.left_commute)
  finally have "int (bucket i t) = t div ?l" .
  moreover have "bucket_range i nr = (int nr * ?l, (int nr + 1) * ?l)"
  proof -
    have "unat (word_of_nat nr :: 32 word) = nr" using assms(1) by (simp add: unsigned_of_nat take_bit_nat_eq_self)
    then show ?thesis by (simp add: bucket_range_def Let_def distrib_right)
  qed
  moreover have "int nr * ?l \<le> t \<and> t < (int nr + 1) * ?l \<longleftrightarrow> t div ?l = int nr"
    using div_pos_in_range [OF l] by blast
  ultimately show ?thesis by auto
qed

section \<open>Properties\<close>

text \<open>
  C21 (every bucket is rolled up once). Let the rollups be ordered by interval, and let the block times
  not decrease, starting with the time of the last rollup. Then the loop, whose inner loop stops at
  the first rollup without a bucket, runs each rollup exactly once for each bucket that has a block
  in it and ended before the last block, in increasing order, and for no other bucket.
\<close>

theorem rollups_complete:
  assumes "hours_first interval rollups" "distinct rollups" "r \<in> set rollups"
    and "block_times \<noteq> []" "sorted (s # map snd block_times)"
  shows "\<exists>calls nrs. layout_rollup interval log_call rollups (Some s) block_times [] = Ok calls \<and>
    map (\<lambda>(_, rng, _). rng) (filter (\<lambda>c. fst c = r) calls) = map (bucket_range (interval r)) nrs \<and>
    sorted_wrt (<) nrs \<and>
    set nrs = {bucket (interval r) t | t. t \<in> set (s # map snd block_times) \<and>
                 bucket (interval r) t < bucket (interval r) (snd (last block_times))}"
proof -
  let ?i = "interval r"
  obtain l calls where c: "rollup_loop interval log_call rollups s block_times [] = Ok (l, [] @ calls)"
    "filter (\<lambda>c. fst c = r) calls = map (\<lambda>(nr, b). (r, bucket_range ?i nr, b)) (loop_calls ?i s block_times)"
    using rollup_loop_log [OF assms(1-3)] by blast
  let ?nrs = "map fst (loop_calls ?i s block_times)"
  have "layout_rollup interval log_call rollups (Some s) block_times [] = Ok calls"
    using assms(4) c(1) by (cases block_times) (auto simp: layout_rollup_def)
  moreover have "map (\<lambda>(_, rng, _). rng) (filter (\<lambda>c. fst c = r) calls) = map (bucket_range ?i) ?nrs"
    by (simp add: c(2) comp_def case_prod_beta)
  moreover have "last (s # map snd block_times) = snd (last block_times)" using assms(4) by (simp add: last_map)
  ultimately show ?thesis
    using loop_calls_sorted [OF assms(5), of ?i] loop_calls_set [OF assms(5), of ?i]
    by (intro exI [of _ calls] exI [of _ ?nrs]) simp
qed

lemma rollups_complete_witness:
  "\<exists>calls nrs. layout_rollup id log_call [Hour, Day] (Some 0) [(7, 3600000000000), (8, 90000000000000)] [] = Ok calls \<and>
     map (\<lambda>(_, rng, _). rng) (filter (\<lambda>c. fst c = Day) calls) = map (bucket_range Day) nrs \<and> sorted_wrt (<) nrs \<and> set nrs = {0}"
proof -
  let ?bt = "[(7::int, 3600000000000::int), (8, 90000000000000)]"
  have "hours_first id [Hour, Day]" "distinct [Hour, Day]" "Day \<in> set [Hour, Day]" "?bt \<noteq> []" "sorted (0 # map snd ?bt)" by simp_all
  from rollups_complete [OF this]
  obtain calls nrs where c: "layout_rollup id log_call [Hour, Day] (Some 0) ?bt [] = Ok calls"
    "map (\<lambda>(_, rng, _). rng) (filter (\<lambda>c. fst c = Day) calls) = map (bucket_range Day) nrs" "sorted_wrt (<) nrs"
    "set nrs = {bucket Day t | t. t \<in> {0, 3600000000000, 90000000000000} \<and> bucket Day t < bucket Day 90000000000000}"
    by auto
  have "bucket Day 0 = 0" "bucket Day 3600000000000 = 0" "bucket Day 90000000000000 = 1" by (simp_all add: bucket_def)
  then have "set nrs = {0}" using c(4) by force
  with c(1-3) show ?thesis by blast
qed

end
