(* ===== verification/Deployment.thy ===== *)
theory Deployment
  imports Batch_Writes Data_Source_Store Rollups
begin

text \<open>
  A deployment in the store: its head, its reorg counters, its errors and health
  (\<open>store/postgres/src/deployment.rs\<close>, \<open>detail.rs\<close>) and the operations of \<open>DeploymentStore\<close> that write and revert
  blocks and that fail and unfail a subgraph (\<open>store/postgres/src/deployment_store.rs\<close>). Every operation
  runs in a transaction: with an error or a panic the deployment stays as it was, so that an
  operation is a function that gives the new deployment or the error. The metadata tables have
  exactly one row for the deployment.
\<close>

section \<open>State\<close>

datatype subgraph_health = Failed | Healthy | Unhealthy

fun is_failed :: "subgraph_health \<Rightarrow> bool" where
  "is_failed Failed = True"
| "is_failed Healthy = False"
| "is_failed Unhealthy = False"

record subgraph_error =
  se_subgraph_id :: string
  se_message :: string
  se_block_ptr :: "block_ptr option"
  se_handler :: "string option"
  se_deterministic :: bool

text \<open>A row of the table \<open>subgraph_error\<close>; all block ranges are open.\<close>

record error_row =
  er_id :: string
  er_message :: string
  er_handler :: "string option"
  er_deterministic :: bool
  er_block_hash :: "bytes option"
  er_lower :: block_number

record 'e deployment =
  dp_hash :: string
  dp_tables :: "'e layout"
  dp_block_number :: "block_number option"
  dp_block_hash :: "bytes option"
  dp_firehose_cursor :: "string option"
  dp_entity_count :: int
  dp_start_block :: "block_ptr option"
  dp_earliest_block :: block_number
  dp_graft_block :: "block_number option"
  dp_reorg_count :: int
  dp_current_reorg_depth :: int
  dp_max_reorg_depth :: int
  dp_synced_at_block :: "block_number option"
  dp_failed :: bool
  dp_health :: subgraph_health
  dp_fatal_error :: "string option"
  dp_non_fatal_errors :: "string list"
  dp_errors :: "error_row list"
  dp_data_sources :: "ds_row list"

section \<open>The head\<close>

text \<open>\<open>detail::block\<close>: the hash and the number of a block pointer are both null or both set.\<close>

definition detail_block :: "bytes option \<Rightarrow> block_number option \<Rightarrow> (block_ptr option, store_error) outcome" where
  "detail_block hash number =
     (case (hash, number) of
        (Some h, Some n) \<Rightarrow> Ok (Some \<lparr>bp_hash = h, bp_number = n\<rparr>)
      | (None, None) \<Rightarrow> Ok None
      | _ \<Rightarrow> Err (InternalError ''the hash and number of a block pointer must either both be null or both have a value''))"

definition dep_block_ptr :: "('e, 'z) deployment_scheme \<Rightarrow> (block_ptr option, store_error) outcome" where
  "dep_block_ptr d = detail_block (dp_block_hash d) (dp_block_number d)"

definition reset_reorg_count :: "'e deployment \<Rightarrow> 'e deployment" where
  "reset_reorg_count d = (if 0 < dp_current_reorg_depth d then d\<lparr>dp_current_reorg_depth := 0\<rparr> else d)"

text \<open>\<open>transact_block\<close> also returns the earliest block.\<close>

definition transact_block ::
  "'e deployment \<Rightarrow> block_ptr \<Rightarrow> string option \<Rightarrow> int \<Rightarrow> ('e deployment \<times> block_number, store_error) outcome" where
  "transact_block d ptr cursor change =
     and_then (dep_block_ptr d) (\<lambda>from.
       if (case from of Some p \<Rightarrow> bp_number ptr \<le> bp_number p | None \<Rightarrow> False)
       then Err (DuplicateBlockProcessing (dp_hash d) (bp_number ptr))
       else
         (let d1 = reset_reorg_count d;
              d2 = d1\<lparr>dp_block_number := Some (bp_number ptr), dp_block_hash := Some (bp_hash ptr),
                      dp_firehose_cursor := cursor, dp_entity_count := dp_entity_count d1 + change\<rparr>
          in Ok (d2, dp_earliest_block d2)))"

definition forward_block_ptr :: "'e deployment \<Rightarrow> block_ptr \<Rightarrow> ('e deployment, store_error) outcome" where
  "forward_block_ptr d ptr =
     (let d1 = reset_reorg_count d in
      if (case dp_block_number d1 of Some n \<Rightarrow> n < bp_number ptr | None \<Rightarrow> True)
      then Ok (d1\<lparr>dp_block_number := Some (bp_number ptr), dp_block_hash := Some (bp_hash ptr)\<rparr>)
      else and_then (dep_block_ptr d1) (\<lambda>from.
             case from of
               Some p \<Rightarrow> if bp_number ptr \<le> bp_number p
                         then Err (DuplicateBlockProcessing (dp_hash d) (bp_number ptr))
                         else Err (Unknown ''unknown error forwarding block ptr'')
             | None \<Rightarrow> Err (Unknown ''unknown error forwarding block ptr'')))"

text \<open>
  \<open>revert_block_ptr\<close>; \<open>threshold\<close> is \<open>ENV_VARS.reorg_threshold()\<close>. The head is set before the check of
  the number of updated rows, but an error undoes that.
\<close>

definition revert_block_ptr ::
  "int \<Rightarrow> 'e deployment \<Rightarrow> block_ptr \<Rightarrow> string option \<Rightarrow> ('e deployment, store_error) outcome" where
  "revert_block_ptr threshold d ptr cursor =
     (let earliest_block = max (bp_number ptr - threshold) 0;
          affected = dp_earliest_block d \<le> earliest_block;
          d1 = (if affected
                then d\<lparr>dp_reorg_count := dp_reorg_count d + 1,
                       dp_current_reorg_depth := dp_current_reorg_depth d + 1,
                       dp_max_reorg_depth := max (dp_current_reorg_depth d + 1) (dp_max_reorg_depth d)\<rparr>
                else d);
          d2 = d1\<lparr>dp_block_number := Some (bp_number ptr), dp_block_hash := Some (bp_hash ptr), dp_firehose_cursor := cursor\<rparr>
      in if affected then Ok d2
         else Err (Unknown ''No rows affected. This could be due to an attempt to revert beyond earliest_block + reorg_threshold''))"

definition initialize_block_ptr :: "'e deployment \<Rightarrow> 'e deployment" where
  "initialize_block_ptr d =
     (if dp_block_hash d = None
      then (case dp_start_block d of
              Some p \<Rightarrow> d\<lparr>dp_block_hash := Some (bp_hash p), dp_block_number := Some (bp_number p)\<rparr>
            | None \<Rightarrow> d)
      else d)"

definition set_synced :: "'e deployment \<Rightarrow> block_ptr \<Rightarrow> 'e deployment" where
  "set_synced d ptr =
     (if dp_synced_at_block d = None then d\<lparr>dp_synced_at_block := Some (bp_number ptr)\<rparr> else d)"

definition update_entity_count :: "'e deployment \<Rightarrow> int \<Rightarrow> 'e deployment" where
  "update_entity_count d change = (if change = 0 then d else d\<lparr>dp_entity_count := dp_entity_count d + change\<rparr>)"

definition clear_entity_count :: "'e deployment \<Rightarrow> 'e deployment" where
  "clear_entity_count d = d\<lparr>dp_entity_count := 0\<rparr>"

definition set_earliest_block :: "'e deployment \<Rightarrow> block_number \<Rightarrow> 'e deployment" where
  "set_earliest_block d b = (if dp_earliest_block d < b then d\<lparr>dp_earliest_block := b\<rparr> else d)"

section \<open>Errors and health\<close>

definition BLOCK_UNVERSIONED :: block_number where
  "BLOCK_UNVERSIONED = -1"

text \<open>\<open>hash\<close> is the stable hash of an error in hex, which is its id.\<close>

definition insert_subgraph_error ::
  "(subgraph_error \<Rightarrow> string) \<Rightarrow> 'e deployment \<Rightarrow> subgraph_error \<Rightarrow> 'e deployment \<times> string" where
  "insert_subgraph_error hash d e =
     (let row = \<lparr>er_id = hash e, er_message = se_message e, er_handler = se_handler e,
                 er_deterministic = se_deterministic e, er_block_hash = map_option bp_hash (se_block_ptr e),
                 er_lower = (case se_block_ptr e of None \<Rightarrow> BLOCK_UNVERSIONED | Some p \<Rightarrow> bp_number p)\<rparr>
      in (if hash e \<in> er_id ` set (dp_errors d) then d else d\<lparr>dp_errors := dp_errors d @ [row]\<rparr>, hash e))"

definition update_deployment_status ::
  "'e deployment \<Rightarrow> subgraph_health \<Rightarrow> string option \<Rightarrow> string list option \<Rightarrow> 'e deployment" where
  "update_deployment_status d health fatal non_fatal =
     d\<lparr>dp_failed := is_failed health, dp_health := health, dp_fatal_error := fatal,
       dp_non_fatal_errors := (case non_fatal of Some es \<Rightarrow> es | None \<Rightarrow> [])\<rparr>"

definition fail :: "(subgraph_error \<Rightarrow> string) \<Rightarrow> 'e deployment \<Rightarrow> subgraph_error \<Rightarrow> 'e deployment" where
  "fail hash d e =
     (let (d1, error_id) = insert_subgraph_error hash d e in update_deployment_status d1 Failed (Some error_id) None)"

definition update_non_fatal_errors ::
  "(subgraph_error \<Rightarrow> string) \<Rightarrow> 'e deployment \<Rightarrow> subgraph_health \<Rightarrow> subgraph_error list option \<Rightarrow> 'e deployment" where
  "update_non_fatal_errors hash d health non_fatal =
     update_deployment_status d health None (map_option (map hash) non_fatal)"

definition has_deterministic_errors :: "('e, 'z) deployment_scheme \<Rightarrow> block_number \<Rightarrow> bool" where
  "has_deterministic_errors d b \<longleftrightarrow> (\<exists>e \<in> set (dp_errors d). er_deterministic e \<and> er_lower e \<le> b)"

definition check_health :: "'e deployment \<Rightarrow> block_number \<Rightarrow> 'e deployment" where
  "check_health d b =
     (let (new, old) = (if has_deterministic_errors d b then (Unhealthy, Healthy) else (Healthy, Unhealthy))
      in if dp_health d = old then d\<lparr>dp_health := new\<rparr> else d)"

definition insert_subgraph_errors ::
  "(subgraph_error \<Rightarrow> string) \<Rightarrow> 'e deployment \<Rightarrow> subgraph_error list \<Rightarrow> block_number \<Rightarrow> 'e deployment" where
  "insert_subgraph_errors hash d errs latest =
     check_health (fold (\<lambda>e d. fst (insert_subgraph_error hash d e)) errs d) latest"

definition revert_subgraph_errors :: "'e deployment \<Rightarrow> block_number \<Rightarrow> 'e deployment" where
  "revert_subgraph_errors d from_block =
     (let d1 = d\<lparr>dp_errors := filter (\<lambda>e. er_lower e < from_block) (dp_errors d)\<rparr>;
          d2 = check_health d1 (from_block - 1)
      in if dp_failed d2 \<and> dp_health d2 = Failed then d2\<lparr>dp_failed := False, dp_health := Healthy\<rparr> else d2)"

definition delete_error :: "'e deployment \<Rightarrow> string \<Rightarrow> 'e deployment" where
  "delete_error d i = d\<lparr>dp_errors := filter (\<lambda>e. er_id e \<noteq> i) (dp_errors d)\<rparr>"

text \<open>\<open>ErrorDetail::fatal\<close>: the error that the deployment refers to\<close>

definition fatal_error_detail :: "('e, 'z) deployment_scheme \<Rightarrow> error_row option" where
  "fatal_error_detail d = Option.bind (dp_fatal_error d) (\<lambda>i. find (\<lambda>e. er_id e = i) (dp_errors d))"

record deployment_state =
  dst_id :: string
  dst_reorg_count :: nat
  dst_max_reorg_depth :: nat
  dst_latest_block :: block_ptr
  dst_earliest_block_number :: block_number
  dst_first_error_block :: "block_number option"

definition convert_to_u32 :: "int option \<Rightarrow> (nat, store_error) outcome" where
  "convert_to_u32 number =
     (case number of
        None \<Rightarrow> Err (InternalError ''missing field for subgraph'')
      | Some n \<Rightarrow> if n < 0 then Err (InternalError ''invalid value for field in subgraph'') else Ok (nat n))"

definition dep_state :: "('e, 'z) deployment_scheme \<Rightarrow> (deployment_state, store_error) outcome" where
  "dep_state d =
     and_then (convert_to_u32 (Some (dp_reorg_count d))) (\<lambda>rc.
     and_then (convert_to_u32 (Some (dp_max_reorg_depth d))) (\<lambda>rd.
     and_then (dep_block_ptr d) (\<lambda>latest.
       case latest of
         None \<Rightarrow> Err (QueryExecutionError ''Subgraph has not started syncing yet'')
       | Some p \<Rightarrow>
           Ok \<lparr>dst_id = dp_hash d, dst_reorg_count = rc, dst_max_reorg_depth = rd, dst_latest_block = p,
               dst_earliest_block_number = dp_earliest_block d,
               dst_first_error_block =
                 (if dp_failed d \<or> dp_health d \<noteq> Healthy
                  then (case map er_lower (filter er_deterministic (dp_errors d)) of
                          [] \<Rightarrow> None
                        | b # bs \<Rightarrow> Some (fold min bs b))
                  else None)\<rparr>)))"

section \<open>Writing and reverting blocks\<close>

text \<open>
  What the store knows besides the deployment: the environment for its tables, the printing of
  ids, the hash of errors, the reorg threshold, the rollups with their intervals and the statement that
  runs a rollup.
\<close>

record ('e, 'r) dep_env =
  de_store :: "'e store_env"
  de_show_id :: "Id \<Rightarrow> string"
  de_hash :: "subgraph_error \<Rightarrow> string"
  de_reorg_threshold :: int
  de_rollups :: "'r list"
  de_interval :: "'r \<Rightarrow> aggregation_interval"
  de_run_rollup :: "'r \<Rightarrow> block_time \<times> block_time \<Rightarrow> int \<Rightarrow> 'e layout \<Rightarrow> ('e layout, store_error) outcome"

type_synonym 'e write_batch = "('e, dds, subgraph_error) batch"

text \<open>The part of \<open>transact_block_operations\<close> that deals with the errors of the batch\<close>

definition batch_errors :: "(subgraph_error \<Rightarrow> string) \<Rightarrow> 'e write_batch \<Rightarrow> 'e deployment \<Rightarrow> 'e deployment" where
  "batch_errors hash b d =
     (if b_deterministic_errors b = [] then d
      else
        (let d1 = insert_subgraph_errors hash d (b_deterministic_errors b) (bp_number (b_block_ptr b))
         in if b_is_non_fatal_errors_active b
            then update_non_fatal_errors hash d1 Unhealthy (Some (b_deterministic_errors b))
            else d1))"

definition transact_block_operations ::
  "('e, 'r) dep_env \<Rightarrow> 'e deployment \<Rightarrow> 'e write_batch \<Rightarrow> block_time option \<Rightarrow> ('e deployment, store_error) outcome option" where
  "transact_block_operations env d b last_rollup =
     and_then_opt (apply_entity_modifications (de_show_id env) (de_store env) (dp_tables d) (b_mods b)) (\<lambda>(l1, change). Some (
     and_then (layout_rollup (de_interval env) (de_run_rollup env) (de_rollups env) last_rollup (b_block_times b) l1) (\<lambda>l2.
     and_then (dynds_insert (dp_data_sources d) (b_data_sources b)) (\<lambda>dss1.
     and_then (dynds_update_offchain_status dss1 (b_offchain_to_remove b)) (\<lambda>dss2.
       let d1 = batch_errors (de_hash env) b (d\<lparr>dp_tables := l2, dp_data_sources := dss2\<rparr>)
       in map_ok fst (transact_block d1 (b_block_ptr b) (b_firehose_cursor b) change))))))"

definition rewind_or_truncate ::
  "('e, 'r) dep_env \<Rightarrow> 'e deployment \<Rightarrow> block_ptr \<Rightarrow> string option \<Rightarrow> bool \<Rightarrow> ('e deployment, store_error) outcome" where
  "rewind_or_truncate env d to_ptr cursor trunc =
     (let block = bp_number to_ptr + 1 in
      and_then (revert_block_ptr (de_reorg_threshold env) d to_ptr cursor) (\<lambda>d1.
      and_then (if trunc then Ok (clear_entity_count (d1\<lparr>dp_tables := truncate_tables (dp_tables d1)\<rparr>))
                else map_ok (\<lambda>(l, change). update_entity_count (d1\<lparr>dp_tables := l\<rparr>) change) (layout_revert_block (dp_tables d1) block)) (\<lambda>d2.
        Ok (revert_subgraph_errors (d2\<lparr>dp_data_sources := dynds_revert (dp_data_sources d2) block\<rparr>) block))))"

text \<open>
  \<open>truncate\<close> and \<open>rewind\<close>. Their check that the block goes backwards makes an error value and drops it,
  so that it has no effect.
\<close>

definition truncate_deployment :: "('e, 'r) dep_env \<Rightarrow> 'e deployment \<Rightarrow> block_ptr \<Rightarrow> ('e deployment, store_error) outcome" where
  "truncate_deployment env d to_ptr =
     and_then (dep_block_ptr d) (\<lambda>_. rewind_or_truncate env d to_ptr None True)"

definition rewind :: "('e, 'r) dep_env \<Rightarrow> 'e deployment \<Rightarrow> block_ptr \<Rightarrow> ('e deployment, store_error) outcome" where
  "rewind env d to_ptr = and_then (dep_block_ptr d) (\<lambda>_. rewind_or_truncate env d to_ptr None False)"

definition revert_block_operations ::
  "('e, 'r) dep_env \<Rightarrow> 'e deployment \<Rightarrow> block_ptr \<Rightarrow> string option \<Rightarrow> ('e deployment, store_error) outcome" where
  "revert_block_operations env d to_ptr cursor =
     and_then (dep_block_ptr d) (\<lambda>head.
       case head of
         None \<Rightarrow> Panic ''called `Option::unwrap()` on a `None` value''
       | Some p \<Rightarrow>
           if bp_number p \<le> bp_number to_ptr then Panic ''revert_block_operations must revert only backward''
           else if (case dp_graft_block d of Some g \<Rightarrow> bp_number to_ptr < g | None \<Rightarrow> False)
           then Err (InternalError ''Can not revert subgraph as reverting past a graft point is not possible'')
           else rewind_or_truncate env d to_ptr cursor False)"

section \<open>Unfailing\<close>

datatype unfail_outcome = Noop | Unfailed | BehindErrorBlock

text \<open>
  \<open>unfail_deterministic_error\<close>: the revert runs in a transaction of its own, so that the status is
  updated after it.
\<close>

definition unfail_deterministic_error ::
  "('e, 'r) dep_env \<Rightarrow> 'e deployment \<Rightarrow> block_ptr \<Rightarrow> block_ptr \<Rightarrow> ('e deployment \<times> unfail_outcome, store_error) outcome" where
  "unfail_deterministic_error env d current parent =
     (case fatal_error_detail d of
        None \<Rightarrow> Ok (d, Noop)
      | Some e \<Rightarrow>
          if \<not> er_deterministic e then Ok (d, Noop)
          else
            (let prev_health = (if has_deterministic_errors d (bp_number parent) then Unhealthy else Healthy) in
             case er_block_hash e of
               Some bytes \<Rightarrow>
                 if bytes = bp_hash current
                 then and_then (revert_block_operations env d parent None) (\<lambda>d1.
                        Ok (update_deployment_status d1 prev_health None None, Unfailed))
                 else Ok (d, Noop)
             | None \<Rightarrow> Ok (d, Noop)))"

definition unfail_non_deterministic_error ::
  "'e deployment \<Rightarrow> block_ptr \<Rightarrow> 'e deployment \<times> unfail_outcome" where
  "unfail_non_deterministic_error d current =
     (case fatal_error_detail d of
        None \<Rightarrow> (d, Noop)
      | Some e \<Rightarrow>
          if er_deterministic e then (d, Noop)
          else if er_lower e \<le> bp_number current
          then (delete_error (update_deployment_status d Healthy None None) (er_id e), Unfailed)
          else (d, BehindErrorBlock))"

end
