(* ===== verification/Deployment_Laws.thy ===== *)
theory Deployment_Laws
  imports Deployment
begin

text \<open>
  What the operations on a deployment (\<open>store/postgres/src/deployment.rs\<close>, \<open>deployment_store.rs\<close>) promise:
  a well-formedness invariant that every operation keeps, lookups after writing and reverting
  blocks, the direction in which the head moves, and what becomes of errors and health. The
  deployments that can arise are those that the step relation \<open>dep_step\<close> reaches.
\<close>

section \<open>What the operations on errors leave alone\<close>

definition dep_core where
  "dep_core d = (dp_hash d, dp_tables d, dp_block_number d, dp_block_hash d, dp_firehose_cursor d, dp_entity_count d, dp_start_block d,
     dp_earliest_block d, dp_graft_block d, dp_reorg_count d, dp_current_reorg_depth d, dp_max_reorg_depth d, dp_data_sources d)"

lemma core_update_status [simp]: "dep_core (update_deployment_status d h f n) = dep_core d"
  by (simp add: dep_core_def update_deployment_status_def)

lemma core_insert_error [simp]: "dep_core (fst (insert_subgraph_error hash d e)) = dep_core d"
  by (simp add: dep_core_def insert_subgraph_error_def Let_def)

lemma core_fail [simp]: "dep_core (fail hash d e) = dep_core d"
  using core_insert_error [of hash d e] by (cases "insert_subgraph_error hash d e") (simp add: fail_def)

lemma core_check_health [simp]: "dep_core (check_health d b) = dep_core d"
  by (simp add: dep_core_def check_health_def Let_def split: prod.split)

lemma core_insert_errors [simp]: "dep_core (insert_subgraph_errors hash d es b) = dep_core d"
proof -
  have "dep_core (fold (\<lambda>e d. fst (insert_subgraph_error hash d e)) es d) = dep_core d"
    by (induction es arbitrary: d) simp_all
  then show ?thesis by (simp add: insert_subgraph_errors_def)
qed

lemma core_batch_errors [simp]: "dep_core (batch_errors hash b d) = dep_core d"
  by (simp add: batch_errors_def update_non_fatal_errors_def Let_def)

lemma core_revert_errors [simp]: "dep_core (revert_subgraph_errors d b) = dep_core d"
proof -
  have "dep_core (d\<lparr>dp_errors := es\<rparr>) = dep_core d" for es by (simp add: dep_core_def)
  moreover have "dep_core (d\<lparr>dp_failed := x, dp_health := y\<rparr>) = dep_core d" for d :: "'a deployment" and x y by (simp add: dep_core_def)
  ultimately show ?thesis by (simp add: revert_subgraph_errors_def Let_def)
qed

lemma core_delete_error [simp]: "dep_core (delete_error d i) = dep_core d"
  by (simp add: dep_core_def delete_error_def)

section \<open>The invariant\<close>

text \<open>The block up to which there is data; there is none before block 0 if the head is not set.\<close>

definition dep_head :: "('e, 'z) deployment_scheme \<Rightarrow> block_number" where
  "dep_head d = (case dp_block_number d of Some n \<Rightarrow> n | None \<Rightarrow> -1)"

definition reorgs_ok :: "('e, 'z) deployment_scheme \<Rightarrow> bool" where
  "reorgs_ok d \<longleftrightarrow>
     0 \<le> dp_current_reorg_depth d \<and> dp_current_reorg_depth d \<le> dp_max_reorg_depth d \<and> dp_max_reorg_depth d \<le> dp_reorg_count d"

definition status_ok :: "('e, 'z) deployment_scheme \<Rightarrow> bool" where
  "status_ok d \<longleftrightarrow> dp_failed d = (dp_health d = Failed) \<and> distinct (map er_id (dp_errors d))"

definition dep_inv :: "type_flags \<Rightarrow> ('e, 'r) dep_env \<Rightarrow> 'e deployment \<Rightarrow> bool" where
  "dep_inv fl env d \<longleftrightarrow>
     (dp_block_hash d = None \<longleftrightarrow> dp_block_number d = None) \<and> dep_head d < BLOCK_NUMBER_MAX \<and>
     layout_inv fl (de_store env) (dep_head d) (dp_tables d) \<and> ds_table_inv (dep_head d) (dp_data_sources d) \<and>
     reorgs_ok d \<and> status_ok d"

lemma status_update: "status_ok d \<Longrightarrow> status_ok (update_deployment_status d h f n)"
  by (cases h) (simp_all add: status_ok_def update_deployment_status_def)

lemma status_insert_error: "status_ok d \<Longrightarrow> status_ok (fst (insert_subgraph_error hash d e))"
  by (auto simp: status_ok_def insert_subgraph_error_def Let_def)

lemma status_fail: "status_ok d \<Longrightarrow> status_ok (fail hash d e)"
  using status_insert_error [of d hash e] by (cases "insert_subgraph_error hash d e") (simp add: fail_def status_update)

lemma status_check_health: "status_ok d \<Longrightarrow> status_ok (check_health d b)"
  by (auto simp: status_ok_def check_health_def Let_def)

lemma status_batch_errors:
  assumes "status_ok d"
  shows "status_ok (batch_errors hash b d)"
proof -
  have "status_ok (fold (\<lambda>e d. fst (insert_subgraph_error hash d e)) es d)" for es
    using assms by (induction es arbitrary: d) (simp_all add: status_insert_error)
  then have "status_ok (insert_subgraph_errors hash d es n)" for es n
    by (simp add: insert_subgraph_errors_def status_check_health)
  moreover from this have "status_ok (update_non_fatal_errors hash (insert_subgraph_errors hash d es n) h x)" for es n h x
    by (simp add: update_non_fatal_errors_def status_update)
  ultimately show ?thesis using assms by (simp add: batch_errors_def Let_def)
qed

lemma status_revert_errors:
  assumes "status_ok d"
  shows "status_ok (revert_subgraph_errors d b)"
proof -
  have "status_ok (d\<lparr>dp_errors := filter P (dp_errors d)\<rparr>)" for P
    using assms by (simp add: status_ok_def distinct_map_filter)
  from status_check_health [OF this] show ?thesis
    by (auto simp: revert_subgraph_errors_def Let_def status_ok_def)
qed

lemma dep_inv_core:
  "dep_core d' = dep_core d \<Longrightarrow> status_ok d' \<Longrightarrow> dep_inv fl env d \<Longrightarrow> dep_inv fl env d'"
  by (simp add: dep_inv_def dep_core_def dep_head_def reorgs_ok_def)

section \<open>Writing a batch\<close>

text \<open>
  What is assumed of the statements that run rollups: they keep the tables in order and only write
  into the tables of aggregations.
\<close>

definition rollups_ok :: "type_flags \<Rightarrow> ('e, 'r) dep_env \<Rightarrow> entity_type set \<Rightarrow> bool" where
  "rollups_ok fl env aggs \<longleftrightarrow>
     (\<forall>r rng b l l' n. de_run_rollup env r rng b l = Ok l' \<longrightarrow> layout_inv fl (de_store env) n l \<longrightarrow>
        layout_inv fl (de_store env) n l' \<and> (\<forall>key x. k_entity_type key \<notin> aggs \<longrightarrow> layout_find l' key x = layout_find l key x))"

definition env_ok :: "type_flags \<Rightarrow> ('e, 'r) dep_env \<Rightarrow> entity_type set \<Rightarrow> bool" where
  "env_ok fl env aggs \<longleftrightarrow> (\<forall>c. \<not> env_too_large (de_store env) c) \<and> rollups_ok fl env aggs"

definition sources_upto :: "block_number \<Rightarrow> dds data_sources \<Rightarrow> bool" where
  "sources_upto n entries \<longleftrightarrow> (\<forall>ds \<in> set (all_sources entries). \<exists>c \<le> n. ds_creation_block ds = Some c)"

definition batch_fits :: "type_flags \<Rightarrow> bool \<Rightarrow> 'e deployment \<Rightarrow> 'e write_batch \<Rightarrow> bool" where
  "batch_fits fl memo d b \<longleftrightarrow>
     batch_inv fl memo b \<and> dep_head d < b_first_block b \<and> bp_number (b_block_ptr b) < BLOCK_NUMBER_MAX \<and>
     groups_fit (dp_tables d) (b_mods b) \<and> sources_upto (bp_number (b_block_ptr b)) (b_data_sources b)"

lemma rollup_block_law:
  assumes "rollup_block (de_interval env) (de_run_rollup env) lr b t rs l = Ok l'" "rollups_ok fl env aggs"
    "layout_inv fl (de_store env) n l"
  shows "layout_inv fl (de_store env) n l' \<and> (k_entity_type key \<notin> aggs \<longrightarrow> layout_find l' key x = layout_find l key x)"
  using assms
proof (induction rs arbitrary: l)
  case (Cons r rs)
  show ?case
  proof (cases "buckets (de_interval env r) lr t")
    case Nil
    then show ?thesis using Cons.prems by simp
  next
    case (Cons k ks)
    with Cons.prems obtain l1 where l1: "de_run_rollup env r k b l = Ok l1"
      "rollup_block (de_interval env) (de_run_rollup env) lr b t rs l1 = Ok l'"
      by (auto simp: outcome_simps)
    then have "layout_inv fl (de_store env) n l1" "k_entity_type key \<notin> aggs \<longrightarrow> layout_find l1 key x = layout_find l key x"
      using Cons.prems(2,3) unfolding rollups_ok_def by blast+
    with Cons.IH [OF l1(2) Cons.prems(2)] show ?thesis by simp
  qed
qed simp

lemma layout_rollup_law:
  assumes "layout_rollup (de_interval env) (de_run_rollup env) rs lr bts l = Ok l'" "rollups_ok fl env aggs"
    "layout_inv fl (de_store env) n l"
  shows "layout_inv fl (de_store env) n l' \<and> (k_entity_type key \<notin> aggs \<longrightarrow> layout_find l' key x = layout_find l key x)"
proof -
  let ?P = "\<lambda>l'. layout_inv fl (de_store env) n l' \<and> (k_entity_type key \<notin> aggs \<longrightarrow> layout_find l' key x = layout_find l key x)"
  have "?P (snd z)" if "rollup_loop (de_interval env) (de_run_rollup env) rs s bts l = Ok z" for s z
    using that unfolding rollup_loop_def
  proof (rule try_fold_invariant [where P = "\<lambda>z. ?P (snd z)"])
    show "?P (snd (s, l))" using assms(3) by simp
  next
    fix q :: "int \<times> 'a layout" and bt t
    assume "?P (snd q)" and "(case q of (lr, s) \<Rightarrow> \<lambda>(b, time). map_ok (\<lambda>s'. (time, s'))
        (rollup_block (de_interval env) (de_run_rollup env) lr b time rs s)) bt = Ok t"
    then show "?P (snd t)"
      using rollup_block_law [OF _ assms(2), of _ "fst bt" "snd bt" rs "snd q" "snd t" n key x]
      by (cases q; cases bt) (auto simp: outcome_simps)
  qed
  then show ?thesis using assms(1,3) by (auto simp: layout_rollup_def outcome_simps split: list.splits prod.splits)
qed

lemma set_done_inv: "set_done rows ds = Ok rows' \<Longrightarrow> ds_table_inv n rows \<Longrightarrow> ds_table_inv n rows'"
  by (auto simp: set_done_def Let_def ds_table_inv_def ds_row_ok_def split: if_splits)

lemma update_offchain_inv:
  assumes "dynds_update_offchain_status rows entries = Ok rows'" "ds_table_inv n rows"
  shows "ds_table_inv n rows'"
proof (cases "data_sources_is_empty entries")
  case False
  with assms(1) have "try_fold (\<lambda>rows (_, dss). try_fold set_done rows dss) rows entries = Ok rows'"
    by (simp add: dynds_update_offchain_status_def)
  then show ?thesis
  proof (rule try_fold_invariant [where P = "ds_table_inv n"])
    fix rows e t
    assume "ds_table_inv n rows" "(case e of (_, dss) \<Rightarrow> try_fold set_done rows dss) = Ok t"
    then show "ds_table_inv n t"
      by (cases e) (auto elim!: try_fold_invariant [where P = "ds_table_inv n"] intro: set_done_inv)
  qed (rule assms(2))
qed (use assms in \<open>simp add: dynds_update_offchain_status_def\<close>)

lemma insert_sources_inv:
  assumes "dynds_insert rows entries = Ok rows'" "ds_table_inv h rows" "h \<le> n" "sources_upto n entries"
  shows "ds_table_inv n rows'"
proof -
  have "ds_row_ok n (row_of_stored ds)" if "ds \<in> set (all_sources entries)" for ds
    using that assms(4) unfolding sources_upto_def by (auto simp: ds_row_ok_def row_of_stored_def)
  moreover have "ds_row_ok n r" if "r \<in> set rows" for r
    using that assms(2,3) by (fastforce simp: ds_table_inv_def ds_row_ok_def)
  ultimately show ?thesis using dynds_insert_Ok [OF assms(1)] by (auto simp: ds_table_inv_def)
qed

lemma transact_Ok:
  assumes "transact_block_operations env d b lr = Some (Ok d')"
  obtains l1 c l2 dss1 dss2 where
    "apply_entity_modifications (de_show_id env) (de_store env) (dp_tables d) (b_mods b) = Some (Ok (l1, c))"
    "layout_rollup (de_interval env) (de_run_rollup env) (de_rollups env) lr (b_block_times b) l1 = Ok l2"
    "dynds_insert (dp_data_sources d) (b_data_sources b) = Ok dss1"
    "dynds_update_offchain_status dss1 (b_offchain_to_remove b) = Ok dss2"
    "map_ok fst (transact_block (batch_errors (de_hash env) b (d\<lparr>dp_tables := l2, dp_data_sources := dss2\<rparr>))
       (b_block_ptr b) (b_firehose_cursor b) c) = Ok d'"
  using assms unfolding transact_block_operations_def
  by (auto simp: outcome_simps split: prod.splits)

text \<open>What \<open>transact_block\<close> changes: the head, the counters and the cursor\<close>

lemma transact_block_Ok:
  assumes "map_ok fst (transact_block d ptr cursor c) = Ok d'"
  shows "dp_tables d' = dp_tables d \<and> dp_data_sources d' = dp_data_sources d \<and> dp_errors d' = dp_errors d \<and>
    dp_health d' = dp_health d \<and> dp_failed d' = dp_failed d \<and> dp_fatal_error d' = dp_fatal_error d \<and>
    dp_block_number d' = Some (bp_number ptr) \<and> dp_block_hash d' = Some (bp_hash ptr) \<and> dp_firehose_cursor d' = cursor \<and>
    dp_entity_count d' = dp_entity_count d + c \<and> dp_earliest_block d' = dp_earliest_block d \<and> dp_graft_block d' = dp_graft_block d \<and>
    (reorgs_ok d \<longrightarrow> reorgs_ok d') \<and> (\<exists>h. dep_block_ptr d = Ok h \<and> (\<forall>p. h = Some p \<longrightarrow> bp_number p < bp_number ptr))"
  using assms
  by (auto simp: transact_block_def reset_reorg_count_def reorgs_ok_def Let_def outcome_simps split: if_splits option.splits)

lemma transact_law:
  assumes T: "transact_block_operations env d b lr = Some (Ok d')" and inv: "dep_inv fl env d"
    and env: "env_ok fl env aggs" and b: "batch_fits fl memo d b"
  shows "dep_inv fl env d' \<and> dep_head d' = bp_number (b_block_ptr b) \<and> dep_block_ptr d' = Ok (Some (b_block_ptr b)) \<and>
    dp_graft_block d' = dp_graft_block d \<and> dp_earliest_block d' = dp_earliest_block d \<and>
    (k_entity_type key \<notin> aggs \<longrightarrow> (\<forall>g \<in> set (b_mods b). same_key key g) \<longrightarrow> x \<le> BLOCK_NUMBER_MAX \<longrightarrow>
     layout_find (dp_tables d') key x =
       (case batch_last_op False b key x of Some op \<Rightarrow> Ok (op_value op) | None \<Rightarrow> layout_find (dp_tables d) key x))"
proof -
  let ?n = "bp_number (b_block_ptr b)"
  obtain l1 c l2 dss1 dss2 where o: "apply_entity_modifications (de_show_id env) (de_store env) (dp_tables d) (b_mods b) = Some (Ok (l1, c))"
    "layout_rollup (de_interval env) (de_run_rollup env) (de_rollups env) lr (b_block_times b) l1 = Ok l2"
    "dynds_insert (dp_data_sources d) (b_data_sources b) = Ok dss1"
    "dynds_update_offchain_status dss1 (b_offchain_to_remove b) = Ok dss2"
    "map_ok fst (transact_block (batch_errors (de_hash env) b (d\<lparr>dp_tables := l2, dp_data_sources := dss2\<rparr>))
       (b_block_ptr b) (b_firehose_cursor b) c) = Ok d'"
    by (rule transact_Ok [OF T])
  define e where "e = batch_errors (de_hash env) b (d\<lparr>dp_tables := l2, dp_data_sources := dss2\<rparr>)"
  have e: "dep_core e = dep_core (d\<lparr>dp_tables := l2, dp_data_sources := dss2\<rparr>)" "status_ok e"
    using inv status_batch_errors [of "d\<lparr>dp_tables := l2, dp_data_sources := dss2\<rparr>"] by (auto simp: e_def dep_inv_def status_ok_def)
  note t = transact_block_Ok [OF o(5) [folded e_def]]
  have bi: "groups_inv fl memo (b_first_block b) ?n (b_mods b)" "b_first_block b \<le> ?n" "dep_head d < b_first_block b" "?n \<le> BLOCK_NUMBER_MAX"
    using b by (auto simp: batch_fits_def batch_inv_def)
  have w: "layout_inv fl (de_store env) ?n l1 \<and>
      ((\<forall>g \<in> set (b_mods b). same_key key g) \<longrightarrow> x \<le> BLOCK_NUMBER_MAX \<longrightarrow>
       layout_find l1 key x = (case groups_last_op (b_mods b) key x of Some op \<Rightarrow> Ok (op_value op) | None \<Rightarrow> layout_find (dp_tables d) key x))"
    using layout_write_law [OF o(1) _ _ bi(1,3,2,4)] inv env b by (simp add: dep_inv_def env_ok_def batch_fits_def)
  have r: "layout_inv fl (de_store env) ?n l2 \<and> (k_entity_type key \<notin> aggs \<longrightarrow> layout_find l2 key x = layout_find l1 key x)"
    by (rule layout_rollup_law [OF o(2)]) (use env w in \<open>simp_all add: env_ok_def\<close>)
  have "ds_table_inv ?n dss1" using insert_sources_inv [OF o(3), of "dep_head d" ?n] inv b bi by (simp add: dep_inv_def batch_fits_def)
  then have "ds_table_inv ?n dss2" by (rule update_offchain_inv [OF o(4)])
  then have "dep_inv fl env d'"
    using t r e inv b by (simp add: batch_fits_def dep_inv_def dep_head_def dep_core_def status_ok_def reorgs_ok_def)
  then show ?thesis
    using t e w r by (auto simp: dep_head_def dep_core_def dep_block_ptr_def detail_block_def batch_last_op_def groups_last_op_def)
qed

section \<open>Reverting\<close>

lemma revert_ptr_Ok:
  assumes "revert_block_ptr thr d ptr cursor = Ok d1"
  shows "dp_earliest_block d \<le> max (bp_number ptr - thr) 0 \<and> dp_tables d1 = dp_tables d \<and> dp_data_sources d1 = dp_data_sources d \<and>
    dp_errors d1 = dp_errors d \<and> dp_health d1 = dp_health d \<and> dp_failed d1 = dp_failed d \<and> dp_fatal_error d1 = dp_fatal_error d \<and>
    dp_block_number d1 = Some (bp_number ptr) \<and> dp_block_hash d1 = Some (bp_hash ptr) \<and> dp_firehose_cursor d1 = cursor \<and>
    dp_entity_count d1 = dp_entity_count d \<and> dp_earliest_block d1 = dp_earliest_block d \<and> dp_graft_block d1 = dp_graft_block d \<and>
    dp_reorg_count d1 = dp_reorg_count d + 1 \<and> dp_current_reorg_depth d1 = dp_current_reorg_depth d + 1 \<and> (reorgs_ok d \<longrightarrow> reorgs_ok d1)"
  using assms by (auto simp: revert_block_ptr_def Let_def reorgs_ok_def split: if_splits)

lemma core_update_count:
  "dp_tables (update_entity_count d c) = dp_tables d" "dp_data_sources (update_entity_count d c) = dp_data_sources d"
  "dp_errors (update_entity_count d c) = dp_errors d" "dp_health (update_entity_count d c) = dp_health d"
  "dp_failed (update_entity_count d c) = dp_failed d" "dp_block_number (update_entity_count d c) = dp_block_number d"
  "dp_block_hash (update_entity_count d c) = dp_block_hash d" "dp_graft_block (update_entity_count d c) = dp_graft_block d"
  "dp_earliest_block (update_entity_count d c) = dp_earliest_block d" "dp_reorg_count (update_entity_count d c) = dp_reorg_count d"
  "dp_current_reorg_depth (update_entity_count d c) = dp_current_reorg_depth d"
  "dp_max_reorg_depth (update_entity_count d c) = dp_max_reorg_depth d"
  by (simp_all add: update_entity_count_def)

lemma revert_sources_inv: "ds_table_inv h rows \<Longrightarrow> ds_table_inv r (dynds_revert rows (r + 1))"
  by (fastforce simp: ds_table_inv_def ds_row_ok_def dynds_revert_def)

lemma truncated_inv: "layout_inv fl env h l \<Longrightarrow> layout_inv fl env r (truncate_tables l)"
  by (auto simp: layout_inv_def truncate_tables_def table_inv_def comp_def case_prod_beta)

lemma rewind_law:
  assumes R: "rewind_or_truncate env d to_ptr cursor trunc = Ok d'" and inv: "dep_inv fl env d"
    and to_ptr: "bp_number to_ptr < BLOCK_NUMBER_MAX"
  shows "dep_inv fl env d' \<and> dep_head d' = bp_number to_ptr \<and> dep_block_ptr d' = Ok (Some to_ptr) \<and>
    dp_data_sources d' = dynds_revert (dp_data_sources d) (bp_number to_ptr + 1) \<and>
    dp_errors d' = filter (\<lambda>e. er_lower e \<le> bp_number to_ptr) (dp_errors d) \<and> dp_graft_block d' = dp_graft_block d \<and>
    dp_earliest_block d' = dp_earliest_block d \<and>
    (\<not> trunc \<longrightarrow> x \<le> BLOCK_NUMBER_MAX \<longrightarrow>
       layout_find (dp_tables d') key x = layout_find (dp_tables d) key (min x (bp_number to_ptr)))"
proof -
  let ?r = "bp_number to_ptr"
  from R obtain d1 where d1: "revert_block_ptr (de_reorg_threshold env) d to_ptr cursor = Ok d1" by (auto simp: rewind_or_truncate_def Let_def outcome_simps)
  note p = revert_ptr_Ok [OF d1]
  have h: "layout_inv fl (de_store env) (dep_head d) (dp_tables d)" "dep_head d < BLOCK_NUMBER_MAX" using inv by (auto simp: dep_inv_def)
  obtain d2 where d2: "d' = revert_subgraph_errors (d2\<lparr>dp_data_sources := dynds_revert (dp_data_sources d2) (?r + 1)\<rparr>) (?r + 1)"
    "dp_data_sources d2 = dp_data_sources d" "dp_errors d2 = dp_errors d" "dp_health d2 = dp_health d" "dp_failed d2 = dp_failed d"
    "dp_block_number d2 = Some ?r" "dp_block_hash d2 = Some (bp_hash to_ptr)" "dp_graft_block d2 = dp_graft_block d"
    "dp_earliest_block d2 = dp_earliest_block d" "reorgs_ok d2" "layout_inv fl (de_store env) ?r (dp_tables d2)"
    "\<not> trunc \<longrightarrow> x \<le> BLOCK_NUMBER_MAX \<longrightarrow> layout_find (dp_tables d2) key x = layout_find (dp_tables d) key (min x ?r)"
  proof (cases trunc)
    case True
    show ?thesis
      by (rule that [of "clear_entity_count (d1\<lparr>dp_tables := truncate_tables (dp_tables d1)\<rparr>)"])
        (use R d1 p True inv truncated_inv [OF h(1)] in \<open>auto simp: rewind_or_truncate_def Let_def clear_entity_count_def dep_inv_def reorgs_ok_def\<close>)
  next
    case False
    obtain l c where l: "layout_revert_block (dp_tables d) (?r + 1) = Ok (l, c)" using layout_revert_eq by blast
    show ?thesis
      by (rule that [of "update_entity_count (d1\<lparr>dp_tables := l\<rparr>) c"])
        (use R d1 p l False inv layout_revert_law [OF l h to_ptr, of x key] in
          \<open>auto simp: rewind_or_truncate_def Let_def core_update_count dep_inv_def reorgs_ok_def\<close>)
  qed
  define e where "e = d2\<lparr>dp_data_sources := dynds_revert (dp_data_sources d2) (?r + 1)\<rparr>"
  have "status_ok e" using inv d2(3-5) by (simp add: e_def dep_inv_def status_ok_def)
  then have "status_ok d'" by (simp add: d2(1) e_def [symmetric] status_revert_errors)
  moreover have "dep_core d' = dep_core e" by (simp add: d2(1) e_def)
  moreover have "dp_errors d' = filter (\<lambda>e. er_lower e < ?r + 1) (dp_errors d)"
    by (simp add: d2(1,3) revert_subgraph_errors_def check_health_def Let_def)
  moreover have "ds_table_inv ?r (dynds_revert (dp_data_sources d) (?r + 1))"
    using inv revert_sources_inv by (auto simp: dep_inv_def)
  ultimately show ?thesis
    using d2(2-) to_ptr by (simp add: e_def dep_inv_def dep_core_def dep_head_def reorgs_ok_def dep_block_ptr_def detail_block_def)
qed

lemma rewind_inv:
  "rewind_or_truncate env d to_ptr cursor trunc = Ok d' \<Longrightarrow> dep_inv fl env d \<Longrightarrow> bp_number to_ptr < BLOCK_NUMBER_MAX \<Longrightarrow>
     dep_inv fl env d'"
  using rewind_law by blast

lemma revert_ops_Ok:
  assumes "revert_block_operations env d p c = Ok d'"
  shows "rewind_or_truncate env d p c False = Ok d' \<and> (\<exists>h. dep_block_ptr d = Ok (Some h) \<and> bp_number p < bp_number h) \<and>
    (\<forall>g. dp_graft_block d = Some g \<longrightarrow> g \<le> bp_number p)"
  using assms by (auto simp: revert_block_operations_def outcome_simps split: option.splits if_splits)

text \<open>Where a revert goes and where a write comes from\<close>

lemma revert_limits:
  assumes "revert_block_operations env d p c = Ok d'"
  shows "dep_block_ptr d' = Ok (Some p) \<and> (\<exists>h. dep_block_ptr d = Ok (Some h) \<and> bp_number p < bp_number h) \<and>
    (\<forall>g. dp_graft_block d = Some g \<longrightarrow> g \<le> bp_number p) \<and>
    dp_earliest_block d \<le> max (bp_number p - de_reorg_threshold env) 0 \<and> dp_reorg_count d' = dp_reorg_count d + 1"
proof -
  note r = revert_ops_Ok [OF assms]
  obtain d1 l k where d1: "revert_block_ptr (de_reorg_threshold env) d p c = Ok d1"
    and d': "d' = revert_subgraph_errors ((update_entity_count (d1\<lparr>dp_tables := l\<rparr>) k)
        \<lparr>dp_data_sources := dynds_revert (dp_data_sources (update_entity_count (d1\<lparr>dp_tables := l\<rparr>) k)) (bp_number p + 1)\<rparr>) (bp_number p + 1)"
    using r by (auto simp: rewind_or_truncate_def Let_def outcome_simps)
  have "dep_core d' = dep_core ((update_entity_count (d1\<lparr>dp_tables := l\<rparr>) k)
        \<lparr>dp_data_sources := dynds_revert (dp_data_sources (update_entity_count (d1\<lparr>dp_tables := l\<rparr>) k)) (bp_number p + 1)\<rparr>)"
    unfolding d' by (rule core_revert_errors)
  with r revert_ptr_Ok [OF d1] show ?thesis
    by (simp add: dep_core_def core_update_count dep_block_ptr_def detail_block_def)
qed

lemma transact_head:
  assumes "transact_block_operations env d b lr = Some (Ok d')"
  shows "dep_block_ptr d' = Ok (Some (b_block_ptr b)) \<and>
    (\<exists>head. dep_block_ptr d = Ok head \<and> (\<forall>p. head = Some p \<longrightarrow> bp_number p < bp_number (b_block_ptr b)))"
proof -
  obtain l2 dss2 c where "map_ok fst (transact_block (batch_errors (de_hash env) b (d\<lparr>dp_tables := l2, dp_data_sources := dss2\<rparr>))
       (b_block_ptr b) (b_firehose_cursor b) c) = Ok d'"
    using transact_Ok [OF assms] by metis
  note t = transact_block_Ok [OF this]
  have "dep_block_ptr (batch_errors (de_hash env) b (d\<lparr>dp_tables := l2, dp_data_sources := dss2\<rparr>)) = dep_block_ptr d"
    using core_batch_errors [of "de_hash env" b "d\<lparr>dp_tables := l2, dp_data_sources := dss2\<rparr>"]
    by (simp add: dep_core_def dep_block_ptr_def)
  with t show ?thesis by (auto simp: dep_block_ptr_def detail_block_def)
qed

section \<open>Steps\<close>

lemma layout_inv_mono: "layout_inv fl env h l \<Longrightarrow> h \<le> n \<Longrightarrow> layout_inv fl env n l"
  by (fastforce simp: layout_inv_def table_inv_def version_ok_def intro: version_upto_mono)

lemma ds_table_inv_mono: "ds_table_inv h rows \<Longrightarrow> h \<le> n \<Longrightarrow> ds_table_inv n rows"
  by (fastforce simp: ds_table_inv_def ds_row_ok_def)

text \<open>The steps of a deployment: the operations that \<open>DeploymentStore\<close> offers\<close>

inductive dep_step :: "type_flags \<Rightarrow> bool \<Rightarrow> ('e, 'r) dep_env \<Rightarrow> 'e deployment \<Rightarrow> 'e deployment \<Rightarrow> bool"
  for fl memo env where
  step_transact: "batch_fits fl memo d b \<Longrightarrow> transact_block_operations env d b lr = Some (Ok d') \<Longrightarrow> dep_step fl memo env d d'"
| step_revert: "bp_number p < BLOCK_NUMBER_MAX \<Longrightarrow> revert_block_operations env d p c = Ok d' \<Longrightarrow> dep_step fl memo env d d'"
| step_rewind: "bp_number p < BLOCK_NUMBER_MAX \<Longrightarrow> rewind env d p = Ok d' \<Longrightarrow> dep_step fl memo env d d'"
| step_truncate: "bp_number p < BLOCK_NUMBER_MAX \<Longrightarrow> truncate_deployment env d p = Ok d' \<Longrightarrow> dep_step fl memo env d d'"
| step_forward: "-1 \<le> bp_number p \<Longrightarrow> bp_number p < BLOCK_NUMBER_MAX \<Longrightarrow> forward_block_ptr d p = Ok d' \<Longrightarrow> dep_step fl memo env d d'"
| step_initialize: "dp_start_block d = Some p \<Longrightarrow> -1 \<le> bp_number p \<Longrightarrow> bp_number p < BLOCK_NUMBER_MAX \<Longrightarrow>
    dep_step fl memo env d (initialize_block_ptr d)"
| step_fail: "dep_step fl memo env d (fail (de_hash env) d e)"
| step_unfail: "bp_number parent < BLOCK_NUMBER_MAX \<Longrightarrow> unfail_deterministic_error env d current parent = Ok (d', out) \<Longrightarrow>
    dep_step fl memo env d d'"
| step_unfail_non: "unfail_non_deterministic_error d current = (d', out) \<Longrightarrow> dep_step fl memo env d d'"
| step_synced: "dep_step fl memo env d (set_synced d p)"
| step_earliest: "dep_step fl memo env d (set_earliest_block d b)"

lemma dep_step_inv:
  assumes "dep_step fl memo env d d'" "env_ok fl env aggs" "dep_inv fl env d"
  shows "dep_inv fl env d'"
  using assms
proof (cases rule: dep_step.cases)
  case (step_transact b lr)
  then show ?thesis using transact_law [OF step_transact(2)] assms by blast
next
  case (step_revert p c)
  then show ?thesis using rewind_inv revert_ops_Ok assms(3) by blast
next
  case (step_rewind p)
  then show ?thesis using assms(3) by (auto simp: rewind_def outcome_simps intro: rewind_inv)
next
  case (step_truncate p)
  then show ?thesis using assms(3) by (auto simp: truncate_deployment_def outcome_simps intro: rewind_inv)
next
  case (step_forward p)
  then have "d' = (reset_reorg_count d)\<lparr>dp_block_number := Some (bp_number p), dp_block_hash := Some (bp_hash p)\<rparr>" "dep_head d \<le> bp_number p"
    by (auto simp: forward_block_ptr_def Let_def reset_reorg_count_def dep_head_def outcome_simps split: if_splits option.splits)
  then show ?thesis
    using assms(3) step_forward(2) layout_inv_mono ds_table_inv_mono
    by (fastforce simp: dep_inv_def dep_head_def reorgs_ok_def status_ok_def reset_reorg_count_def)
next
  case (step_initialize p)
  then have "dep_head d \<le> bp_number p" if "dp_block_hash d = None"
    using assms(3) that by (simp add: dep_inv_def dep_head_def)
  then show ?thesis
    using assms(3) step_initialize layout_inv_mono ds_table_inv_mono
    by (fastforce simp: initialize_block_ptr_def dep_inv_def dep_head_def reorgs_ok_def status_ok_def)
next
  case (step_fail e)
  then show ?thesis using dep_inv_core [OF _ status_fail assms(3)] assms(3) by (simp add: dep_inv_def)
next
  case (step_unfail parent current out)
  then obtain d1 h where "d' = d \<or> revert_block_operations env d parent None = Ok d1 \<and> d' = update_deployment_status d1 h None None"
    by (auto simp: unfail_deterministic_error_def Let_def outcome_simps split: option.splits if_splits)
  then show ?thesis
  proof (elim disjE conjE)
    assume r: "revert_block_operations env d parent None = Ok d1" and d': "d' = update_deployment_status d1 h None None"
    have "dep_inv fl env d1" using rewind_inv revert_ops_Ok [OF r] assms(3) step_unfail(1) by blast
    moreover from this have "status_ok d1" by (simp add: dep_inv_def)
    ultimately show ?thesis unfolding d' using dep_inv_core [OF core_update_status status_update] by blast
  qed (use assms(3) in simp)
next
  case (step_unfail_non current out)
  have "status_ok (delete_error (update_deployment_status d Healthy None None) i)" for i
    using assms(3) by (simp add: dep_inv_def status_ok_def delete_error_def update_deployment_status_def distinct_map_filter)
  then have "d' = d \<or> dep_core d' = dep_core d \<and> status_ok d'"
    using step_unfail_non by (auto simp: unfail_non_deterministic_error_def split: option.splits if_splits)
  then show ?thesis using dep_inv_core [of d' d] assms(3) by blast
next
  case (step_synced p)
  then show ?thesis using assms(3) by (simp add: set_synced_def dep_inv_def dep_head_def reorgs_ok_def status_ok_def)
next
  case (step_earliest b)
  then show ?thesis using assms(3) by (simp add: set_earliest_block_def dep_inv_def dep_head_def reorgs_ok_def status_ok_def)
qed

section \<open>Errors of a batch\<close>

lemma insert_errors_rows:
  "\<exists>new. dp_errors (fold (\<lambda>e d. fst (insert_subgraph_error hash d e)) es d) = dp_errors d @ new \<and>
     (\<forall>r \<in> set new. \<exists>e \<in> set es. er_lower r = (case se_block_ptr e of None \<Rightarrow> BLOCK_UNVERSIONED | Some p \<Rightarrow> bp_number p))"
proof (induction es arbitrary: d)
  case (Cons e es)
  have "\<exists>n1. dp_errors (fst (insert_subgraph_error hash d e)) = dp_errors d @ n1 \<and>
    (\<forall>r \<in> set n1. er_lower r = (case se_block_ptr e of None \<Rightarrow> BLOCK_UNVERSIONED | Some p \<Rightarrow> bp_number p))"
    by (cases "hash e \<in> er_id ` set (dp_errors d)") (simp_all add: insert_subgraph_error_def Let_def)
  then obtain n1 where "dp_errors (fst (insert_subgraph_error hash d e)) = dp_errors d @ n1"
    "\<forall>r \<in> set n1. er_lower r = (case se_block_ptr e of None \<Rightarrow> BLOCK_UNVERSIONED | Some p \<Rightarrow> bp_number p)"
    by blast
  with Cons.IH [of "fst (insert_subgraph_error hash d e)"] show ?case by fastforce
qed simp

lemma batch_errors_rows:
  "\<exists>new. dp_errors (batch_errors hash b d) = dp_errors d @ new \<and>
     (\<forall>r \<in> set new. \<exists>e \<in> set (b_deterministic_errors b).
        er_lower r = (case se_block_ptr e of None \<Rightarrow> BLOCK_UNVERSIONED | Some p \<Rightarrow> bp_number p))"
proof -
  have "dp_errors (check_health e n) = dp_errors e" for e :: "'a deployment" and n by (simp add: check_health_def Let_def)
  moreover have "dp_errors (update_non_fatal_errors hash e h x) = dp_errors e" for e :: "'a deployment" and h x
    by (simp add: update_non_fatal_errors_def update_deployment_status_def)
  ultimately show ?thesis
    using insert_errors_rows [of hash "b_deterministic_errors b" d] by (auto simp: batch_errors_def Let_def insert_subgraph_errors_def)
qed

text \<open>A batch all of whose data sources and errors belong to blocks after \<open>h\<close> and that marks no data source as done\<close>

definition batch_after :: "block_number \<Rightarrow> 'e write_batch \<Rightarrow> bool" where
  "batch_after h b \<longleftrightarrow>
     b_offchain_to_remove b = [] \<and>
     (\<forall>ds \<in> set (all_sources (b_data_sources b)). \<exists>c > h. ds_creation_block ds = Some c) \<and>
     (\<forall>e \<in> set (b_deterministic_errors b). \<exists>p. se_block_ptr e = Some p \<and> h < bp_number p)"

lemma transact_sources_errors:
  assumes T: "transact_block_operations env d b lr = Some (Ok d')" and inv: "dep_inv fl env d"
    and after: "batch_after h b" "dep_head d \<le> h" and old: "\<forall>e \<in> set (dp_errors d). er_lower e \<le> h"
  shows "dynds_revert (dp_data_sources d') (h + 1) = dp_data_sources d \<and>
    filter (\<lambda>e. er_lower e \<le> h) (dp_errors d') = dp_errors d"
proof -
  obtain l2 dss1 dss2 c where o: "dynds_insert (dp_data_sources d) (b_data_sources b) = Ok dss1"
    "dynds_update_offchain_status dss1 (b_offchain_to_remove b) = Ok dss2"
    "map_ok fst (transact_block (batch_errors (de_hash env) b (d\<lparr>dp_tables := l2, dp_data_sources := dss2\<rparr>))
       (b_block_ptr b) (b_firehose_cursor b) c) = Ok d'"
    using transact_Ok [OF T] by metis
  define e where "e = batch_errors (de_hash env) b (d\<lparr>dp_tables := l2, dp_data_sources := dss2\<rparr>)"
  have e: "dp_data_sources d' = dp_data_sources e" "dp_errors d' = dp_errors e"
    using transact_block_Ok [OF o(3)] by (auto simp: e_def)
  have "dss2 = dss1" using o(2) after(1) by (simp add: batch_after_def dynds_update_offchain_status_def data_sources_is_empty_def)
  then have "dp_data_sources e = dp_data_sources d @ map row_of_stored (all_sources (b_data_sources b))"
    using core_batch_errors [of "de_hash env" b "d\<lparr>dp_tables := l2, dp_data_sources := dss2\<rparr>"] dynds_insert_Ok [OF o(1)]
    by (simp add: e_def dep_core_def)
  moreover have "\<forall>r \<in> set (dp_data_sources d). \<exists>lo \<le> h. dr_lower r = Some lo"
    using inv after(2) by (fastforce simp: dep_inv_def ds_table_inv_def ds_row_ok_def)
  ultimately have "dynds_revert (dp_data_sources d') (h + 1) = dp_data_sources d"
    using after(1) e(1) by (simp add: batch_after_def dynds_revert_insert)
  moreover obtain new where "dp_errors e = dp_errors d @ new"
    "\<forall>r \<in> set new. \<exists>x \<in> set (b_deterministic_errors b).
        er_lower r = (case se_block_ptr x of None \<Rightarrow> BLOCK_UNVERSIONED | Some p \<Rightarrow> bp_number p)"
    using batch_errors_rows [of "de_hash env" b "d\<lparr>dp_tables := l2, dp_data_sources := dss2\<rparr>"] by (auto simp: e_def)
  then have "filter (\<lambda>e. er_lower e \<le> h) (dp_errors d') = dp_errors d"
    using e(2) old after(1) by (fastforce simp: batch_after_def filter_id_conv filter_empty_conv)
  ultimately show ?thesis by blast
qed

section \<open>Example data\<close>

definition example_dep_env :: "(nat, aggregation_interval) dep_env" where
  "example_dep_env = \<lparr>de_store = example_env, de_show_id = (\<lambda>_. []), de_hash = se_message, de_reorg_threshold = 2,
     de_rollups = [], de_interval = id, de_run_rollup = (\<lambda>_ _ _ l. Ok l)\<rparr>"

text \<open>A deployment at block 4 with one entity\<close>

definition example_dep :: "nat deployment" where
  "example_dep = \<lparr>dp_hash = ''Qm'', dp_tables = example_layout example_rows_before, dp_block_number = Some 4, dp_block_hash = Some [4],
     dp_firehose_cursor = None, dp_entity_count = 1, dp_start_block = None, dp_earliest_block = 0, dp_graft_block = None,
     dp_reorg_count = 0, dp_current_reorg_depth = 0, dp_max_reorg_depth = 0, dp_synced_at_block = None, dp_failed = False,
     dp_health = Healthy, dp_fatal_error = None, dp_non_fatal_errors = [], dp_errors = [], dp_data_sources = []\<rparr>"

definition example_write_batch :: "nat write_batch" where
  "example_write_batch =
     \<lparr>b_block_ptr = example_ptr 5, b_block_times = [(5, 0)], b_first_block = 5, b_firehose_cursor = None,
      b_mods = b_mods example_batch, b_data_sources = [], b_deterministic_errors = [],
      b_offchain_to_remove = [], b_error = None, b_is_non_fatal_errors_active = False, b_indirect_weight = 0\<rparr>"

lemma example_dep_simps [simp]:
  "de_store example_dep_env = example_env" "de_rollups example_dep_env = []" "de_reorg_threshold example_dep_env = 2"
  "dp_tables example_dep = example_layout example_rows_before" "dp_block_number example_dep = Some 4" "dp_block_hash example_dep = Some [4]"
  "dp_errors example_dep = []" "dp_data_sources example_dep = []" "dp_graft_block example_dep = None" "dp_earliest_block example_dep = 0"
  "b_mods example_write_batch = b_mods example_batch" "b_block_ptr example_write_batch = example_ptr 5" "b_first_block example_write_batch = 5"
  "b_data_sources example_write_batch = []" "b_deterministic_errors example_write_batch = []" "b_offchain_to_remove example_write_batch = []"
  "b_block_times example_write_batch = [(5, 0)]" "dep_head example_dep = 4"
  by (simp_all add: example_dep_env_def example_dep_def example_write_batch_def dep_head_def)

lemma example_dep_inv: "dep_inv example_flags example_dep_env example_dep"
  using example_batch_ok(4)
  by (simp add: dep_inv_def BLOCK_NUMBER_MAX_def ds_table_inv_def) (simp add: example_dep_def reorgs_ok_def status_ok_def)

lemma example_env_ok: "env_ok example_flags example_dep_env aggs"
  by (simp add: env_ok_def rollups_ok_def) (simp add: example_dep_env_def)

lemma example_batch_fits: "batch_fits example_flags True example_dep example_write_batch"
  using example_batch_ok(1-3,5)
  by (simp add: batch_fits_def batch_inv_def BLOCK_NUMBER_MAX_def sources_upto_def)

lemma example_transact:
  "\<exists>d. transact_block_operations example_dep_env example_dep example_write_batch None = Some (Ok d) \<and>
     dp_tables d = example_layout example_rows_after"
  using example_batch_ok(6) [of "\<lambda>_. []"]
  by (simp add: transact_block_operations_def and_then_opt_def layout_rollup_def rollup_loop_def dynds_insert_def
      dynds_update_offchain_status_def data_sources_is_empty_def batch_errors_def transact_block_def dep_block_ptr_def detail_block_def Let_def)
    (simp add: example_dep_env_def reset_reorg_count_def example_dep_def)

section \<open>Properties\<close>



text \<open>
  C16 (blocks are written forward). If a batch is written, the head was not set or was at a smaller block,
  and it is the block pointer of the batch afterwards; a batch for a block at or before the head
  is never written.
\<close>

theorem transact_moves_forward:
  assumes "transact_block_operations env d b lr = Some (Ok d')"
  shows "dep_block_ptr d' = Ok (Some (b_block_ptr b)) \<and>
    (\<exists>head. dep_block_ptr d = Ok head \<and> (\<forall>p. head = Some p \<longrightarrow> bp_number p < bp_number (b_block_ptr b)))"
  using transact_head [OF assms] .

lemma transact_moves_forward_witness:
  "\<exists>d. transact_block_operations example_dep_env example_dep example_write_batch None = Some (Ok d) \<and>
     dep_block_ptr d = Ok (Some (example_ptr 5))"
proof -
  obtain d where "transact_block_operations example_dep_env example_dep example_write_batch None = Some (Ok d)"
    using example_transact by blast
  with transact_moves_forward [OF this] show ?thesis by auto
qed

text \<open>
  C17 (how far a revert goes). A revert that succeeds goes back to a smaller block, which becomes the
  head; it never goes past the graft point, and it leaves at least the reorg threshold of blocks
  between the earliest block and the new head unless it goes to within the threshold of block 0.
  Exactly one reorg is counted.
\<close>

theorem revert_within_limits:
  assumes "revert_block_operations env d p c = Ok d'"
  shows "dep_block_ptr d' = Ok (Some p) \<and> (\<exists>h. dep_block_ptr d = Ok (Some h) \<and> bp_number p < bp_number h) \<and>
    (\<forall>g. dp_graft_block d = Some g \<longrightarrow> g \<le> bp_number p) \<and>
    dp_earliest_block d \<le> max (bp_number p - de_reorg_threshold env) 0 \<and> dp_reorg_count d' = dp_reorg_count d + 1"
  using revert_limits [OF assms] .

lemma example_revert:
  "\<exists>d. revert_block_operations example_dep_env example_dep (example_ptr 3) None = Ok d"
proof -
  obtain l c where "layout_revert_block (example_layout example_rows_before) (3 + 1) = Ok (l, c)" using layout_revert_eq by blast
  then show ?thesis
    by (simp add: revert_block_operations_def dep_block_ptr_def detail_block_def rewind_or_truncate_def revert_block_ptr_def Let_def)
qed

lemma revert_within_limits_witness:
  "\<exists>d. revert_block_operations example_dep_env example_dep (example_ptr 3) None = Ok d \<and> dep_block_ptr d = Ok (Some (example_ptr 3))"
  using example_revert revert_within_limits by blast



text \<open>
  C40 (unfailing forgets deterministic errors). If a deployment that has a deterministic error fails with a
  new error that is not deterministic and is then unfailed at a block at or after that error, the
  new error is gone and the old ones are still there, but the deployment is marked as healthy,
  and the state that is reported for queries has no first error block.
\<close>

theorem unfail_forgets_errors:
  assumes head: "dep_block_ptr d = Ok (Some p)" and counts: "0 \<le> dp_reorg_count d" "0 \<le> dp_max_reorg_depth d"
    and det: "has_deterministic_errors d n"
    and e: "\<not> se_deterministic e" "se_block_ptr e = Some q" "bp_number q \<le> bp_number current" "hash e \<notin> er_id ` set (dp_errors d)"
  shows "\<exists>d' st. unfail_non_deterministic_error (fail hash d e) current = (d', Unfailed) \<and>
    dp_errors d' = dp_errors d \<and> has_deterministic_errors d' n \<and> dp_health d' = Healthy \<and> \<not> dp_failed d' \<and>
    dep_state d' = Ok st \<and> dst_first_error_block st = None"
proof -
  define row where "row = \<lparr>er_id = hash e, er_message = se_message e, er_handler = se_handler e, er_deterministic = False,
    er_block_hash = Some (bp_hash q), er_lower = bp_number q\<rparr>"
  have f: "fail hash d e = update_deployment_status (d\<lparr>dp_errors := dp_errors d @ [row]\<rparr>) Failed (Some (hash e)) None"
    using e by (simp add: fail_def insert_subgraph_error_def Let_def row_def)
  have "find (\<lambda>r. er_id r = hash e) (dp_errors d) = None" using e(4) by (auto simp: find_None_iff image_iff)
  then have "fatal_error_detail (fail hash d e) = Some row"
    by (simp add: f fatal_error_detail_def update_deployment_status_def find_append row_def)
  then have u: "unfail_non_deterministic_error (fail hash d e) current =
      (delete_error (update_deployment_status (fail hash d e) Healthy None None) (hash e), Unfailed)"
    using e(3) by (simp add: unfail_non_deterministic_error_def row_def)
  define d' where "d' = delete_error (update_deployment_status (fail hash d e) Healthy None None) (hash e)"
  have "filter (\<lambda>r. er_id r \<noteq> hash e) (dp_errors d) = dp_errors d" using e(4) by (auto simp: filter_id_conv image_iff)
  then have d': "dp_errors d' = dp_errors d" "dp_health d' = Healthy" "\<not> dp_failed d'" "dep_core d' = dep_core d"
    by (simp_all add: d'_def delete_error_def update_deployment_status_def f row_def dep_core_def)
  moreover have "dep_block_ptr d' = Ok (Some p)" "0 \<le> dp_reorg_count d'" "0 \<le> dp_max_reorg_depth d'"
    using head counts d'(4) by (simp_all add: dep_core_def dep_block_ptr_def)
  ultimately show ?thesis
    using u det by (simp add: d'_def [symmetric] has_deterministic_errors_def dep_state_def convert_to_u32_def)
qed

definition example_errors :: "error_row list" where
  "example_errors = [\<lparr>er_id = ''a'', er_message = ''a'', er_handler = None, er_deterministic = True, er_block_hash = None, er_lower = 2\<rparr>]"

definition example_failure :: subgraph_error where
  "example_failure = \<lparr>se_subgraph_id = ''Qm'', se_message = ''b'', se_block_ptr = Some (example_ptr 4), se_handler = None, se_deterministic = False\<rparr>"

lemma unfail_forgets_errors_witness:
  "\<exists>d' st. unfail_non_deterministic_error (fail se_message (example_dep\<lparr>dp_errors := example_errors, dp_health := Unhealthy\<rparr>) example_failure)
       (example_ptr 5) = (d', Unfailed) \<and>
     has_deterministic_errors d' 4 \<and> dp_health d' = Healthy \<and> dep_state d' = Ok st \<and> dst_first_error_block st = None"
proof -
  let ?d = "example_dep\<lparr>dp_errors := example_errors, dp_health := Unhealthy\<rparr>"
  have "dep_block_ptr ?d = Ok (Some \<lparr>bp_hash = [4], bp_number = 4\<rparr>)" by (simp add: dep_block_ptr_def detail_block_def)
  moreover have "0 \<le> dp_reorg_count ?d" "0 \<le> dp_max_reorg_depth ?d" by (simp_all add: example_dep_def)
  moreover have "has_deterministic_errors ?d 4" "\<not> se_deterministic example_failure" "se_block_ptr example_failure = Some (example_ptr 4)"
    "bp_number (example_ptr 4) \<le> bp_number (example_ptr 5)" "se_message example_failure \<notin> er_id ` set (dp_errors ?d)"
    by (simp_all add: has_deterministic_errors_def example_errors_def example_failure_def)
  ultimately show ?thesis using unfail_forgets_errors by blast
qed

end
