(* ===== verification/Sync_Store.thy ===== *)
theory Sync_Store
  imports Deployment_Laws "HOL-Library.AList"
begin

text \<open>
  The synchronous store of a deployment, \<open>SyncStore\<close> in \<open>store/postgres/src/writable.rs\<close>: the deployment in
  the database together with the time of the last rollup, and the retries of \<open>store/postgres/src/retry.rs\<close> while the
  database cannot be reached. An operation that changes the store gives the store it leaves behind and
  its result; the result \<open>None\<close> stands for an operation that has not returned.
\<close>

section \<open>Retries\<close>

text \<open>
  What becomes of a call to the database: the database replies, it cannot be reached, or the connection
  breaks after the transaction was committed and before the reply arrives.
\<close>

datatype db_reply = Reply | Refused | LostReply

type_synonym ('s, 'a) effect = "'s \<times> ('a, store_error) outcome option"

definition db_call :: "db_reply \<Rightarrow> ('s \<Rightarrow> ('s, 'a) effect) \<Rightarrow> 's \<Rightarrow> ('s, 'a) effect" where
  "db_call c f s =
     (case c of
        Reply \<Rightarrow> f s
      | Refused \<Rightarrow> (s, Some (Err DatabaseUnavailable))
      | LostReply \<Rightarrow> (fst (f s), Some (Err DatabaseUnavailable)))"

definition and_then_eff :: "('s, 'a) effect \<Rightarrow> ('s \<Rightarrow> 'a \<Rightarrow> ('s, 'b) effect) \<Rightarrow> ('s, 'b) effect" where
  "and_then_eff r f =
     (case r of
        (s, None) \<Rightarrow> (s, None)
      | (s, Some (Ok x)) \<Rightarrow> f s x
      | (s, Some (Err e)) \<Rightarrow> (s, Some (Err e))
      | (s, Some (Panic m)) \<Rightarrow> (s, Some (Panic m)))"

lemma and_then_eff_Ok [outcome_simps]:
  "and_then_eff r f = (s', Some (Ok y)) \<longleftrightarrow> (\<exists>s x. r = (s, Some (Ok x)) \<and> f s x = (s', Some (Ok y)))"
  by (cases r) (auto simp: and_then_eff_def split: option.split outcome.split)

text \<open>A change of the state in a transaction: with an error or a panic nothing is changed.\<close>

definition in_transaction :: "('d, store_error) outcome option \<Rightarrow> ('d \<Rightarrow> 's) \<Rightarrow> 's \<Rightarrow> ('s, unit) effect" where
  "in_transaction r upd s =
     (case r of
        None \<Rightarrow> (s, None)
      | Some (Ok d) \<Rightarrow> (upd d, Some (Ok ()))
      | Some (Err e) \<Rightarrow> (s, Some (Err e))
      | Some (Panic m) \<Rightarrow> (s, Some (Panic m)))"

lemma in_transaction_Ok [outcome_simps]:
  "in_transaction r upd s = (s', Some (Ok ())) \<longleftrightarrow> (\<exists>d. r = Some (Ok d) \<and> s' = upd d)"
  by (auto simp: in_transaction_def split: option.split outcome.split)

text \<open>
  \<open>retry::forever\<close>: try again as long as the database cannot be reached. The list says what the attempts
  meet; an operation that is still retrying when it ends has not returned.
\<close>

fun retry_forever :: "('s \<Rightarrow> 'c \<Rightarrow> ('s, 'a) effect) \<Rightarrow> 's \<Rightarrow> 'c list \<Rightarrow> ('s, 'a) effect" where
  "retry_forever f s [] = (s, None)"
| "retry_forever f s (c # cs) =
     (case f s c of
        (s', Some (Err DatabaseUnavailable)) \<Rightarrow> retry_forever f s' cs
      | r \<Rightarrow> r)"

lemma retry_Cons:
  "retry_forever f s (c # cs) =
     (if snd (f s c) = Some (Err DatabaseUnavailable) then retry_forever f (fst (f s c)) cs else f s c)"
  by (cases "f s c") (auto split: option.split outcome.split store_error.split)

declare retry_forever.simps(2) [simp del]

section \<open>The time of the last rollup\<close>

datatype last_rollup = NotNeeded | UnknownTime | SomeTime block_time

definition last_rollup_new :: "bool \<Rightarrow> block_number option \<Rightarrow> block_time option \<Rightarrow> last_rollup" where
  "last_rollup_new has_aggregations block stored =
     (if \<not> has_aggregations then NotNeeded
      else case block of
             None \<Rightarrow> UnknownTime
           | Some _ \<Rightarrow> (case stored of Some t \<Rightarrow> SomeTime t | None \<Rightarrow> UnknownTime))"

text \<open>\<open>set\<close>: the error for a time that is unset is made and dropped, so that nothing happens.\<close>

fun rollup_set :: "last_rollup \<Rightarrow> block_time option \<Rightarrow> last_rollup" where
  "rollup_set NotNeeded _ = NotNeeded"
| "rollup_set _ (Some t) = SomeTime t"
| "rollup_set lr None = lr"

fun rollup_get :: "last_rollup \<Rightarrow> block_time option" where
  "rollup_get (SomeTime t) = Some t"
| "rollup_get _ = None"

section \<open>The store\<close>

text \<open>
  Besides the environment of the deployment, the store depends on the time that the statement
  \<open>Layout::last_rollup\<close> finds in the tables, on the id types of the schema and on a setting for the
  lookup of several entities.
\<close>

record ('e, 'r) sync_env =
  sy_dep :: "('e, 'r) dep_env"
  sy_last_rollup :: "'e layout \<Rightarrow> block_time option"
  sy_id_type :: "entity_type \<Rightarrow> (id_type, store_error) outcome"
  sy_use_brin :: bool

record 'e sync_store =
  ss_dep :: "'e deployment"
  ss_last_rollup :: last_rollup

definition sync_new :: "('e, 'r) sync_env \<Rightarrow> bool \<Rightarrow> 'e deployment \<Rightarrow> block_number option \<Rightarrow> 'e sync_store" where
  "sync_new env has_aggregations d block =
     \<lparr>ss_dep = d, ss_last_rollup = last_rollup_new has_aggregations block (sy_last_rollup env (dp_tables d))\<rparr>"

definition sync_block_ptr :: "'e sync_store \<Rightarrow> (block_ptr option, store_error) outcome" where
  "sync_block_ptr s = dep_block_ptr (ss_dep s)"

definition sync_block_cursor :: "'e sync_store \<Rightarrow> string option" where
  "sync_block_cursor s = dp_firehose_cursor (ss_dep s)"

definition sync_transact_once ::
  "('e, 'r) sync_env \<Rightarrow> 'e write_batch \<Rightarrow> 'e sync_store \<Rightarrow> db_reply \<Rightarrow> ('e sync_store, unit) effect" where
  "sync_transact_once env b s c =
     and_then_eff
       (db_call c (\<lambda>s. in_transaction (transact_block_operations (sy_dep env) (ss_dep s) b (rollup_get (ss_last_rollup s)))
                     (\<lambda>d. s\<lparr>ss_dep := d\<rparr>) s) s)
       (\<lambda>s _. case b_block_times b of
                [] \<Rightarrow> (s, Some (Panic ''called `Option::unwrap()` on a `None` value''))
              | bts \<Rightarrow> (s\<lparr>ss_last_rollup := rollup_set (ss_last_rollup s) (Some (snd (last bts)))\<rparr>, Some (Ok ())))"

definition sync_transact ::
  "('e, 'r) sync_env \<Rightarrow> 'e write_batch \<Rightarrow> 'e sync_store \<Rightarrow> db_reply list \<Rightarrow> ('e sync_store, unit) effect" where
  "sync_transact env b = retry_forever (sync_transact_once env b)"

text \<open>A revert makes two calls; when the second one cannot reach the database, the first one is made again.\<close>

definition sync_revert_once ::
  "('e, 'r) sync_env \<Rightarrow> block_ptr \<Rightarrow> string option \<Rightarrow> 'e sync_store \<Rightarrow> db_reply \<times> db_reply \<Rightarrow> ('e sync_store, unit) effect" where
  "sync_revert_once env p cursor s cs =
     and_then_eff
       (db_call (fst cs) (\<lambda>s. in_transaction (Some (revert_block_operations (sy_dep env) (ss_dep s) p cursor)) (\<lambda>d. s\<lparr>ss_dep := d\<rparr>) s) s)
       (\<lambda>s _. and_then_eff (db_call (snd cs) (\<lambda>s. (s, Some (Ok (sy_last_rollup env (dp_tables (ss_dep s)))))) s)
       (\<lambda>s t. (s\<lparr>ss_last_rollup := rollup_set (ss_last_rollup s) t\<rparr>, Some (Ok ()))))"

definition sync_revert ::
  "('e, 'r) sync_env \<Rightarrow> block_ptr \<Rightarrow> string option \<Rightarrow> 'e sync_store \<Rightarrow> (db_reply \<times> db_reply) list \<Rightarrow> ('e sync_store, unit) effect" where
  "sync_revert env p cursor = retry_forever (sync_revert_once env p cursor)"

definition sync_unfail_deterministic_error ::
  "('e, 'r) sync_env \<Rightarrow> 'e sync_store \<Rightarrow> block_ptr \<Rightarrow> block_ptr \<Rightarrow> ('e sync_store \<times> unfail_outcome, store_error) outcome" where
  "sync_unfail_deterministic_error env s current parent =
     map_ok (\<lambda>(d, out). (s\<lparr>ss_dep := d\<rparr>, out)) (unfail_deterministic_error (sy_dep env) (ss_dep s) current parent)"

definition sync_unfail_non_deterministic_error :: "'e sync_store \<Rightarrow> block_ptr \<Rightarrow> 'e sync_store \<times> unfail_outcome" where
  "sync_unfail_non_deterministic_error s current =
     (let (d, out) = unfail_non_deterministic_error (ss_dep s) current in (s\<lparr>ss_dep := d\<rparr>, out))"

definition sync_fail_subgraph :: "('e, 'r) sync_env \<Rightarrow> 'e sync_store \<Rightarrow> subgraph_error \<Rightarrow> 'e sync_store" where
  "sync_fail_subgraph env s e = s\<lparr>ss_dep := fail (de_hash (sy_dep env)) (ss_dep s) e\<rparr>"

text \<open>Reads change nothing, so that a retry only repeats them until the database replies.\<close>

definition sync_get :: "'e sync_store \<Rightarrow> entity_key \<Rightarrow> block_number \<Rightarrow> ('e option, store_error) outcome" where
  "sync_get s key b = layout_find (dp_tables (ss_dep s)) key b"

type_synonym ids_by_type = "((entity_type \<times> causality_region) \<times> id_list) list"

definition by_type_add :: "(entity_type \<Rightarrow> (id_type, store_error) outcome) \<Rightarrow> ids_by_type \<Rightarrow> entity_key \<Rightarrow> (ids_by_type, store_error) outcome" where
  "by_type_add id_type m key =
     (let k = (k_entity_type key, k_causality_region key) in
      and_then (id_type (k_entity_type key)) (\<lambda>t.
      and_then (map_err InternalError (id_list_push (case map_of m k of Some l \<Rightarrow> l | None \<Rightarrow> id_list_new t) (k_entity_id key))) (\<lambda>l.
        Ok (AList.update k l m))))"

text \<open>\<open>keys\<close> are the elements of the set in its order. With no keys the database is not asked.\<close>

definition sync_get_many ::
  "('e, 'r) sync_env \<Rightarrow> 'e sync_store \<Rightarrow> entity_key list \<Rightarrow> block_number \<Rightarrow> (entity_key \<Rightarrow> 'e option, store_error) outcome" where
  "sync_get_many env s keys b =
     and_then (try_fold (by_type_add (sy_id_type env)) [] keys) (\<lambda>by_type.
       if by_type = [] then Ok Map.empty
       else layout_find_many (sy_use_brin env) (dp_tables (ss_dep s)) (map (\<lambda>(k, l). (k, as_ids l)) by_type) b)"

definition sync_get_derived ::
  "'e sync_store \<Rightarrow> ('e \<Rightarrow> bool) \<Rightarrow> entity_type \<Rightarrow> causality_region \<Rightarrow> block_number \<Rightarrow> entity_key list \<Rightarrow>
     (entity_key \<Rightarrow> 'e option, store_error) outcome" where
  "sync_get_derived s is_related t cr b excluded = layout_find_derived is_related (dp_tables (ss_dep s)) t cr b excluded"

definition sync_is_deployment_synced :: "'e sync_store \<Rightarrow> bool" where
  "sync_is_deployment_synced s \<longleftrightarrow> dp_synced_at_block (ss_dep s) \<noteq> None"

definition sync_load_dynamic_data_sources :: "'e sync_store \<Rightarrow> block_number \<Rightarrow> (dds list, store_error) outcome" where
  "sync_load_dynamic_data_sources s b = dynds_load (dp_data_sources (ss_dep s)) b"

definition sync_causality_region_curr_val :: "'e sync_store \<Rightarrow> causality_region option" where
  "sync_causality_region_curr_val s = causality_region_curr_val (dp_data_sources (ss_dep s))"

section \<open>Laws\<close>

text \<open>A batch is not written twice, and a block is not reverted to twice.\<close>

lemma transact_not_twice:
  "transact_block_operations env d b lr = Some (Ok d') \<Longrightarrow> transact_block_operations env d' b lr' \<noteq> Some (Ok d'')"
  using transact_head [of env d b lr d'] transact_head [of env d' b lr' d''] by auto

lemma revert_not_twice:
  assumes "revert_block_operations env d p c = Ok d'"
  shows "revert_block_operations env d' p c' = Panic ''revert_block_operations must revert only backward''"
  using revert_limits [OF assms] by (simp add: revert_block_operations_def)

lemma transact_once_cases:
  obtains "fst (sync_transact_once env b s c) = s" "snd (sync_transact_once env b s c) \<noteq> Some (Ok ())"
  | d where "transact_block_operations (sy_dep env) (ss_dep s) b (rollup_get (ss_last_rollup s)) = Some (Ok d)"
      "ss_dep (fst (sync_transact_once env b s c)) = d"
proof -
  let ?r = "transact_block_operations (sy_dep env) (ss_dep s) b (rollup_get (ss_last_rollup s))"
  show thesis
  proof (cases "\<exists>d. ?r = Some (Ok d)")
    case True
    then obtain d where d: "?r = Some (Ok d)" by blast
    show thesis
    proof (cases c)
      case Refused
      show thesis by (rule that(1)) (simp_all add: Refused sync_transact_once_def db_call_def and_then_eff_def)
    qed (use d in \<open>auto simp: sync_transact_once_def db_call_def and_then_eff_def in_transaction_def split: list.split intro: that(2)\<close>)
  next
    case False
    then have "?r = None \<or> (\<exists>e. ?r = Some (Err e)) \<or> (\<exists>m. ?r = Some (Panic m))"
      by (metis option.exhaust outcome.exhaust)
    then show thesis
      by (intro that(1)) (auto simp: sync_transact_once_def db_call_def and_then_eff_def in_transaction_def split: db_reply.split)
  qed
qed

lemma sync_transact_Ok:
  "sync_transact env b s cs = (s', Some (Ok ())) \<Longrightarrow>
     \<exists>lr. transact_block_operations (sy_dep env) (ss_dep s) b lr = Some (Ok (ss_dep s'))"
  unfolding sync_transact_def
proof (induction cs arbitrary: s)
  case (Cons c cs)
  let ?o = "sync_transact_once env b s c"
  show ?case
  proof (cases rule: transact_once_cases [of env b s c])
    case 1
    then show ?thesis using Cons by (auto simp: retry_Cons split: if_splits)
  next
    case (2 d)
    show ?thesis
    proof (cases "snd ?o = Some (Err DatabaseUnavailable)")
      case True
      then have "\<exists>lr. transact_block_operations (sy_dep env) d b lr = Some (Ok (ss_dep s'))"
        using Cons.IH [of "fst ?o"] Cons.prems 2(2) by (simp add: retry_Cons)
      with transact_not_twice [OF 2(1)] show ?thesis by blast
    next
      case False
      with Cons.prems have "?o = (s', Some (Ok ()))" by (simp add: retry_Cons)
      with 2 show ?thesis by auto
    qed
  qed
qed simp

lemma revert_once_cases:
  obtains "fst (sync_revert_once env p cur s c) = s" "snd (sync_revert_once env p cur s c) \<noteq> Some (Ok ())"
  | d where "revert_block_operations (sy_dep env) (ss_dep s) p cur = Ok d" "ss_dep (fst (sync_revert_once env p cur s c)) = d"
proof (cases "revert_block_operations (sy_dep env) (ss_dep s) p cur")
  case (Ok d)
  show thesis
  proof (cases "fst c")
    case Refused
    show thesis by (rule that(1)) (simp_all add: Refused sync_revert_once_def db_call_def and_then_eff_def)
  qed (use Ok in \<open>auto simp: sync_revert_once_def db_call_def and_then_eff_def in_transaction_def split: db_reply.split intro: that(2)\<close>)
qed (auto simp: sync_revert_once_def db_call_def and_then_eff_def in_transaction_def split: db_reply.split intro: that(1))

lemma sync_revert_Ok:
  "sync_revert env p cur s cs = (s', Some (Ok ())) \<Longrightarrow> revert_block_operations (sy_dep env) (ss_dep s) p cur = Ok (ss_dep s')"
  unfolding sync_revert_def
proof (induction cs arbitrary: s)
  case (Cons c cs)
  let ?o = "sync_revert_once env p cur s c"
  show ?case
  proof (cases rule: revert_once_cases [of env p cur s c])
    case 1
    then show ?thesis using Cons by (auto simp: retry_Cons split: if_splits)
  next
    case (2 d)
    show ?thesis
    proof (cases "snd ?o = Some (Err DatabaseUnavailable)")
      case True
      then have "revert_block_operations (sy_dep env) d p cur = Ok (ss_dep s')"
        using Cons.IH [of "fst ?o"] Cons.prems 2(2) by (simp add: retry_Cons)
      with revert_not_twice [OF 2(1)] show ?thesis by simp
    next
      case False
      with Cons.prems have "?o = (s', Some (Ok ()))" by (simp add: retry_Cons)
      with 2 show ?thesis by auto
    qed
  qed
qed simp

section \<open>Example data\<close>

definition example_sync_env :: "(nat, aggregation_interval) sync_env" where
  "example_sync_env = \<lparr>sy_dep = example_dep_env, sy_last_rollup = (\<lambda>_. None), sy_id_type = (\<lambda>_. Ok ID_String), sy_use_brin = False\<rparr>"

definition example_sync :: "nat sync_store" where
  "example_sync = \<lparr>ss_dep = example_dep, ss_last_rollup = NotNeeded\<rparr>"

lemma example_sync_simps [simp]:
  "sy_dep example_sync_env = example_dep_env" "ss_dep example_sync = example_dep" "ss_last_rollup example_sync = NotNeeded"
  by (simp_all add: example_sync_env_def example_sync_def)

section \<open>Properties\<close>

text \<open>
  C18 (retries commit once). Whatever the attempts to reach the database meet, if writing a batch or
  reverting a block returns successfully, the deployment is the one after exactly one transaction.
\<close>

theorem retries_commit_once:
  shows "(sync_transact env b s rs = (s', Some (Ok ())) \<longrightarrow>
      (\<exists>lr. transact_block_operations (sy_dep env) (ss_dep s) b lr = Some (Ok (ss_dep s')))) \<and>
    (sync_revert env p cur s cs = (s', Some (Ok ())) \<longrightarrow>
      revert_block_operations (sy_dep env) (ss_dep s) p cur = Ok (ss_dep s'))"
  using sync_transact_Ok sync_revert_Ok by blast

lemma retries_commit_once_witness:
  "\<exists>s d. sync_revert example_sync_env (example_ptr 3) None example_sync [(Refused, Reply), (Reply, Reply)] = (s, Some (Ok ())) \<and>
     revert_block_operations example_dep_env example_dep (example_ptr 3) None = Ok d \<and> ss_dep s = d"
proof -
  obtain d where d: "revert_block_operations example_dep_env example_dep (example_ptr 3) None = Ok d" using example_revert by blast
  then obtain s where s: "sync_revert example_sync_env (example_ptr 3) None example_sync [(Refused, Reply), (Reply, Reply)] = (s, Some (Ok ()))"
    by (simp add: sync_revert_def retry_Cons sync_revert_once_def db_call_def and_then_eff_def in_transaction_def)
  moreover have "ss_dep s = d"
    using retries_commit_once [of example_sync_env undefined example_sync "[]" s "example_ptr 3" None] s d by auto
  ultimately show ?thesis using d by blast
qed

text \<open>
  C39 (a retried revert panics). A revert asks the database for the time of the last rollup after the transaction
  was committed. If the database cannot be reached at that moment, the whole revert is tried again,
  and as soon as the database can be reached, that attempt panics although the revert succeeded.
\<close>

theorem retried_revert_panics:
  assumes "revert_block_operations (sy_dep env) (ss_dep s) p cur = Ok d"
  shows "sync_revert env p cur s ((Reply, Refused) # (Reply, c) # cs) =
    (s\<lparr>ss_dep := d\<rparr>, Some (Panic ''revert_block_operations must revert only backward''))"
  using assms revert_not_twice [OF assms, of cur]
  by (simp add: sync_revert_def retry_Cons sync_revert_once_def db_call_def and_then_eff_def in_transaction_def)

lemma retried_revert_panics_witness:
  "\<exists>d. sync_revert example_sync_env (example_ptr 3) None example_sync [(Reply, Refused), (Reply, Reply)] =
     (example_sync\<lparr>ss_dep := d\<rparr>, Some (Panic ''revert_block_operations must revert only backward''))"
proof -
  obtain d where "revert_block_operations example_dep_env example_dep (example_ptr 3) None = Ok d" using example_revert by blast
  then show ?thesis using retried_revert_panics [of example_sync_env example_sync "example_ptr 3" None d Reply "[]"] by auto
qed

end
