(* ===== verification/Bounded_Queue.thy ===== *)
theory Bounded_Queue
  imports Prelude
begin

text \<open>
  The bounded queue of \<open>graph/src/util/bounded_queue.rs\<close>. The operations are modelled twice: as
  functions on the queue, for callers that run one operation at a time, and as the steps between
  which other tasks can run (\<open>bq_step\<close>), because an operation takes a permit from a semaphore,
  changes the queue under its lock and releases a permit in three separate steps.
  A blocking operation that cannot go on is \<open>None\<close>.
\<close>

section \<open>Operations\<close>

record 't bounded_queue =
  bq_capacity :: nat
  bq_queue :: "'t list"
  bq_push_permits :: nat
  bq_pop_permits :: nat

definition with_capacity :: "nat \<Rightarrow> 't bounded_queue" where
  "with_capacity c = \<lparr>bq_capacity = c, bq_queue = [], bq_push_permits = c, bq_pop_permits = 0\<rparr>"

abbreviation not_empty_panic :: "('a, unit) outcome" where
  "not_empty_panic \<equiv> Panic ''the queue is not empty''"

definition bq_pop :: "'t bounded_queue \<Rightarrow> ('t \<times> 't bounded_queue, unit) outcome option" where
  "bq_pop q =
     (if bq_pop_permits q = 0 then None
      else Some (case bq_queue q of
                   [] \<Rightarrow> not_empty_panic
                 | x # xs \<Rightarrow> Ok (x, q\<lparr>bq_queue := xs, bq_pop_permits := bq_pop_permits q - 1,
                                   bq_push_permits := bq_push_permits q + 1\<rparr>)))"

definition bq_try_pop :: "'t bounded_queue \<Rightarrow> ('t option \<times> 't bounded_queue, unit) outcome" where
  "bq_try_pop q =
     (case bq_pop q of None \<Rightarrow> Ok (None, q) | Some r \<Rightarrow> map_ok (\<lambda>(x, q'). (Some x, q')) r)"

definition bq_peek :: "'t bounded_queue \<Rightarrow> ('t, unit) outcome option" where
  "bq_peek q =
     (if bq_pop_permits q = 0 then None
      else Some (case bq_queue q of [] \<Rightarrow> not_empty_panic | x # _ \<Rightarrow> Ok x))"

text \<open>\<open>f\<close> may change the item through its shared reference, so that it gives the item it leaves behind.\<close>

definition bq_peek_with :: "('t \<Rightarrow> 't) \<Rightarrow> 't bounded_queue \<Rightarrow> ('t \<times> 't bounded_queue, unit) outcome option" where
  "bq_peek_with f q =
     (if bq_pop_permits q = 0 then None
      else Some (case bq_queue q of [] \<Rightarrow> not_empty_panic | x # xs \<Rightarrow> Ok (f x, q\<lparr>bq_queue := f x # xs\<rparr>)))"

definition bq_push :: "'t \<Rightarrow> 't bounded_queue \<Rightarrow> 't bounded_queue option" where
  "bq_push x q =
     (if bq_push_permits q = 0 then None
      else Some (q\<lparr>bq_queue := bq_queue q @ [x], bq_push_permits := bq_push_permits q - 1,
                   bq_pop_permits := bq_pop_permits q + 1\<rparr>))"

text \<open>\<open>wait_empty\<close> takes all permits and gives them back at once.\<close>

definition bq_wait_empty :: "'t bounded_queue \<Rightarrow> unit option" where
  "bq_wait_empty q = (if bq_push_permits q < bq_capacity q then None else Some ())"

definition bq_len :: "'t bounded_queue \<Rightarrow> nat" where
  "bq_len q = length (bq_queue q)"

definition bq_is_empty :: "'t bounded_queue \<Rightarrow> bool" where
  "bq_is_empty q \<longleftrightarrow> bq_queue q = []"

text \<open>\<open>Iterator::find_map\<close>\<close>

fun find_map :: "('a \<Rightarrow> 'b option) \<Rightarrow> 'a list \<Rightarrow> 'b option" where
  "find_map f [] = None"
| "find_map f (x # xs) = (case f x of Some y \<Rightarrow> Some y | None \<Rightarrow> find_map f xs)"

definition bq_find_map :: "('t \<Rightarrow> 'b option) \<Rightarrow> 't bounded_queue \<Rightarrow> 'b option" where
  "bq_find_map f q = find_map f (rev (bq_queue q))"

definition bq_map_newest :: "('t option \<Rightarrow> 'r) \<Rightarrow> 't bounded_queue \<Rightarrow> 'r" where
  "bq_map_newest f q = f (if bq_queue q = [] then None else Some (last (bq_queue q)))"

definition bq_fold :: "('b \<Rightarrow> 't \<Rightarrow> 'b) \<Rightarrow> 'b \<Rightarrow> 't bounded_queue \<Rightarrow> 'b" where
  "bq_fold f init q = foldl f init (rev (bq_queue q))"

text \<open>\<open>clear\<close> pops until nothing is left; every round takes a permit, of which there are finitely many.\<close>

function bq_clear :: "'t bounded_queue \<Rightarrow> ('t bounded_queue, unit) outcome" where
  "bq_clear q =
     (case bq_pop q of
        None \<Rightarrow> Ok q
      | Some (Ok (_, q')) \<Rightarrow> bq_clear q'
      | Some (Err e) \<Rightarrow> Err e
      | Some (Panic m) \<Rightarrow> Panic m)"
  by pat_completeness auto
termination
  by (relation "measure bq_pop_permits") (auto simp: bq_pop_def split: if_splits list.splits)

declare bq_clear.simps [simp del]

section \<open>The queue between operations\<close>

text \<open>Between operations, the semaphores count the entries and the empty spots.\<close>

definition bq_inv :: "'t bounded_queue \<Rightarrow> bool" where
  "bq_inv q \<longleftrightarrow> bq_pop_permits q = bq_len q \<and> bq_push_permits q + bq_len q = bq_capacity q"

lemma bq_inv_new: "bq_inv (with_capacity c)"
  by (simp add: bq_inv_def with_capacity_def bq_len_def)

lemma bq_inv_push: "bq_inv q \<Longrightarrow> bq_push x q = Some q' \<Longrightarrow> bq_inv q'"
  by (auto simp: bq_inv_def bq_push_def bq_len_def split: if_splits)

lemma bq_inv_pop: "bq_inv q \<Longrightarrow> bq_pop q = Some (Ok (x, q')) \<Longrightarrow> bq_inv q'"
  by (auto simp: bq_inv_def bq_pop_def bq_len_def split: if_splits list.splits)

lemma bq_inv_peek_with: "bq_inv q \<Longrightarrow> bq_peek_with f q = Some (Ok (x, q')) \<Longrightarrow> bq_inv q'"
  by (auto simp: bq_inv_def bq_peek_with_def bq_len_def split: if_splits list.splits)

lemma bq_pop_eq: "bq_inv q \<Longrightarrow>
  bq_pop q = (case bq_queue q of [] \<Rightarrow> None | x # xs \<Rightarrow>
    Some (Ok (x, q\<lparr>bq_queue := xs, bq_pop_permits := length xs, bq_push_permits := bq_push_permits q + 1\<rparr>)))"
  by (auto simp: bq_inv_def bq_pop_def bq_len_def split: list.split)

lemma bq_clear_eq:
  "bq_inv q \<Longrightarrow> bq_clear q = Ok (q\<lparr>bq_queue := [], bq_pop_permits := 0, bq_push_permits := bq_capacity q\<rparr>)"
proof (induction q rule: bq_clear.induct)
  case (1 q)
  show ?case
  proof (cases "bq_queue q")
    case Nil
    with 1(2) have "bq_pop q = None" "q = q\<lparr>bq_queue := [], bq_pop_permits := 0, bq_push_permits := bq_capacity q\<rparr>"
      by (simp_all add: bq_pop_eq bq_inv_def bq_len_def)
    then show ?thesis by (simp add: bq_clear.simps [of q])
  next
    case (Cons x xs)
    define q' where "q' = q\<lparr>bq_queue := xs, bq_pop_permits := length xs, bq_push_permits := bq_push_permits q + 1\<rparr>"
    have p: "bq_pop q = Some (Ok (x, q'))" using Cons 1(2) by (simp add: bq_pop_eq q'_def)
    from 1(1) [OF p refl refl bq_inv_pop [OF 1(2) p]] p show ?thesis
      by (simp add: bq_clear.simps [of q] q'_def)
  qed
qed

section \<open>Interleavings\<close>

text \<open>
  A task that is inside of an operation: it has a permit to push but has not pushed yet, it has
  pushed but not released the permit to pop, and the same for popping; a task that peeks holds its
  permit until it is done. \<open>try_pop\<close> takes the steps of \<open>pop\<close> if there is a permit, and \<open>clear\<close> those of several.
\<close>

datatype 't bq_task = PushAcquired 't | PushInserted | PopAcquired | PopTaken | Peeking

datatype 't bq_event = Pushed 't | Popped 't | Internal

text \<open>The queue, the tasks inside of an operation and whether a task has panicked\<close>

type_synonym 't bq_sys = "'t bounded_queue \<times> 't bq_task multiset \<times> bool"

inductive bq_step :: "'t bq_sys \<Rightarrow> 't bq_event \<Rightarrow> 't bq_sys \<Rightarrow> bool" where
  push_acquire: "0 < bq_push_permits q \<Longrightarrow>
    bq_step (q, ts, p) Internal (q\<lparr>bq_push_permits := bq_push_permits q - 1\<rparr>, add_mset (PushAcquired x) ts, p)"
| push_insert: "PushAcquired x \<in># ts \<Longrightarrow>
    bq_step (q, ts, p) (Pushed x) (q\<lparr>bq_queue := bq_queue q @ [x]\<rparr>, add_mset PushInserted (ts - {#PushAcquired x#}), p)"
| push_release: "PushInserted \<in># ts \<Longrightarrow>
    bq_step (q, ts, p) Internal (q\<lparr>bq_pop_permits := bq_pop_permits q + 1\<rparr>, ts - {#PushInserted#}, p)"
| pop_acquire: "0 < bq_pop_permits q \<Longrightarrow>
    bq_step (q, ts, p) Internal (q\<lparr>bq_pop_permits := bq_pop_permits q - 1\<rparr>, add_mset PopAcquired ts, p)"
| pop_take: "PopAcquired \<in># ts \<Longrightarrow> bq_queue q = x # xs \<Longrightarrow>
    bq_step (q, ts, p) (Popped x) (q\<lparr>bq_queue := xs\<rparr>, add_mset PopTaken (ts - {#PopAcquired#}), p)"
| pop_panic: "PopAcquired \<in># ts \<Longrightarrow> bq_queue q = [] \<Longrightarrow> bq_step (q, ts, p) Internal (q, ts, True)"
| pop_release: "PopTaken \<in># ts \<Longrightarrow>
    bq_step (q, ts, p) Internal (q\<lparr>bq_push_permits := bq_push_permits q + 1\<rparr>, ts - {#PopTaken#}, p)"
| peek_acquire: "0 < bq_pop_permits q \<Longrightarrow>
    bq_step (q, ts, p) Internal (q\<lparr>bq_pop_permits := bq_pop_permits q - 1\<rparr>, add_mset Peeking ts, p)"
| peek_panic: "Peeking \<in># ts \<Longrightarrow> bq_queue q = [] \<Longrightarrow> bq_step (q, ts, p) Internal (q, ts, True)"
| peek_release: "Peeking \<in># ts \<Longrightarrow>
    bq_step (q, ts, p) Internal (q\<lparr>bq_pop_permits := bq_pop_permits q + 1\<rparr>, ts - {#Peeking#}, p)"

inductive bq_run :: "'t bq_sys \<Rightarrow> 't bq_event list \<Rightarrow> 't bq_sys \<Rightarrow> bool" where
  run_refl: "bq_run s [] s"
| run_step: "bq_run s es s' \<Longrightarrow> bq_step s' e s'' \<Longrightarrow> bq_run s (es @ [e]) s''"

definition pushed :: "'t bq_event list \<Rightarrow> 't list" where
  "pushed es = concat (map (\<lambda>e. case e of Pushed x \<Rightarrow> [x] | _ \<Rightarrow> []) es)"

definition popped :: "'t bq_event list \<Rightarrow> 't list" where
  "popped es = concat (map (\<lambda>e. case e of Popped x \<Rightarrow> [x] | _ \<Rightarrow> []) es)"

lemma pushed_snoc: "pushed (es @ [e]) = pushed es @ (case e of Pushed x \<Rightarrow> [x] | _ \<Rightarrow> [])"
  by (simp add: pushed_def)

lemma popped_snoc: "popped (es @ [e]) = popped es @ (case e of Popped x \<Rightarrow> [x] | _ \<Rightarrow> [])"
  by (simp add: popped_def)

text \<open>Every empty spot has a permit to push or a task that has taken or will release one, and every entry likewise.\<close>

fun holds_spot :: "'t bq_task \<Rightarrow> bool" where
  "holds_spot (PushAcquired _) = True"
| "holds_spot PopTaken = True"
| "holds_spot _ = False"

fun holds_entry :: "'t bq_task \<Rightarrow> bool" where
  "holds_entry PushInserted = True"
| "holds_entry PopAcquired = True"
| "holds_entry Peeking = True"
| "holds_entry _ = False"

definition bq_sys_inv :: "nat \<Rightarrow> 't bq_sys \<Rightarrow> bool" where
  "bq_sys_inv c s \<longleftrightarrow> (case s of (q, ts, p) \<Rightarrow>
     \<not> p \<and> bq_capacity q = c \<and>
     bq_push_permits q + size (filter_mset holds_spot ts) + length (bq_queue q) = c \<and>
     bq_pop_permits q + size (filter_mset holds_entry ts) = length (bq_queue q))"

lemma bq_step_inv: "bq_step s e s' \<Longrightarrow> bq_sys_inv c s \<Longrightarrow> bq_sys_inv c s'"
  by (induction rule: bq_step.induct) (auto simp: bq_sys_inv_def dest!: multi_member_split)

lemma bq_step_fifo:
  "bq_step s e s' \<Longrightarrow>
     bq_queue (fst s) @ (case e of Pushed x \<Rightarrow> [x] | _ \<Rightarrow> []) = (case e of Popped x \<Rightarrow> [x] | _ \<Rightarrow> []) @ bq_queue (fst s')"
  by (induction rule: bq_step.induct) simp_all

section \<open>Properties\<close>

text \<open>
  C19 (the queue under all interleavings). Whatever tasks push, pop and peek and however their steps interleave,
  no task panics because the queue is empty, the queue never has more entries than its capacity,
  entries leave it in the order in which they were pushed, and none is lost or duplicated. When
  \<open>wait_empty\<close> can go on, the queue is empty, and when no task is inside of an operation, there are as many
  permits to pop as entries and as many to push as empty spots.
\<close>

theorem bounded_queue_interleavings:
  assumes "bq_run (with_capacity c, {#}, False) es (q, ts, p)"
  shows "\<not> p \<and> bq_len q \<le> c \<and> pushed es = popped es @ bq_queue q \<and>
    (bq_wait_empty q = Some () \<longrightarrow> bq_is_empty q) \<and> (ts = {#} \<longrightarrow> bq_inv q)"
proof -
  have "bq_sys_inv c s' \<and> pushed es = popped es @ bq_queue (fst s')"
    if "bq_run s es s'" "bq_sys_inv c s" "bq_queue (fst s) = []" for s s'
    using that
  proof (induction rule: bq_run.induct)
    case (run_step s es s' e s'')
    then show ?case
      using bq_step_inv [OF run_step(2), of c] bq_step_fifo [OF run_step(2)] by (simp add: pushed_snoc popped_snoc)
  qed (simp add: pushed_def popped_def)
  from this [OF assms] have inv: "bq_sys_inv c (q, ts, p)" "pushed es = popped es @ bq_queue q"
    by (simp_all add: bq_sys_inv_def with_capacity_def)
  have "length (bq_queue q) = 0" if "bq_wait_empty q = Some ()"
  proof -
    have "c \<le> bq_push_permits q" "bq_push_permits q + length (bq_queue q) \<le> c"
      using inv(1) that by (auto simp: bq_sys_inv_def bq_wait_empty_def split: if_splits)
    then show ?thesis by linarith
  qed
  with inv show ?thesis by (auto simp: bq_sys_inv_def bq_len_def bq_inv_def bq_is_empty_def)
qed

lemma bounded_queue_interleavings_witness:
  "\<exists>q. bq_run (with_capacity 3, {#}, False) [Internal, Pushed (7 :: nat), Internal] (q, {#}, False) \<and> bq_queue q = [7] \<and> bq_inv q"
proof -
  let ?q = "\<lambda>xs p. \<lparr>bq_capacity = 3, bq_queue = xs, bq_push_permits = 2, bq_pop_permits = p\<rparr>"
  have "bq_step (with_capacity 3, {#}, False) Internal (?q [] 0, {#PushAcquired (7 :: nat)#}, False)"
    using bq_step.push_acquire [of "with_capacity 3" "{#}" False "7 :: nat"] by (simp add: with_capacity_def)
  from run_step [OF run_refl this]
  have "bq_run (with_capacity 3, {#}, False) [Internal] (?q [] 0, {#PushAcquired (7 :: nat)#}, False)" by simp
  moreover have "bq_step (?q [] 0, {#PushAcquired (7 :: nat)#}, False) (Pushed 7) (?q [7] 0, {#PushInserted#}, False)"
    using push_insert [of "7 :: nat" "{#PushAcquired 7#}" "?q [] 0" False] by simp
  ultimately have "bq_run (with_capacity 3, {#}, False) [Internal, Pushed (7 :: nat)] (?q [7] 0, {#PushInserted#}, False)"
    using run_step by fastforce
  moreover have "bq_step (?q [7 :: nat] 0, {#PushInserted#}, False) Internal (?q [7] 1, {#}, False)"
    using push_release [of "{#PushInserted#}" "?q [7 :: nat] 0" False] by simp
  ultimately have "bq_run (with_capacity 3, {#}, False) [Internal, Pushed (7 :: nat), Internal] (?q [7] 1, {#}, False)"
    using run_step by fastforce
  from this bounded_queue_interleavings [OF this] show ?thesis by auto
qed

end
