(* ===== verification/Write_Queue.thy ===== *)
theory Write_Queue
  imports Sync_Store Bounded_Queue
begin

text \<open>
  The queue of pending writes of \<open>store/postgres/src/writable.rs\<close>: requests, the tracker of block numbers that reads
  use, the queue with its operations, and the background writer. The writer and the task that uses
  the queue run concurrently; \<open>writer_step\<close> and \<open>client_step\<close> are the steps between which the other one can run.
  Times are in milliseconds since some start.
\<close>

section \<open>Batches in the queue\<close>

record ('e, 'r) queue_env =
  qe_sync :: "('e, 'r) sync_env"
  qe_flags :: type_flags
  qe_memo :: bool
  qe_weigh :: "'e row_groups \<Rightarrow> nat"
  qe_batch_size_of :: nat
  qe_write_batch_size :: nat
  qe_write_batch_duration :: nat

definition batch_weight :: "('e, 'r) queue_env \<Rightarrow> 'e write_batch \<Rightarrow> nat" where
  "batch_weight env b = qe_batch_size_of env + b_indirect_weight b"

datatype 'e queued_batch = OpenBatch "'e write_batch" | ClosedBatch "'e write_batch" | InvalidBatch

fun qb_deref :: "'e queued_batch \<Rightarrow> ('e write_batch, store_error) outcome" where
  "qb_deref (OpenBatch b) = Ok b"
| "qb_deref (ClosedBatch b) = Ok b"
| "qb_deref InvalidBatch = Panic ''deref is never called on a QueuedBatch::Invalid''"

fun qb_append :: "('e, 'r) queue_env \<Rightarrow> 'e queued_batch \<Rightarrow> 'e write_batch \<Rightarrow> 'e queued_batch \<times> (unit, store_error) outcome" where
  "qb_append env (OpenBatch b) other =
     (let (b', r) = batch_append (qe_flags env) (qe_memo env) (qe_weigh env) b other in (OpenBatch b', r))"
| "qb_append env (ClosedBatch b) other = (ClosedBatch b, Err (InternalError ''attempt to append to closed batch''))"
| "qb_append env InvalidBatch other = (InvalidBatch, Panic ''append is never called on a QueuedBatch::Invalid'')"

fun qb_close :: "'e queued_batch \<Rightarrow> 'e queued_batch \<times> ('e write_batch, store_error) outcome" where
  "qb_close (OpenBatch b) = (ClosedBatch b, Ok b)"
| "qb_close (ClosedBatch b) = (ClosedBatch b, Ok b)"
| "qb_close InvalidBatch = (InvalidBatch, Panic ''close is never called on a QueuedBatch::Invalid'')"

section \<open>Requests\<close>

text \<open>A write has the time at which it was queued; the flag says whether the writer works on the request.\<close>

datatype 'e request = WriteReq nat "'e queued_batch" bool | RevertReq block_ptr "string option" bool | StopReq

datatype exec_result = Continue | Stop

definition request_write :: "nat \<Rightarrow> 'e write_batch \<Rightarrow> 'e request" where
  "request_write now b = WriteReq now (OpenBatch b) False"

definition request_revert :: "block_ptr \<Rightarrow> string option \<Rightarrow> 'e request" where
  "request_revert p cursor = RevertReq p cursor False"

fun start_process :: "'e request \<Rightarrow> 'e request" where
  "start_process (WriteReq t b _) = WriteReq t b True"
| "start_process (RevertReq p c _) = RevertReq p c True"
| "start_process StopReq = StopReq"

fun processed :: "'e request \<Rightarrow> bool" where
  "processed (WriteReq _ _ pr) = pr"
| "processed (RevertReq _ _ pr) = pr"
| "processed StopReq = False"

text \<open>What the calls of the request to the database meet: of a write and of a revert\<close>

type_synonym db_replies = "db_reply list \<times> (db_reply \<times> db_reply) list"

fun execute ::
  "('e, 'r) queue_env \<Rightarrow> 'e request \<Rightarrow> 'e sync_store \<Rightarrow> db_replies \<Rightarrow> 'e request \<times> ('e sync_store, exec_result) effect" where
  "execute env (WriteReq t qb pr) s cs =
     (case qb_close qb of
        (qb', Ok b) \<Rightarrow>
          (WriteReq t qb' pr,
           case b_error b of
             Some e \<Rightarrow> (s, Some (Err (store_error_clone e)))
           | None \<Rightarrow> and_then_eff (sync_transact (qe_sync env) b s (fst cs)) (\<lambda>s _. (s, Some (Ok Continue))))
      | (qb', Err e) \<Rightarrow> (WriteReq t qb' pr, s, Some (Err e))
      | (qb', Panic m) \<Rightarrow> (WriteReq t qb' pr, s, Some (Panic m)))"
| "execute env (RevertReq p cursor pr) s cs =
     (RevertReq p cursor pr, and_then_eff (sync_revert (qe_sync env) p cursor s (snd cs)) (\<lambda>s _. (s, Some (Ok Continue))))"
| "execute env StopReq s cs = (StopReq, s, Some (Ok Stop))"

fun should_process :: "('e, 'r) queue_env \<Rightarrow> nat \<Rightarrow> 'e request \<Rightarrow> (bool, store_error) outcome" where
  "should_process env now (WriteReq t qb _) =
     map_ok (\<lambda>b. qe_write_batch_size env \<le> batch_weight env b \<or> qe_write_batch_duration env \<le> now - t) (qb_deref qb)"
| "should_process env now (RevertReq _ _ _) = Ok True"
| "should_process env now StopReq = Ok True"

fun req_is_write :: "'e request \<Rightarrow> bool" where
  "req_is_write (WriteReq _ _ _) = True"
| "req_is_write (RevertReq _ _ _) = False"
| "req_is_write StopReq = False"

section \<open>Tracking blocks\<close>

record block_tracker =
  bt_revert :: block_number
  bt_block :: block_number

definition tracker_new :: block_tracker where
  "tracker_new = \<lparr>bt_revert = BLOCK_NUMBER_MAX, bt_block = BLOCK_NUMBER_MAX\<rparr>"

definition tracker_write :: "block_tracker \<Rightarrow> block_ptr \<Rightarrow> block_tracker" where
  "tracker_write t p = t\<lparr>bt_block := min (bt_block t) (bp_number p - 1)\<rparr>"

definition tracker_revert :: "block_tracker \<Rightarrow> block_ptr \<Rightarrow> block_tracker" where
  "tracker_revert t p = t\<lparr>bt_revert := min (bt_revert t) (bp_number p), bt_block := min (bt_block t) (bp_number p)\<rparr>"

definition query_block :: "block_tracker \<Rightarrow> block_number" where
  "query_block t = bt_block t"

text \<open>The loops of \<open>find_map\<close> and \<open>fold\<close> over the requests, from the newest to the oldest\<close>

fun tracker_find_loop ::
  "('e write_batch \<Rightarrow> block_number \<Rightarrow> 'x option) \<Rightarrow> block_tracker \<Rightarrow> 'e request list \<Rightarrow> ('x option \<times> block_tracker, store_error) outcome" where
  "tracker_find_loop f t [] = Ok (None, t)"
| "tracker_find_loop f t (WriteReq _ qb _ # rs) =
     and_then (qb_deref qb) (\<lambda>b.
       let t1 = tracker_write t (b_block_ptr b) in
       if b_first_block b \<le> bt_revert t1
       then (case f b (bt_revert t1) of Some x \<Rightarrow> Ok (Some x, t1) | None \<Rightarrow> tracker_find_loop f t1 rs)
       else tracker_find_loop f t1 rs)"
| "tracker_find_loop f t (RevertReq p _ _ # rs) = tracker_find_loop f (tracker_revert t p) rs"
| "tracker_find_loop f t (StopReq # rs) = tracker_find_loop f t rs"

definition tracker_find_map ::
  "'e request bounded_queue \<Rightarrow> ('e write_batch \<Rightarrow> block_number \<Rightarrow> 'x option) \<Rightarrow> ('x option \<times> block_number, store_error) outcome" where
  "tracker_find_map q f = map_ok (\<lambda>(x, t). (x, query_block t)) (tracker_find_loop f tracker_new (rev (bq_queue q)))"

fun tracker_fold_loop ::
  "('x \<Rightarrow> 'e write_batch \<Rightarrow> block_number \<Rightarrow> 'x) \<Rightarrow> block_tracker \<Rightarrow> 'x \<Rightarrow> 'e request list \<Rightarrow> ('x \<times> block_tracker, store_error) outcome" where
  "tracker_fold_loop f t x [] = Ok (x, t)"
| "tracker_fold_loop f t x (WriteReq _ qb _ # rs) =
     and_then (qb_deref qb) (\<lambda>b.
       let t1 = tracker_write t (b_block_ptr b) in
       tracker_fold_loop f t1 (if b_first_block b \<le> bt_revert t1 then f x b (bt_revert t1) else x) rs)"
| "tracker_fold_loop f t x (RevertReq p _ _ # rs) = tracker_fold_loop f (tracker_revert t p) x rs"
| "tracker_fold_loop f t x (StopReq # rs) = tracker_fold_loop f t x rs"

definition tracker_fold ::
  "'e request bounded_queue \<Rightarrow> 'x \<Rightarrow> ('x \<Rightarrow> 'e write_batch \<Rightarrow> block_number \<Rightarrow> 'x) \<Rightarrow> ('x \<times> block_number, store_error) outcome" where
  "tracker_fold q init f = map_ok (\<lambda>(x, t). (x, query_block t)) (tracker_fold_loop f tracker_new init (rev (bq_queue q)))"

section \<open>The queue\<close>

record 'e write_queue =
  wq_queue :: "'e request bounded_queue"
  wq_write_err :: "store_error option"
  wq_poisoned :: bool
  wq_batch_writes :: bool
  wq_notified :: bool

definition queue_new :: "nat \<Rightarrow> 'e write_queue" where
  "queue_new capacity =
     \<lparr>wq_queue = with_capacity capacity, wq_write_err = None, wq_poisoned = False, wq_batch_writes = True, wq_notified = False\<rparr>"

definition stop_batching :: "'e write_queue \<Rightarrow> 'e write_queue" where
  "stop_batching q = q\<lparr>wq_batch_writes := False, wq_notified := True\<rparr>"

definition start_batching :: "'e write_queue \<Rightarrow> 'e write_queue" where
  "start_batching q = q\<lparr>wq_batch_writes := True, wq_notified := True\<rparr>"

definition check_err :: "'e write_queue \<Rightarrow> 'e write_queue \<times> (unit, store_error) outcome" where
  "check_err q =
     (case wq_write_err q of
        Some e \<Rightarrow> (q\<lparr>wq_write_err := None\<rparr>, Err e)
      | None \<Rightarrow> (q, if wq_poisoned q then Err Poisoned else Ok ()))"

definition record_err :: "'e write_queue \<Rightarrow> store_error \<Rightarrow> 'e write_queue \<times> (unit, unit) outcome" where
  "record_err q e =
     (let q1 = q\<lparr>wq_write_err := Some e, wq_poisoned := True\<rparr> in
      case bq_clear (wq_queue q1) of
        Ok b \<Rightarrow> (q1\<lparr>wq_queue := b\<rparr>, Ok ())
      | Err e \<Rightarrow> (q1, Err e)
      | Panic m \<Rightarrow> (q1, Panic m))"

text \<open>\<open>push\<close> up to the point where it waits for a free spot, and the rest of it\<close>

definition push_start :: "'e write_queue \<Rightarrow> 'e request \<Rightarrow> 'e write_queue \<times> (unit, store_error) outcome" where
  "push_start q req =
     (case check_err q of
        (q1, Ok _) \<Rightarrow> (if req_is_write req then q1 else stop_batching q1, Ok ())
      | r \<Rightarrow> r)"

definition push_end :: "'e write_queue \<Rightarrow> 'e request \<Rightarrow> 'e write_queue option" where
  "push_end q req = map_option (\<lambda>b. q\<lparr>wq_queue := b\<rparr>) (bq_push req (wq_queue q))"

definition queue_push :: "'e write_queue \<Rightarrow> 'e request \<Rightarrow> ('e write_queue, unit) effect" where
  "queue_push q req =
     (case push_start q req of
        (q1, Ok _) \<Rightarrow> (case push_end q1 req of None \<Rightarrow> (q1, None) | Some q2 \<Rightarrow> (q2, Some (Ok ())))
      | (q1, r) \<Rightarrow> (q1, Some r))"

definition set_newest :: "'e request \<Rightarrow> 'e request bounded_queue \<Rightarrow> 'e request bounded_queue" where
  "set_newest r b = b\<lparr>bq_queue := butlast (bq_queue b) @ [r]\<rparr>"

text \<open>
  The closure of \<open>push_write\<close> for the newest request: it gives the batch back if it was not added to that
  request. \<open>locked\<close> says whether something holds the lock of the batch.
\<close>

definition push_newest ::
  "('e, 'r) queue_env \<Rightarrow> nat \<Rightarrow> bool \<Rightarrow> 'e write_queue \<Rightarrow> 'e write_batch \<Rightarrow> 'e request option \<Rightarrow>
     'e write_queue \<times> ('e write_batch option, store_error) outcome" where
  "push_newest env now locked q batch newest =
     (case newest of
        Some (WriteReq t qb pr) \<Rightarrow>
          if \<not> pr \<and> now - t < qe_write_batch_duration env \<and> \<not> locked
          then (case qb_deref qb of
                  Ok b \<Rightarrow>
                    if batch_weight env b < qe_write_batch_size env
                    then (let (qb', res) = qb_append env qb batch;
                              q1 = q\<lparr>wq_queue := set_newest (WriteReq t qb' pr) (wq_queue q)\<rparr>;
                              full = (case qb_deref qb' of Ok b' \<Rightarrow> qe_write_batch_size env \<le> batch_weight env b' | _ \<Rightarrow> False)
                          in (if full then q1\<lparr>wq_notified := True\<rparr> else q1, map_ok (\<lambda>_. None) res))
                    else (q, Ok (Some batch))
                | Err e \<Rightarrow> (q, Err e)
                | Panic m \<Rightarrow> (q, Panic m))
          else (q, Ok (Some batch))
      | _ \<Rightarrow> (q, Ok (Some batch)))"

definition push_write_batch ::
  "('e, 'r) queue_env \<Rightarrow> nat \<Rightarrow> bool \<Rightarrow> 'e write_queue \<Rightarrow> 'e write_batch \<Rightarrow>
     'e write_queue \<times> ('e write_batch option, store_error) outcome" where
  "push_write_batch env now locked q batch =
     (if qe_write_batch_size env = 0 \<or> qe_write_batch_duration env = 0 \<or> \<not> wq_batch_writes q
      then (q, Ok (Some batch))
      else bq_map_newest (push_newest env now locked q batch) (wq_queue q))"

definition push_write ::
  "('e, 'r) queue_env \<Rightarrow> nat \<Rightarrow> bool \<Rightarrow> 'e write_queue \<Rightarrow> 'e write_batch \<Rightarrow> ('e write_queue, unit) effect" where
  "push_write env now locked q batch =
     (case push_write_batch env now locked q batch of
        (q1, Ok None) \<Rightarrow> (q1, Some (Ok ()))
      | (q1, Ok (Some b)) \<Rightarrow> queue_push q1 (request_write now b)
      | (q1, Err e) \<Rightarrow> (q1, Some (Err e))
      | (q1, Panic m) \<Rightarrow> (q1, Some (Panic m)))"

text \<open>\<open>flush\<close> up to the point where it waits for the queue to be empty, with the old setting for batching, and the rest of it\<close>

definition flush_start :: "'e write_queue \<Rightarrow> 'e write_queue \<times> (bool, store_error) outcome" where
  "flush_start q =
     (case check_err q of
        (q1, Ok _) \<Rightarrow> (stop_batching q1, Ok (wq_batch_writes q1))
      | (q1, Err e) \<Rightarrow> (q1, Err e)
      | (q1, Panic m) \<Rightarrow> (q1, Panic m))"

definition flush_end :: "'e write_queue \<Rightarrow> bool \<Rightarrow> ('e write_queue, unit) effect" where
  "flush_end q batching =
     (case bq_wait_empty (wq_queue q) of
        None \<Rightarrow> (q, None)
      | Some _ \<Rightarrow> (let (q1, r) = check_err (q\<lparr>wq_batch_writes := batching\<rparr>) in (q1, Some r)))"

definition queue_stop :: "'e write_queue \<Rightarrow> ('e write_queue, unit) effect" where
  "queue_stop q = queue_push (stop_batching q) StopReq"

section \<open>Reading\<close>

text \<open>
  A read looks at the queue while it is locked and then asks the store, which the writer may have
  changed in between: \<open>queue_get_scan\<close> is the first part and \<open>queue_get_store\<close> the second.
\<close>

definition queue_get_scan ::
  "('e, 'r) queue_env \<Rightarrow> 'e request bounded_queue \<Rightarrow> entity_key \<Rightarrow> ('e option option \<times> block_number, store_error) outcome" where
  "queue_get_scan env q key =
     tracker_find_map q (\<lambda>b at. map_option op_value (batch_last_op (qe_memo env) b key at))"

definition queue_get_store ::
  "'e sync_store \<Rightarrow> entity_key \<Rightarrow> 'e option option \<times> block_number \<Rightarrow> ('e option, store_error) outcome" where
  "queue_get_store s key r = (case fst r of Some x \<Rightarrow> Ok x | None \<Rightarrow> sync_get s key (snd r))"

definition queue_get ::
  "('e, 'r) queue_env \<Rightarrow> 'e write_queue \<Rightarrow> 'e sync_store \<Rightarrow> entity_key \<Rightarrow> ('e option, store_error) outcome" where
  "queue_get env q s key = and_then (queue_get_scan env (wq_queue q) key) (queue_get_store s key)"

definition get_many_step ::
  "('e, 'r) queue_env \<Rightarrow> entity_key list \<Rightarrow> (entity_key \<Rightarrow> 'e option option) \<Rightarrow> 'e write_batch \<Rightarrow> block_number \<Rightarrow> (entity_key \<Rightarrow> 'e option option)" where
  "get_many_step env keys m b at =
     fold (\<lambda>key m. if m key \<noteq> None then m
                   else case batch_last_op (qe_memo env) b key at of
                          Some op \<Rightarrow> m(key \<mapsto> op_value op)
                        | None \<Rightarrow> m) keys m"

text \<open>The entities of the queue are added to those of the store; an entity that was already found there makes the assertion fail.\<close>

definition add_from_queue ::
  "(entity_key \<Rightarrow> 'e option option) \<Rightarrow> (entity_key \<Rightarrow> 'e option) \<Rightarrow> entity_key \<Rightarrow> (entity_key \<Rightarrow> 'e option, store_error) outcome" where
  "add_from_queue found m key =
     (case found key of
        Some (Some e) \<Rightarrow> if m key \<noteq> None then Panic ''assertion failed: !overwrite'' else Ok (m(key \<mapsto> e))
      | _ \<Rightarrow> Ok m)"

definition queue_get_many ::
  "('e, 'r) queue_env \<Rightarrow> 'e write_queue \<Rightarrow> 'e sync_store \<Rightarrow> entity_key list \<Rightarrow> (entity_key \<Rightarrow> 'e option, store_error) outcome" where
  "queue_get_many env q s keys =
     and_then (tracker_fold (wq_queue q) Map.empty (get_many_step env keys)) (\<lambda>(found, block).
     and_then (sync_get_many (qe_sync env) s (filter (\<lambda>k. found k = None) keys) block) (\<lambda>m.
       try_fold (add_from_queue found) m keys))"

text \<open>
  A derived query: the type and causality region to look at and whether an entity is related, i.e.,
  whether its field has the value of the query
\<close>

record 'e derived_query =
  dq_entity_type :: entity_type
  dq_causality_region :: causality_region
  dq_is_related :: "'e \<Rightarrow> bool"

definition derived_ops :: "'e write_batch \<Rightarrow> 'e derived_query \<Rightarrow> block_number \<Rightarrow> (entity_key \<times> 'e option) list" where
  "derived_ops b dq at =
     List.map_filter (\<lambda>op. case op of
         WriteOp key e \<Rightarrow> if dq_is_related dq e then Some (key, Some e) else None
       | RemoveOp key \<Rightarrow> Some (key, None)) (batch_effective_ops b (dq_entity_type dq) at)"

definition derived_step ::
  "'e derived_query \<Rightarrow> (entity_key \<times> 'e option) list \<Rightarrow> 'e write_batch \<Rightarrow> block_number \<Rightarrow> (entity_key \<times> 'e option) list" where
  "derived_step dq m b at =
     fold (\<lambda>(k, v) m. if k \<in> fst ` set m then m else m @ [(k, v)]) (derived_ops b dq at) m"

definition queue_get_derived ::
  "'e write_queue \<Rightarrow> 'e sync_store \<Rightarrow> 'e derived_query \<Rightarrow> (entity_key \<Rightarrow> 'e option, store_error) outcome" where
  "queue_get_derived q s dq =
     and_then (tracker_fold (wq_queue q) [] (derived_step dq)) (\<lambda>(found, block).
       map_ok (\<lambda>m. m ++ map_of (List.map_filter (\<lambda>(k, v). map_option (Pair k) v) found))
         (sync_get_derived s (dq_is_related dq) (dq_entity_type dq) (dq_causality_region dq) block (map fst found)))"

definition queue_load_dynamic_data_sources ::
  "'e write_queue \<Rightarrow> 'e sync_store \<Rightarrow> (dds list, store_error) outcome" where
  "queue_load_dynamic_data_sources q s =
     and_then (tracker_fold (wq_queue q) [] (\<lambda>dss b at. dss @ new_data_sources b at)) (\<lambda>(queue_dds, block).
       map_ok (\<lambda>dss. dss @ sort_key ds_creation_block queue_dds) (sync_load_dynamic_data_sources s block))"

section \<open>The writer and its client\<close>

text \<open>
  Where the loop of \<open>start_writer\<close> is: waiting for a request to process, about to take it, executing it, done with
  it, or at its end.
\<close>

datatype writer_pc = WWaiting | WReady | WExecuting | WExecuted "(exec_result, store_error) outcome" | WFinished

text \<open>Where the client is: outside of the queue, waiting for a free spot for a request, or waiting for the queue to be empty.\<close>

datatype 'e client_pc = CIdle | CPushing "'e request" | CFlushing bool

record 'e queue_sys =
  qs_queue :: "'e write_queue"
  qs_store :: "'e sync_store"
  qs_writer :: writer_pc
  qs_client :: "'e client_pc"

definition sys_new :: "nat \<Rightarrow> 'e sync_store \<Rightarrow> 'e queue_sys" where
  "sys_new capacity s = \<lparr>qs_queue = queue_new capacity, qs_store = s, qs_writer = WWaiting, qs_client = CIdle\<rparr>"

abbreviation requests :: "('e, 'z) queue_sys_scheme \<Rightarrow> 'e request list" where
  "requests s \<equiv> bq_queue (wq_queue (qs_queue s))"

text \<open>The conditions under which the writer stops waiting for a batch to grow\<close>

definition writer_may_start :: "('e, 'r) queue_env \<Rightarrow> nat \<Rightarrow> 'e write_queue \<Rightarrow> bool" where
  "writer_may_start env now q \<longleftrightarrow>
     \<not> wq_batch_writes q \<or> 1 < bq_len (wq_queue q) \<or>
     (\<exists>r. bq_peek (wq_queue q) = Some (Ok r) \<and> should_process env now r = Ok True)"

text \<open>The step that takes the front request, the one that executes it, and the one that draws the consequences\<close>

definition writer_take :: "'e queue_sys \<Rightarrow> 'e queue_sys option" where
  "writer_take s =
     (case bq_peek_with start_process (wq_queue (qs_queue s)) of
        Some (Ok (_, b)) \<Rightarrow> Some (s\<lparr>qs_queue := (qs_queue s)\<lparr>wq_queue := b\<rparr>, qs_writer := WExecuting\<rparr>)
      | _ \<Rightarrow> None)"

definition set_front :: "'e request \<Rightarrow> 'e request bounded_queue \<Rightarrow> 'e request bounded_queue" where
  "set_front r b = b\<lparr>bq_queue := r # tl (bq_queue b)\<rparr>"

definition writer_execute :: "('e, 'r) queue_env \<Rightarrow> db_replies \<Rightarrow> 'e queue_sys \<Rightarrow> 'e queue_sys option" where
  "writer_execute env cs s =
     (case requests s of
        [] \<Rightarrow> None
      | r # _ \<Rightarrow>
          (case execute env r (qs_store s) cs of
             (r', st, Some res) \<Rightarrow>
               Some (s\<lparr>qs_queue := (qs_queue s)\<lparr>wq_queue := set_front r' (wq_queue (qs_queue s))\<rparr>,
                       qs_store := st, qs_writer := WExecuted res\<rparr>)
           | (_, _, None) \<Rightarrow> None))"

definition writer_pop :: "'e queue_sys \<Rightarrow> writer_pc \<Rightarrow> 'e queue_sys option" where
  "writer_pop s pc =
     (case bq_pop (wq_queue (qs_queue s)) of
        Some (Ok (_, b)) \<Rightarrow> Some (s\<lparr>qs_queue := (qs_queue s)\<lparr>wq_queue := b\<rparr>, qs_writer := pc\<rparr>)
      | _ \<Rightarrow> None)"

definition writer_fail :: "'e queue_sys \<Rightarrow> store_error \<Rightarrow> 'e queue_sys" where
  "writer_fail s e = s\<lparr>qs_queue := fst (record_err (qs_queue s) e), qs_writer := WFinished\<rparr>"

fun writer_finish :: "'e queue_sys \<Rightarrow> (exec_result, store_error) outcome \<Rightarrow> 'e queue_sys option" where
  "writer_finish s (Ok Continue) = writer_pop s WWaiting"
| "writer_finish s (Ok Stop) = writer_pop s WFinished"
| "writer_finish s (Err e) = Some (writer_fail s e)"
| "writer_finish s (Panic m) = Some (writer_fail s (WriterPanic m))"

datatype 'e sys_event = Accepted "'e write_batch" | AcceptedRevert block_ptr | Executed "'e request" | Silent

inductive writer_step :: "('e, 'r) queue_env \<Rightarrow> 'e queue_sys \<Rightarrow> 'e sys_event \<Rightarrow> 'e queue_sys \<Rightarrow> bool" for env where
  w_ready: "qs_writer s = WWaiting \<Longrightarrow> writer_may_start env now (qs_queue s) \<Longrightarrow> writer_step env s Silent (s\<lparr>qs_writer := WReady\<rparr>)"
| w_take: "qs_writer s = WReady \<Longrightarrow> writer_take s = Some s' \<Longrightarrow> writer_step env s Silent s'"
| w_execute: "qs_writer s = WExecuting \<Longrightarrow> writer_execute env cs s = Some s' \<Longrightarrow>
    ev = (if qs_writer s' = WExecuted (Ok Continue) then Executed (hd (requests s')) else Silent) \<Longrightarrow> writer_step env s ev s'"
| w_finish: "qs_writer s = WExecuted res \<Longrightarrow> writer_finish s res = Some s' \<Longrightarrow> writer_step env s Silent s'"

text \<open>A call of \<open>push\<close> by the client: it fails at once or gets to the point where it waits for a free spot.\<close>

definition client_push :: "'e queue_sys \<Rightarrow> 'e request \<Rightarrow> 'e queue_sys" where
  "client_push s req =
     (case push_start (qs_queue s) req of
        (q, Ok _) \<Rightarrow> s\<lparr>qs_queue := q, qs_client := CPushing req\<rparr>
      | (q, _) \<Rightarrow> s\<lparr>qs_queue := q\<rparr>)"

fun push_event :: "'e request \<Rightarrow> 'e sys_event" where
  "push_event (WriteReq _ qb _) = (case qb_deref qb of Ok b \<Rightarrow> Accepted b | _ \<Rightarrow> Silent)"
| "push_event (RevertReq p _ _) = AcceptedRevert p"
| "push_event StopReq = Silent"

inductive client_step :: "('e, 'r) queue_env \<Rightarrow> 'e queue_sys \<Rightarrow> 'e sys_event \<Rightarrow> 'e queue_sys \<Rightarrow> bool" for env where
  c_append: "qs_client s = CIdle \<Longrightarrow> push_write_batch env now locked (qs_queue s) b = (q, Ok None) \<Longrightarrow>
    client_step env s (Accepted b) (s\<lparr>qs_queue := q\<rparr>)"
| c_append_fails: "qs_client s = CIdle \<Longrightarrow> push_write_batch env now locked (qs_queue s) b = (q, r) \<Longrightarrow> \<not> is_ok r \<Longrightarrow>
    client_step env s Silent (s\<lparr>qs_queue := q\<rparr>)"
| c_write: "qs_client s = CIdle \<Longrightarrow> push_write_batch env now locked (qs_queue s) b = (q, Ok (Some b)) \<Longrightarrow>
    client_step env s Silent (client_push (s\<lparr>qs_queue := q\<rparr>) (request_write now b))"
| c_revert: "qs_client s = CIdle \<Longrightarrow> client_step env s Silent (client_push s (request_revert p cursor))"
| c_stop: "qs_client s = CIdle \<Longrightarrow> client_step env s Silent (client_push (s\<lparr>qs_queue := stop_batching (qs_queue s)\<rparr>) StopReq)"
| c_push_end: "qs_client s = CPushing req \<Longrightarrow> push_end (qs_queue s) req = Some q \<Longrightarrow>
    client_step env s (push_event req) (s\<lparr>qs_queue := q, qs_client := CIdle\<rparr>)"
| c_flush: "qs_client s = CIdle \<Longrightarrow> flush_start (qs_queue s) = (q, r) \<Longrightarrow>
    client_step env s Silent (s\<lparr>qs_queue := q, qs_client := (case r of Ok batching \<Rightarrow> CFlushing batching | _ \<Rightarrow> CIdle)\<rparr>)"
| c_flush_end: "qs_client s = CFlushing batching \<Longrightarrow> flush_end (qs_queue s) batching = (q, Some r) \<Longrightarrow>
    client_step env s Silent (s\<lparr>qs_queue := q, qs_client := CIdle\<rparr>)"
| c_batching: "qs_client s = CIdle \<Longrightarrow> q = start_batching (qs_queue s) \<or> q = stop_batching (qs_queue s) \<Longrightarrow>
    client_step env s Silent (s\<lparr>qs_queue := q\<rparr>)"

definition sys_step :: "('e, 'r) queue_env \<Rightarrow> 'e queue_sys \<Rightarrow> 'e sys_event \<Rightarrow> 'e queue_sys \<Rightarrow> bool" where
  "sys_step env s ev s' \<longleftrightarrow> writer_step env s ev s' \<or> client_step env s ev s'"

inductive sys_run :: "('e, 'r) queue_env \<Rightarrow> 'e queue_sys \<Rightarrow> 'e sys_event list \<Rightarrow> 'e queue_sys \<Rightarrow> bool" for env where
  sys_refl: "sys_run env s [] s"
| sys_more: "sys_run env s es s' \<Longrightarrow> sys_step env s' e s'' \<Longrightarrow> sys_run env s (es @ [e]) s''"

end
