(* ===== verification/Versioned_Store.thy ===== *)
theory Versioned_Store
  imports Write_Batch
begin

text \<open>
  Reading through a queue of operations that are not written yet, in general. A store has a value for
  every block; it can be written batches of later blocks and it can be reverted to a block. The locale
  \<open>versioned_store\<close> is the contract that \<open>BlockTracker\<close> in \<open>store/postgres/src/writable.rs\<close> relies on; under it, a scan of the
  queue from the newest to the oldest operation finds the value that the store has once all
  operations are done, however many of them are done already.
\<close>

datatype 'b store_op = VWrite 'b | VRevert block_number

inductive store_run :: "('s \<Rightarrow> 'b \<Rightarrow> 's \<Rightarrow> bool) \<Rightarrow> ('s \<Rightarrow> block_number \<Rightarrow> 's \<Rightarrow> bool) \<Rightarrow> 's \<Rightarrow> 'b store_op list \<Rightarrow> 's \<Rightarrow> bool"
  for writes reverts where
  store_refl: "store_run writes reverts s [] s"
| store_write: "store_run writes reverts s ops s' \<Longrightarrow> writes s' b s'' \<Longrightarrow> store_run writes reverts s (ops @ [VWrite b]) s''"
| store_revert: "store_run writes reverts s ops s' \<Longrightarrow> reverts s' r s'' \<Longrightarrow> store_run writes reverts s (ops @ [VRevert r]) s''"

inductive_cases store_run_NilE: "store_run writes reverts s [] s'"

text \<open>
  The scan: \<open>rv\<close> is the smallest block that was reverted to so far, \<open>blk\<close> the largest block that no
  operation seen so far touches.
\<close>

fun scan_ops ::
  "('b \<Rightarrow> block_number) \<Rightarrow> ('b \<Rightarrow> block_number) \<Rightarrow> ('b \<Rightarrow> block_number \<Rightarrow> 'v option) \<Rightarrow> block_number \<Rightarrow> block_number \<Rightarrow>
     'b store_op list \<Rightarrow> 'v option \<times> block_number" where
  "scan_ops first final change rv blk [] = (None, blk)"
| "scan_ops first final change rv blk (VWrite b # ops) =
     (let blk' = min blk (final b - 1) in
      if first b \<le> rv
      then (case change b rv of Some v \<Rightarrow> (Some v, blk') | None \<Rightarrow> scan_ops first final change rv blk' ops)
      else scan_ops first final change rv blk' ops)"
| "scan_ops first final change rv blk (VRevert r # ops) = scan_ops first final change (min rv r) (min blk r) ops"

fun revert_min :: "block_number \<Rightarrow> 'b store_op list \<Rightarrow> block_number" where
  "revert_min rv [] = rv"
| "revert_min rv (VWrite b # ops) = revert_min rv ops"
| "revert_min rv (VRevert r # ops) = revert_min (min rv r) ops"

fun block_min :: "('b \<Rightarrow> block_number) \<Rightarrow> block_number \<Rightarrow> 'b store_op list \<Rightarrow> block_number" where
  "block_min final blk [] = blk"
| "block_min final blk (VWrite b # ops) = block_min final (min blk (final b - 1)) ops"
| "block_min final blk (VRevert r # ops) = block_min final (min blk r) ops"

lemma revert_min_le: "revert_min rv ops \<le> rv"
  by (induction rv ops rule: revert_min.induct) auto

lemma revert_min_min: "revert_min (min rv r) ops = min (revert_min rv ops) r"
  by (induction rv ops arbitrary: r rule: revert_min.induct) (simp_all add: min.assoc min.commute min.left_commute)

lemma block_min_min: "block_min final (min blk r) ops = min (block_min final blk ops) r"
  by (induction final blk ops arbitrary: r rule: block_min.induct) (simp_all add: min.assoc min.commute min.left_commute)

lemma block_min_append: "block_min final blk (xs @ ys) = block_min final (block_min final blk xs) ys"
  by (induction final blk xs rule: block_min.induct) simp_all

lemma block_min_rev: "block_min final blk (rev ops) = block_min final blk ops"
  by (induction final blk ops rule: block_min.induct) (simp_all add: block_min_append block_min_min)

lemma revert_min_append: "revert_min rv (xs @ ys) = revert_min (revert_min rv xs) ys"
  by (induction rv xs rule: revert_min.induct) simp_all

lemma revert_min_rev: "revert_min rv (rev ops) = revert_min rv ops"
  by (induction rv ops rule: revert_min.induct) (simp_all add: revert_min_append revert_min_min)

lemma block_le_revert: "blk \<le> rv \<Longrightarrow> block_min final blk ops \<le> revert_min rv ops"
  by (induction final blk ops arbitrary: rv rule: block_min.induct) auto

lemma scan_append:
  "scan_ops first final change rv blk (xs @ ys) =
     (case scan_ops first final change rv blk xs of
        (Some v, b) \<Rightarrow> (Some v, b)
      | (None, b) \<Rightarrow> scan_ops first final change (revert_min rv xs) b ys)"
  by (induction first final change rv blk xs rule: scan_ops.induct) (auto simp: Let_def split: option.split prod.split)

lemma scan_None: "scan_ops first final change rv blk ops = (None, b) \<Longrightarrow> b = block_min final blk ops"
  by (induction first final change rv blk ops rule: scan_ops.induct) (auto simp: Let_def split: option.splits if_splits)

lemma store_run_append:
  "store_run writes reverts s (xs @ ys) s' \<Longrightarrow> \<exists>t. store_run writes reverts s xs t \<and> store_run writes reverts t ys s'"
proof (induction ys arbitrary: s' rule: rev_induct)
  case Nil
  then show ?case using store_refl [of writes reverts s'] by auto
next
  case (snoc y ys)
  from snoc.prems show ?case
  proof (cases rule: store_run.cases)
    case (store_write ops t b)
    then have "store_run writes reverts s (xs @ ys) t" "y = VWrite b" using append_assoc [of xs ys "[y]"] by (auto simp del: append_assoc)
    with snoc.IH store_write(3) show ?thesis by (blast intro: store_run.store_write)
  next
    case (store_revert ops t r)
    then have "store_run writes reverts s (xs @ ys) t" "y = VRevert r" using append_assoc [of xs ys "[y]"] by (auto simp del: append_assoc)
    with snoc.IH store_revert(3) show ?thesis by (blast intro: store_run.store_revert)
  qed auto
qed

lemma store_run_trans:
  "store_run writes reverts t ys u \<Longrightarrow> store_run writes reverts s xs t \<Longrightarrow> store_run writes reverts s (xs @ ys) u"
proof (induction rule: store_run.induct)
  case (store_write s' ops t' b u)
  then show ?case using store_run.store_write [of writes reverts s "xs @ ops" t' b u] by simp
next
  case (store_revert s' ops t' r u)
  then show ?case using store_run.store_revert [of writes reverts s "xs @ ops" t' r u] by simp
qed simp

section \<open>The contract\<close>

locale versioned_store =
  fixes inv :: "'s \<Rightarrow> bool" and head :: "'s \<Rightarrow> block_number" and lookup :: "'s \<Rightarrow> block_number \<Rightarrow> 'v"
    and writes :: "'s \<Rightarrow> 'b \<Rightarrow> 's \<Rightarrow> bool" and reverts :: "'s \<Rightarrow> block_number \<Rightarrow> 's \<Rightarrow> bool"
    and first_block :: "'b \<Rightarrow> block_number" and last_block :: "'b \<Rightarrow> block_number" and change :: "'b \<Rightarrow> block_number \<Rightarrow> 'v option"
  assumes lookup_head: "inv s \<Longrightarrow> head s \<le> x \<Longrightarrow> x \<le> BLOCK_NUMBER_MAX \<Longrightarrow> lookup s x = lookup s (head s)"
    and write_inv: "inv s \<Longrightarrow> writes s b s' \<Longrightarrow> inv s' \<and> head s' = last_block b \<and> head s < first_block b \<and> first_block b \<le> last_block b"
    and write_lookup: "inv s \<Longrightarrow> writes s b s' \<Longrightarrow> x \<le> BLOCK_NUMBER_MAX \<Longrightarrow>
      lookup s' x = (case change b x of Some v \<Rightarrow> v | None \<Rightarrow> lookup s x)"
    and change_before: "inv s \<Longrightarrow> writes s b s' \<Longrightarrow> x < first_block b \<Longrightarrow> change b x = None"
    and change_mono: "inv s \<Longrightarrow> writes s b s' \<Longrightarrow> change b y = None \<Longrightarrow> x \<le> y \<Longrightarrow> change b x = None"
    and revert_inv: "inv s \<Longrightarrow> reverts s r s' \<Longrightarrow> inv s' \<and> head s' = r"
    and revert_lookup: "inv s \<Longrightarrow> reverts s r s' \<Longrightarrow> x \<le> BLOCK_NUMBER_MAX \<Longrightarrow> lookup s' x = lookup s (min x r)"
begin

lemma run_inv: "store_run writes reverts s ops s' \<Longrightarrow> inv s \<Longrightarrow> inv s'"
  by (induction rule: store_run.induct) (auto dest: write_inv revert_inv)

text \<open>The head stays above every block that was reverted to, and so do the blocks before the batches.\<close>

lemma run_blocks:
  assumes "store_run writes reverts s ops s'" "inv s"
  shows "min (head s) (revert_min BLOCK_NUMBER_MAX ops) \<le> head s' \<and>
    min (head s) (revert_min BLOCK_NUMBER_MAX ops) \<le> block_min last_block BLOCK_NUMBER_MAX ops"
  using assms
proof (induction rule: store_run.induct)
  case (store_write s ops s' b s'')
  then show ?case
    using write_inv [OF run_inv [OF store_write(1) store_write(4)] store_write(2)]
    by (auto simp: revert_min_append block_min_append)
next
  case (store_revert s ops s' r s'')
  then show ?case
    using revert_inv [OF run_inv [OF store_revert(1) store_revert(4)] store_revert(2)]
    by (auto simp: revert_min_append block_min_append)
qed (auto simp: min_def)

text \<open>A value that the scan finds is the one of the store after the operations, and what it does not find was there before.\<close>

lemma scan_lookup:
  assumes "store_run writes reverts s ops s'" "inv s" "rv \<le> BLOCK_NUMBER_MAX" "scan_ops first_block last_block change rv blk (rev ops) = (res, b)"
  shows "lookup s' rv = (case res of Some v \<Rightarrow> v | None \<Rightarrow> lookup s (revert_min rv ops))"
  using assms
proof (induction arbitrary: rv blk rule: store_run.induct)
  case (store_write s ops s' c s'')
  have i: "inv s'" using run_inv [OF store_write(1) store_write(4)] .
  note l = write_lookup [OF i store_write(2), of rv]
  show ?case
  proof (cases "change c rv")
    case None
    with store_write.IH [OF store_write(4,5), of "min blk (last_block c - 1)"] store_write.prems l show ?thesis
      by (auto simp: Let_def revert_min_append split: if_splits option.splits)
  next
    case (Some v)
    with change_before [OF i store_write(2), of rv] have "first_block c \<le> rv" by (cases "rv < first_block c") auto
    with Some store_write.prems have "res = Some v" by (simp add: Let_def)
    with Some l store_write.prems show ?thesis by simp
  qed
next
  case (store_revert s ops s' r s'')
  have "lookup s'' rv = lookup s' (min rv r)"
    using revert_lookup [OF run_inv [OF store_revert(1) store_revert(4)] store_revert(2)] store_revert.prems by simp
  with store_revert.IH [OF store_revert(4), of "min rv r" "min blk r"] store_revert.prems show ?case
    by (simp add: revert_min_append revert_min_min split: option.splits)
qed simp

text \<open>If the scan finds nothing, lookups between the block that the scan gives and the smallest revert see the old store.\<close>

lemma scan_untouched:
  assumes "store_run writes reverts s ops s'" "inv s" "rv \<le> BLOCK_NUMBER_MAX" "scan_ops first_block last_block change rv blk (rev ops) = (None, b)"
    "b \<le> y" "y \<le> rv"
  shows "\<exists>y'. b \<le> y' \<and> y' \<le> revert_min rv ops \<and> lookup s' y = lookup s y'"
  using assms
proof (induction arbitrary: rv blk y rule: store_run.induct)
  case (store_write s ops s' c s'')
  have i: "inv s'" using run_inv [OF store_write(1) store_write(4)] .
  have "change c rv = None"
    using change_before [OF i store_write(2), of rv] store_write.prems(3)
    by (cases "first_block c \<le> rv") (auto simp: Let_def split: option.splits)
  then have "change c y = None" using change_mono [OF i store_write(2)] store_write.prems by blast
  then have "lookup s'' y = lookup s' y" using write_lookup [OF i store_write(2), of y] store_write.prems by simp
  moreover have "scan_ops first_block last_block change rv (min blk (last_block c - 1)) (rev ops) = (None, b)"
    using store_write.prems(3) \<open>change c rv = None\<close> by (auto simp: Let_def split: if_splits)
  ultimately show ?case using store_write.IH [OF store_write(4,5)] store_write.prems by (auto simp: revert_min_append)
next
  case (store_revert s ops s' r s'')
  have "lookup s'' y = lookup s' (min y r)"
    using revert_lookup [OF run_inv [OF store_revert(1) store_revert(4)] store_revert(2)] store_revert.prems by simp
  moreover have "b \<le> r"
    using scan_None [of first_block last_block change rv blk "rev (ops @ [VRevert r])" b] store_revert.prems(3)
    by (simp add: block_min_min)
  ultimately show ?case
    using store_revert.IH [OF store_revert(4), of "min rv r" "min blk r" "min y r"] store_revert.prems
    by (auto simp: revert_min_append revert_min_min)
qed auto

lemma read_through:
  assumes s: "inv s" and run: "store_run writes reverts s prev s1" "store_run writes reverts s1 rest s2"
    and scan: "scan_ops first_block last_block change BLOCK_NUMBER_MAX BLOCK_NUMBER_MAX (rev (prev @ rest)) = (res, b)"
  shows "(case res of Some v \<Rightarrow> v | None \<Rightarrow> lookup s1 b) = lookup s2 BLOCK_NUMBER_MAX"
proof (cases res)
  case (Some v)
  with scan_lookup [OF store_run_trans [OF run(2,1)] s order_refl scan] show ?thesis by simp
next
  case None
  let ?rv = "revert_min BLOCK_NUMBER_MAX (rev rest)"
  from scan None obtain blk where sr: "scan_ops first_block last_block change BLOCK_NUMBER_MAX BLOCK_NUMBER_MAX (rev rest) = (None, blk)"
    and sp: "scan_ops first_block last_block change ?rv blk (rev prev) = (None, b)"
    by (auto simp: scan_append split: prod.splits option.splits)
  have rv: "?rv \<le> BLOCK_NUMBER_MAX" "revert_min BLOCK_NUMBER_MAX rest = ?rv" by (simp_all add: revert_min_le revert_min_rev)
  define r0 where "r0 = revert_min ?rv prev"
  have "revert_min BLOCK_NUMBER_MAX (prev @ rest) = revert_min BLOCK_NUMBER_MAX (rev (prev @ rest))" by (simp only: revert_min_rev)
  also have "\<dots> = r0" by (simp add: revert_min_append revert_min_rev r0_def)
  finally have m: "min (head s) r0 \<le> b"
    using run_blocks [OF store_run_trans [OF run(2,1)] s] scan_None [OF scan [unfolded None]] by (simp add: block_min_rev del: rev_append)
  have "b \<le> ?rv" using scan_None [OF sp] scan_None [OF sr] block_le_revert [of blk ?rv last_block "rev prev"] block_le_revert [of _ _ last_block "rev rest"]
      revert_min_le [of ?rv "rev prev"] by (metis order.trans order_refl)
  have stable: "lookup s y = lookup s r0" if "b \<le> y" "y \<le> r0" for y
  proof (cases "head s \<le> r0")
    case True
    then show ?thesis using lookup_head [OF s, of y] lookup_head [OF s, of r0] that m rv(1) revert_min_le [of ?rv prev] by (auto simp: r0_def)
  next
    case False
    with that m have "y = r0" by simp
    then show ?thesis by simp
  qed
  have "lookup s1 b = lookup s r0" "lookup s1 ?rv = lookup s r0"
    using scan_untouched [OF run(1) s rv(1) sp, of b] scan_untouched [OF run(1) s rv(1) sp, of ?rv] \<open>b \<le> ?rv\<close> stable
    unfolding r0_def by (metis order_refl)+
  moreover have "lookup s2 BLOCK_NUMBER_MAX = lookup s1 ?rv"
    using scan_lookup [OF run(2) run_inv [OF run(1) s] order_refl sr] rv(2) by simp
  ultimately show ?thesis using None by simp
qed

end

end
