(* ===== verification/Write_Queue_Laws.thy ===== *)
theory Write_Queue_Laws
  imports Write_Queue Versioned_Store
begin

text \<open>
  What the queue of pending writes promises, for all interleavings of its client and the background
  writer: requests are written in the order in which they were accepted and none is changed once the writer has
  taken it; a read gives what the database has once all requests are written, however far the
  writer is; the writer empties the queue; and after an error nothing more is written.
\<close>

section \<open>The discipline of the queue\<close>

text \<open>A request that nobody has touched yet, one that the writer has taken, and one that it has executed\<close>

fun req_open :: "'e request \<Rightarrow> bool" where
  "req_open (WriteReq _ (OpenBatch _) False) = True"
| "req_open (RevertReq _ _ False) = True"
| "req_open StopReq = True"
| "req_open _ = False"

fun req_taken :: "'e request \<Rightarrow> bool" where
  "req_taken (WriteReq _ (OpenBatch _) True) = True"
| "req_taken (RevertReq _ _ True) = True"
| "req_taken StopReq = True"
| "req_taken _ = False"

fun req_done :: "'e request \<Rightarrow> bool" where
  "req_done (WriteReq _ (ClosedBatch _) True) = True"
| "req_done (RevertReq _ _ True) = True"
| "req_done StopReq = True"
| "req_done _ = False"

fun front_ok :: "writer_pc \<Rightarrow> 'e request list \<Rightarrow> bool" where
  "front_ok WExecuting rs \<longleftrightarrow> rs \<noteq> [] \<and> req_taken (hd rs)"
| "front_ok (WExecuted res) rs \<longleftrightarrow> rs \<noteq> [] \<and> req_done (hd rs) \<and> (res = Ok Stop \<longrightarrow> hd rs = StopReq)"
| "front_ok _ rs \<longleftrightarrow> (rs \<noteq> [] \<longrightarrow> req_open (hd rs))"

definition queue_ok :: "'e write_queue \<Rightarrow> bool" where
  "queue_ok q \<longleftrightarrow> bq_inv (wq_queue q) \<and> (wq_write_err q \<noteq> None \<longrightarrow> wq_poisoned q)"

definition sys_inv :: "'e queue_sys \<Rightarrow> bool" where
  "sys_inv s \<longleftrightarrow>
     queue_ok (qs_queue s) \<and> front_ok (qs_writer s) (requests s) \<and> list_all req_open (tl (requests s)) \<and>
     (wq_poisoned (qs_queue s) \<longrightarrow> qs_writer s = WFinished) \<and> (\<forall>req. qs_client s = CPushing req \<longrightarrow> req_open req)"

lemma req_open_cases:
  assumes "req_open r"
  obtains t b where "r = WriteReq t (OpenBatch b) False" | p c where "r = RevertReq p c False" | "r = StopReq"
  using assms by (cases r rule: req_open.cases) auto

lemma req_taken_cases:
  assumes "req_taken r"
  obtains t b where "r = WriteReq t (OpenBatch b) True" | p c where "r = RevertReq p c True" | "r = StopReq"
  using assms by (cases r rule: req_taken.cases) auto

lemma req_done_cases:
  assumes "req_done r"
  obtains t b where "r = WriteReq t (ClosedBatch b) True" | p c where "r = RevertReq p c True" | "r = StopReq"
  using assms by (cases r rule: req_done.cases) auto

lemma open_taken: "req_open r \<Longrightarrow> req_taken (start_process r)"
  by (erule req_open_cases) auto

lemma taken_done: "req_taken r \<Longrightarrow> req_done (fst (execute env r s cs))"
  by (erule req_taken_cases) auto

lemma stop_result: "execute env r s cs = (r', st, Some (Ok Stop)) \<Longrightarrow> r' = StopReq"
  by (cases r) (auto simp: outcome_simps split: prod.splits outcome.splits option.splits)

text \<open>The last request, if it is not processed, is open.\<close>

lemma newest_open:
  assumes "sys_inv s" "requests s = pre @ [r]" "\<not> processed r"
  shows "req_open r"
proof (cases pre)
  case Nil
  then have "front_ok (qs_writer s) [r]" using assms by (simp add: sys_inv_def)
  with assms(3) show ?thesis
    by (cases "qs_writer s") (auto elim!: req_taken_cases req_done_cases)
next
  case (Cons x xs)
  with assms show ?thesis by (simp add: sys_inv_def)
qed

text \<open>What \<open>push_write\<close> does to the queue: nothing, or it adds the batch to the newest request.\<close>

lemma push_write_batch_cases:
  assumes P: "push_write_batch env now locked (qs_queue s) b = (q, r)" and inv: "sys_inv s"
  obtains "q = qs_queue s" "r = Ok (Some b)"
  | pre t b0 b1 res where "requests s = pre @ [WriteReq t (OpenBatch b0) False]"
      "batch_append (qe_flags env) (qe_memo env) (qe_weigh env) b0 b = (b1, res)" "r = map_ok (\<lambda>_. None) res"
      "wq_queue q = (wq_queue (qs_queue s))\<lparr>bq_queue := pre @ [WriteReq t (OpenBatch b1) False]\<rparr>"
      "wq_write_err q = wq_write_err (qs_queue s)" "wq_poisoned q = wq_poisoned (qs_queue s)"
proof -
  let ?B = "wq_queue (qs_queue s)"
  note unchanged = that(1) and added = that(2)
  have *: thesis if n: "newest = (if bq_queue ?B = [] then None else Some (last (bq_queue ?B)))"
    and p: "push_newest env now locked (qs_queue s) b newest = (q, r)" for newest
  proof (cases "\<exists>t qb. newest = Some (WriteReq t qb False) \<and> now - t < qe_write_batch_duration env \<and> \<not> locked")
    case True
    then obtain t qb where t: "newest = Some (WriteReq t qb False)" "now - t < qe_write_batch_duration env" "\<not> locked" by blast
    then have s: "requests s = butlast (requests s) @ [WriteReq t qb False]"
      using n by (metis append_butlast_last_id option.distinct(1) option.inject)
    then obtain b0 where qb: "qb = OpenBatch b0" using newest_open [OF inv s] by (auto elim!: req_open_cases)
    obtain b1 res where a: "batch_append (qe_flags env) (qe_memo env) (qe_weigh env) b0 b = (b1, res)" by fastforce
    show thesis
    proof (cases "batch_weight env b0 < qe_write_batch_size env")
      case True
      with p t qb a show thesis
        by (intro added [OF s [unfolded qb] a]) (auto simp: push_newest_def set_newest_def Let_def split: if_splits)
    next
      case False
      with p t qb show thesis by (intro unchanged) (simp_all add: push_newest_def)
    qed
  next
    case False
    then show thesis
      using p by (intro unchanged) (auto simp: push_newest_def split: option.splits request.splits if_splits)
  qed
  show thesis
  proof (cases "qe_write_batch_size env = 0 \<or> qe_write_batch_duration env = 0 \<or> \<not> wq_batch_writes (qs_queue s)")
    case True
    with P show thesis by (intro unchanged) (auto simp: push_write_batch_def)
  next
    case False
    with P show thesis by (intro * [OF refl]) (simp add: push_write_batch_def bq_map_newest_def)
  qed
qed

lemma Ok_eq_map_ok: "Ok y = map_ok f r \<longleftrightarrow> (\<exists>x. r = Ok x \<and> y = f x)"
  by (cases r) auto

lemma bq_inv_same_len: "bq_inv b \<Longrightarrow> length xs = bq_len b \<Longrightarrow> bq_inv (b\<lparr>bq_queue := xs\<rparr>)"
  by (simp add: bq_inv_def bq_len_def)

lemma check_err_props:
  "check_err q = (q', r) \<Longrightarrow> wq_queue q' = wq_queue q \<and> wq_poisoned q' = wq_poisoned q \<and> (queue_ok q \<longrightarrow> queue_ok q')"
  by (auto simp: check_err_def queue_ok_def split: option.splits if_splits)

lemma push_start_props:
  "push_start q req = (q', r) \<Longrightarrow> wq_queue q' = wq_queue q \<and> wq_poisoned q' = wq_poisoned q \<and> (queue_ok q \<longrightarrow> queue_ok q')"
  using check_err_props [of q]
  by (auto simp: push_start_def stop_batching_def queue_ok_def split: prod.splits outcome.splits if_splits)

lemma client_push_inv:
  assumes "sys_inv s" "req_open req"
  shows "sys_inv (client_push s req)"
proof -
  obtain q r where q: "push_start (qs_queue s) req = (q, r)" by fastforce
  from push_start_props [OF q] assms q show ?thesis
    by (cases r) (auto simp: client_push_def sys_inv_def)
qed

lemma sys_inv_queue:
  assumes "sys_inv s" "queue_ok q" "wq_queue q = wq_queue (qs_queue s)" "wq_poisoned q = wq_poisoned (qs_queue s)"
  shows "sys_inv (s\<lparr>qs_queue := q\<rparr>)"
  using assms by (simp add: sys_inv_def)

lemma client_step_inv: "client_step env s e s' \<Longrightarrow> sys_inv s \<Longrightarrow> sys_inv s'"
proof (induction rule: client_step.induct)
  case (c_append s now locked b q)
  from c_append(2,3) show ?case
  proof (cases rule: push_write_batch_cases)
    case (2 pre t b0 b1 res)
    then have "bq_inv (wq_queue q)" using c_append(3) by (simp add: sys_inv_def queue_ok_def bq_inv_same_len bq_len_def)
    with 2 c_append(3) show ?thesis
      by (cases pre; cases "qs_writer s") (auto simp: sys_inv_def queue_ok_def)
  qed simp
next
  case (c_append_fails s now locked b q r)
  from c_append_fails(2,4) show ?case
  proof (cases rule: push_write_batch_cases)
    case (2 pre t b0 b1 res)
    then have "bq_inv (wq_queue q)" using c_append_fails(4) by (simp add: sys_inv_def queue_ok_def bq_inv_same_len bq_len_def)
    with 2 c_append_fails(4) show ?thesis
      by (cases pre; cases "qs_writer s") (auto simp: sys_inv_def queue_ok_def)
  qed (use c_append_fails in simp)
next
  case (c_write s now locked b q)
  from c_write(2,3) have "q = qs_queue s" by (cases rule: push_write_batch_cases) (auto simp: Ok_eq_map_ok)
  with c_write(3) show ?case by (simp add: client_push_inv request_write_def)
next
  case (c_revert s p cursor)
  then show ?case by (simp add: client_push_inv request_revert_def)
next
  case (c_stop s)
  then have "sys_inv (s\<lparr>qs_queue := stop_batching (qs_queue s)\<rparr>)"
    by (intro sys_inv_queue) (auto simp: stop_batching_def sys_inv_def queue_ok_def)
  then show ?case by (simp add: client_push_inv)
next
  case (c_push_end s req q)
  then obtain b where b: "bq_push req (wq_queue (qs_queue s)) = Some b" "q = (qs_queue s)\<lparr>wq_queue := b\<rparr>"
    by (auto simp: push_end_def)
  then have "bq_inv b" using c_push_end(3) bq_inv_push [OF _ b(1)] by (simp add: sys_inv_def queue_ok_def)
  moreover have "bq_queue b = requests s @ [req]" using b(1) by (auto simp: bq_push_def split: if_splits)
  moreover have "req_open req" using c_push_end by (simp add: sys_inv_def)
  ultimately show ?case
    using b c_push_end(3) by (cases "requests s"; cases "qs_writer s") (auto simp: sys_inv_def queue_ok_def)
next
  case (c_flush s q r)
  then have "wq_queue q = wq_queue (qs_queue s)" "wq_poisoned q = wq_poisoned (qs_queue s)" "queue_ok q"
    using check_err_props [of "qs_queue s"] 
    by (auto simp: flush_start_def stop_batching_def sys_inv_def queue_ok_def split: prod.splits outcome.splits)
  with c_flush(3) show ?case by (auto simp: sys_inv_def split: outcome.split)
next
  case (c_flush_end s batching q r)
  then have "wq_queue q = wq_queue (qs_queue s)" "wq_poisoned q = wq_poisoned (qs_queue s)" "queue_ok q"
    using check_err_props [of "(qs_queue s)\<lparr>wq_batch_writes := batching\<rparr>"]
    by (auto simp: flush_end_def sys_inv_def queue_ok_def split: option.splits prod.splits)
  with c_flush_end(3) show ?case by (simp add: sys_inv_def)
next
  case (c_batching s q)
  then show ?case by (auto simp: sys_inv_def start_batching_def stop_batching_def queue_ok_def)
qed

lemma writer_take_Some:
  assumes "writer_take s = Some s'" "bq_inv (wq_queue (qs_queue s))"
  obtains r rs b where "requests s = r # rs" "bq_queue b = start_process r # rs" "bq_inv b"
    "s' = s\<lparr>qs_queue := (qs_queue s)\<lparr>wq_queue := b\<rparr>, qs_writer := WExecuting\<rparr>"
proof -
  from assms(1) obtain x b where b: "bq_peek_with start_process (wq_queue (qs_queue s)) = Some (Ok (x, b))"
    "s' = s\<lparr>qs_queue := (qs_queue s)\<lparr>wq_queue := b\<rparr>, qs_writer := WExecuting\<rparr>"
    by (auto simp: writer_take_def split: option.splits outcome.splits)
  then obtain r rs where "requests s = r # rs" "bq_queue b = start_process r # rs"
    by (auto simp: bq_peek_with_def split: if_splits list.splits)
  with b bq_inv_peek_with [OF assms(2) b(1)] show thesis by (intro that)
qed

lemma writer_execute_Some:
  assumes "writer_execute env cs s = Some s'"
  obtains r rs r' st res where "requests s = r # rs" "execute env r (qs_store s) cs = (r', st, Some res)"
    "s' = s\<lparr>qs_queue := (qs_queue s)\<lparr>wq_queue := (wq_queue (qs_queue s))\<lparr>bq_queue := r' # rs\<rparr>\<rparr>, qs_store := st, qs_writer := WExecuted res\<rparr>"
  using assms by (auto simp: writer_execute_def set_front_def split: list.splits prod.splits option.splits)

lemma writer_pop_Some:
  assumes "writer_pop s pc = Some s'" "bq_inv (wq_queue (qs_queue s))"
  obtains r b where "requests s = r # bq_queue b" "bq_inv b" "s' = s\<lparr>qs_queue := (qs_queue s)\<lparr>wq_queue := b\<rparr>, qs_writer := pc\<rparr>"
proof -
  from assms obtain r b where p: "bq_pop (wq_queue (qs_queue s)) = Some (Ok (r, b))"
    "s' = s\<lparr>qs_queue := (qs_queue s)\<lparr>wq_queue := b\<rparr>, qs_writer := pc\<rparr>"
    by (auto simp: writer_pop_def split: option.splits outcome.splits)
  moreover have "requests s = r # bq_queue b" using p(1) by (auto simp: bq_pop_def split: if_splits list.splits)
  ultimately show thesis using that bq_inv_pop [OF assms(2) p(1)] by blast
qed

lemma writer_fail_eq:
  "bq_inv (wq_queue (qs_queue s)) \<Longrightarrow> \<exists>b. bq_inv b \<and> bq_queue b = [] \<and>
     writer_fail s e = s\<lparr>qs_queue := (qs_queue s)\<lparr>wq_write_err := Some e, wq_poisoned := True, wq_queue := b\<rparr>, qs_writer := WFinished\<rparr>"
  by (intro exI [of _ "(wq_queue (qs_queue s))\<lparr>bq_queue := [], bq_pop_permits := 0, bq_push_permits := bq_capacity (wq_queue (qs_queue s))\<rparr>"])
    (simp add: writer_fail_def record_err_def bq_clear_eq Let_def bq_inv_def bq_len_def)

lemma writer_step_inv: "writer_step env s e s' \<Longrightarrow> sys_inv s \<Longrightarrow> sys_inv s'"
proof (induction rule: writer_step.induct)
  case (w_ready s now)
  then show ?case by (simp add: sys_inv_def)
next
  case (w_take s s')
  then have "bq_inv (wq_queue (qs_queue s))" by (simp add: sys_inv_def queue_ok_def)
  with w_take(2) show ?case
    by (rule writer_take_Some) (use w_take in \<open>auto simp: sys_inv_def queue_ok_def open_taken\<close>)
next
  case (w_execute s cs s' ev)
  from w_execute(2) obtain r rs r' st res where r: "requests s = r # rs" "execute env r (qs_store s) cs = (r', st, Some res)"
    "s' = s\<lparr>qs_queue := (qs_queue s)\<lparr>wq_queue := (wq_queue (qs_queue s))\<lparr>bq_queue := r' # rs\<rparr>\<rparr>, qs_store := st, qs_writer := WExecuted res\<rparr>"
    by (rule writer_execute_Some)
  have "req_done r'" using taken_done [of r env "qs_store s" cs] r w_execute by (simp add: sys_inv_def)
  with r w_execute stop_result [of env r "qs_store s" cs r' st] show ?case by (auto simp: sys_inv_def queue_ok_def bq_inv_same_len bq_len_def)
next
  case (w_finish s res s')
  then have bi: "bq_inv (wq_queue (qs_queue s))" by (simp add: sys_inv_def queue_ok_def)
  have pop: "sys_inv s'" if "writer_pop s pc = Some s'" "pc = WWaiting \<or> pc = WFinished" for pc
    using that(1) bi
  proof (rule writer_pop_Some)
    fix r b
    assume "requests s = r # bq_queue b" "bq_inv b" "s' = s\<lparr>qs_queue := (qs_queue s)\<lparr>wq_queue := b\<rparr>, qs_writer := pc\<rparr>"
    then show ?thesis using w_finish(1,3) that(2) by (cases "bq_queue b") (auto simp: sys_inv_def queue_ok_def)
  qed
  have fail: "sys_inv (writer_fail s e)" for e
    using writer_fail_eq [OF bi, of e] w_finish(3) by (auto simp: sys_inv_def queue_ok_def)
  show ?case using w_finish(2) pop fail by (cases "(s, res)" rule: writer_finish.cases) auto
qed

lemma sys_run_inv: "sys_run env s es s' \<Longrightarrow> sys_inv s \<Longrightarrow> sys_inv s'"
  by (induction rule: sys_run.induct) (auto simp: sys_step_def dest: writer_step_inv client_step_inv)

lemma sys_inv_new: "sys_inv (sys_new c s)"
  by (simp add: sys_inv_def sys_new_def queue_new_def queue_ok_def bq_inv_new) (simp add: with_capacity_def)

section \<open>The order of requests\<close>

text \<open>A batch that is made of the given ones, one appended after the other\<close>

inductive composed :: "('e, 'r) queue_env \<Rightarrow> 'e write_batch \<Rightarrow> 'e write_batch list \<Rightarrow> bool" for env where
  composed_one: "composed env b [b]"
| composed_append: "composed env b bs \<Longrightarrow> batch_append (qe_flags env) (qe_memo env) (qe_weigh env) b c = (b', Ok ()) \<Longrightarrow>
    composed env b' (bs @ [c])"

text \<open>What the client has handed over: batches and blocks to revert to\<close>

definition accepted :: "'e sys_event list \<Rightarrow> ('e write_batch + block_ptr) list" where
  "accepted es = concat (map (\<lambda>e. case e of Accepted b \<Rightarrow> [Inl b] | AcceptedRevert p \<Rightarrow> [Inr p] | _ \<Rightarrow> []) es)"

definition executed :: "'e sys_event list \<Rightarrow> 'e request list" where
  "executed es = concat (map (\<lambda>e. case e of Executed r \<Rightarrow> [r] | _ \<Rightarrow> []) es)"

fun covers :: "('e, 'r) queue_env \<Rightarrow> 'e request \<Rightarrow> ('e write_batch + block_ptr) list \<Rightarrow> bool" where
  "covers env (WriteReq _ qb _) items \<longleftrightarrow> (\<exists>b bs. qb_deref qb = Ok b \<and> composed env b bs \<and> items = map Inl bs)"
| "covers env (RevertReq p _ _) items \<longleftrightarrow> items = [Inr p]"
| "covers env StopReq items \<longleftrightarrow> items = []"

fun append_failed :: "'e request \<Rightarrow> bool" where
  "append_failed (WriteReq _ qb _) \<longleftrightarrow> (\<exists>b. qb_deref qb = Ok b \<and> b_error b \<noteq> None)"
| "append_failed _ \<longleftrightarrow> False"

abbreviation covers_or_failed :: "('e, 'r) queue_env \<Rightarrow> 'e request \<Rightarrow> ('e write_batch + block_ptr) list \<Rightarrow> bool" where
  "covers_or_failed env r items \<equiv> covers env r items \<or> append_failed r"

definition pending :: "'e queue_sys \<Rightarrow> 'e request list" where
  "pending s = (if qs_writer s = WExecuted (Ok Continue) then tl (requests s) else requests s)"

definition order_kept :: "('e, 'r) queue_env \<Rightarrow> ('e write_batch + block_ptr) list \<Rightarrow> 'e request list \<Rightarrow> 'e queue_sys \<Rightarrow> bool" where
  "order_kept env acc ex s \<longleftrightarrow>
     (\<exists>gs rest. acc = concat gs @ rest \<and> list_all2 (covers env) ex gs \<and>
        (\<not> wq_poisoned (qs_queue s) \<longrightarrow> (\<exists>hs. rest = concat hs \<and> list_all2 (covers_or_failed env) (pending s) hs)))"

lemma covers_process: "covers env (start_process r) items = covers env r items" "append_failed (start_process r) = append_failed r"
  by (cases r; simp)+

lemma covers_execute:
  "covers env (fst (execute env r s cs)) items = covers env r items \<and> append_failed (fst (execute env r s cs)) = append_failed r"
proof (cases r)
  case (WriteReq t qb pr)
  then show ?thesis by (cases qb) simp_all
qed simp_all

lemma accepted_snoc: "accepted (es @ [e]) = accepted es @ (case e of Accepted b \<Rightarrow> [Inl b] | AcceptedRevert p \<Rightarrow> [Inr p] | _ \<Rightarrow> [])"
  by (simp add: accepted_def)

lemma executed_snoc: "executed (es @ [e]) = executed es @ (case e of Executed r \<Rightarrow> [r] | _ \<Rightarrow> [])"
  by (simp add: executed_def)

text \<open>Steps that keep the order: those that leave the pending requests and what was accepted alone, and those of a queue that is poisoned\<close>

lemma order_kept_same:
  assumes "order_kept env acc ex s"
    "wq_poisoned (qs_queue s') = wq_poisoned (qs_queue s)" "\<And>hs. list_all2 (covers_or_failed env) (pending s) hs \<Longrightarrow> list_all2 (covers_or_failed env) (pending s') hs"
  shows "order_kept env acc ex s'"
proof -
  obtain gs rest where g: "acc = concat gs @ rest" "list_all2 (covers env) ex gs"
    "\<not> wq_poisoned (qs_queue s) \<longrightarrow> (\<exists>hs. rest = concat hs \<and> list_all2 (covers_or_failed env) (pending s) hs)"
    using assms(1) by (auto simp: order_kept_def)
  with assms(2,3) show ?thesis unfolding order_kept_def by (intro exI [of _ gs] exI [of _ rest]) auto
qed

lemma order_kept_poisoned:
  assumes "order_kept env acc ex s" "wq_poisoned (qs_queue s')"
  shows "order_kept env (acc @ acc2) ex s'"
proof -
  obtain gs rest where "acc = concat gs @ rest" "list_all2 (covers env) ex gs" using assms(1) by (auto simp: order_kept_def)
  then show ?thesis using assms(2) unfolding order_kept_def by (intro exI [of _ gs] exI [of _ "rest @ acc2"]) simp
qed

lemma order_kept_snoc:
  assumes "order_kept env acc ex s" "pending s' = pending s @ [r]" "covers env r items" "wq_poisoned (qs_queue s') = wq_poisoned (qs_queue s)"
  shows "order_kept env (acc @ items) ex s'"
proof (cases "wq_poisoned (qs_queue s)")
  case True
  with assms show ?thesis by (simp add: order_kept_poisoned)
next
  case False
  then obtain gs hs where "acc = concat gs @ concat hs" "list_all2 (covers env) ex gs" "list_all2 (covers_or_failed env) (pending s) hs"
    using assms(1) by (auto simp: order_kept_def)
  then show ?thesis
    using assms(2-) unfolding order_kept_def
    by (intro exI [of _ gs] exI [of _ "concat (hs @ [items])"]) (auto intro!: exI [of _ "hs @ [items]"] list_all2_appendI)
qed

text \<open>Changing the last pending request\<close>

lemma order_kept_last:
  assumes "order_kept env acc ex s" "pending s = pre @ [r]" "pending s' = pre @ [r']"
    "\<And>its. covers_or_failed env r its \<Longrightarrow> covers_or_failed env r' (its @ items)" "wq_poisoned (qs_queue s') = wq_poisoned (qs_queue s)"
  shows "order_kept env (acc @ items) ex s'"
proof (cases "wq_poisoned (qs_queue s)")
  case True
  with assms show ?thesis by (simp add: order_kept_poisoned)
next
  case False
  then obtain gs hs where h: "acc = concat gs @ concat hs" "list_all2 (covers env) ex gs" "list_all2 (covers_or_failed env) (pre @ [r]) hs"
    using assms(1,2) by (auto simp: order_kept_def)
  then obtain hs1 its where "hs = hs1 @ [its]" "list_all2 (covers_or_failed env) pre hs1" "covers_or_failed env r its"
    by (auto simp: list_all2_append1 list_all2_Cons1)
  with h(1,2) assms(3-) show ?thesis
    unfolding order_kept_def
    by (intro exI [of _ gs] exI [of _ "concat (hs1 @ [its @ items])"]) (auto intro!: exI [of _ "hs1 @ [its @ items]"] list_all2_appendI)
qed

lemma pending_last:
  assumes "sys_inv s" "requests s = pre @ [r]" "\<not> req_done r" "qs_writer s' = qs_writer s" "requests s' = pre @ [r']"
  obtains pre' where "pending s = pre' @ [r]" "pending s' = pre' @ [r']"
proof (cases "qs_writer s = WExecuted (Ok Continue)")
  case True
  then have "pre \<noteq> []" using assms(1-3) by (cases pre) (auto simp: sys_inv_def)
  with True assms show thesis by (intro that [of "tl pre"]) (simp_all add: pending_def)
next
  case False
  with assms show thesis by (intro that [of pre]) (simp_all add: pending_def)
qed

lemma batch_append_error:
  assumes "batch_append fl memo weigh b c = (b', r)"
  shows "(r = Ok () \<longrightarrow> b_error b' = b_error b) \<and> (\<forall>e. r = Err e \<longrightarrow> b_error b' = Some e) \<and> (\<forall>m. r \<noteq> Panic m)"
proof -
  obtain b1 res where i: "batch_append_inner fl memo b c = (b1, res)" by fastforce
  obtain ms x where a: "rgs_append fl memo (b_mods b) (b_mods c) = (ms, x)" by fastforce
  then have "x \<noteq> Panic m" for m using rgs_append_no_panic [of fl memo "b_mods b" "b_mods c" ms m] by auto
  then have "res \<noteq> Panic m" "b_error b1 = b_error b" for m
    using i a by (auto simp: batch_append_inner_def Let_def split: if_splits outcome.splits)
  with assms i show ?thesis by (cases res) (auto simp: batch_append_def Let_def)
qed

lemma client_push_same:
  "pending (client_push s req) = pending s \<and> wq_poisoned (qs_queue (client_push s req)) = wq_poisoned (qs_queue s)"
proof -
  obtain q r where q: "push_start (qs_queue s) req = (q, r)" by fastforce
  from push_start_props [OF q] q show ?thesis by (cases r) (auto simp: client_push_def pending_def)
qed

lemma order_kept_silent:
  "order_kept env acc ex s \<Longrightarrow> pending s' = pending s \<Longrightarrow> wq_poisoned (qs_queue s') = wq_poisoned (qs_queue s) \<Longrightarrow> order_kept env acc ex s'"
  by (erule order_kept_same) simp_all

lemma client_order:
  assumes "client_step env s e s'" "sys_inv s" "order_kept env acc ex s"
  shows "order_kept env (acc @ (case e of Accepted b \<Rightarrow> [Inl b] | AcceptedRevert p \<Rightarrow> [Inr p] | _ \<Rightarrow> [])) ex s'"
  using assms
proof (induction rule: client_step.induct)
  case (c_append s now locked b q)
  from c_append(2,3) show ?case
  proof (cases rule: push_write_batch_cases)
    case (2 pre t b0 b1 res)
    then have res: "res = Ok ()" by (auto simp: Ok_eq_map_ok)
    obtain pre' where p: "pending s = pre' @ [WriteReq t (OpenBatch b0) False]" "pending (s\<lparr>qs_queue := q\<rparr>) = pre' @ [WriteReq t (OpenBatch b1) False]"
      by (rule pending_last [OF c_append(3) 2(1), of "s\<lparr>qs_queue := q\<rparr>" "WriteReq t (OpenBatch b1) False"]) (use 2(4) in auto)
    show ?thesis
      using 2(2,6) res composed_append batch_append_error [OF 2(2)]
      by (simp, intro order_kept_last [OF c_append(4) p]) fastforce+
  qed simp
next
  case (c_append_fails s now locked b q r)
  from c_append_fails(2,4) show ?case
  proof (cases rule: push_write_batch_cases)
    case (2 pre t b0 b1 res)
    then have "b_error b1 \<noteq> None" using c_append_fails(3) batch_append_error [OF 2(2)] by (cases res) auto
    moreover obtain pre' where p: "pending s = pre' @ [WriteReq t (OpenBatch b0) False]" "pending (s\<lparr>qs_queue := q\<rparr>) = pre' @ [WriteReq t (OpenBatch b1) False]"
      by (rule pending_last [OF c_append_fails(4) 2(1), of "s\<lparr>qs_queue := q\<rparr>" "WriteReq t (OpenBatch b1) False"]) (use 2(4) in auto)
    ultimately have "order_kept env (acc @ []) ex (s\<lparr>qs_queue := q\<rparr>)"
      using 2(6) by (intro order_kept_last [OF c_append_fails(5) p]) auto
    then show ?thesis by simp
  qed (use c_append_fails in simp)
next
  case (c_write s now locked b q)
  from c_write(2,3) have "q = qs_queue s" by (cases rule: push_write_batch_cases) (auto simp: Ok_eq_map_ok)
  with c_write(4) show ?case using client_push_same [of s] by (auto intro: order_kept_silent)
next
  case (c_revert s p cursor)
  then show ?case using client_push_same [of s] by (auto intro: order_kept_silent)
next
  case (c_stop s)
  have "pending (s\<lparr>qs_queue := stop_batching (qs_queue s)\<rparr>) = pending s" by (simp add: pending_def stop_batching_def)
  then show ?case
    using c_stop client_push_same [of "s\<lparr>qs_queue := stop_batching (qs_queue s)\<rparr>" StopReq]
    by (simp, intro order_kept_silent [OF c_stop(3)]) (simp_all add: stop_batching_def)
next
  case (c_push_end s req q)
  have "covers env req (case push_event req of Accepted b \<Rightarrow> [Inl b] | AcceptedRevert p \<Rightarrow> [Inr p] | _ \<Rightarrow> [])"
    using c_push_end(1,3) by (auto simp: sys_inv_def intro!: exI [of _ "[_]"] composed_one elim!: req_open_cases)
  moreover have "pending (s\<lparr>qs_queue := q, qs_client := CIdle\<rparr>) = pending s @ [req]"
    using c_push_end(2,3) by (cases "requests s") (auto simp: push_end_def bq_push_def pending_def sys_inv_def split: if_splits)
  ultimately show ?case
    using c_push_end(2) by (intro order_kept_snoc [OF c_push_end(4)]) (auto simp: push_end_def)
next
  case (c_flush s q r)
  then have "wq_queue q = wq_queue (qs_queue s)" "wq_poisoned q = wq_poisoned (qs_queue s)"
    using check_err_props [of "qs_queue s"] by (auto simp: flush_start_def stop_batching_def split: prod.splits outcome.splits)
  then show ?case by (simp, intro order_kept_silent [OF c_flush(4)]) (simp_all add: pending_def)
next
  case (c_flush_end s batching q r)
  then have "wq_queue q = wq_queue (qs_queue s)" "wq_poisoned q = wq_poisoned (qs_queue s)"
    using check_err_props [of "(qs_queue s)\<lparr>wq_batch_writes := batching\<rparr>"] by (auto simp: flush_end_def split: option.splits prod.splits)
  then show ?case by (simp, intro order_kept_silent [OF c_flush_end(4)]) (simp_all add: pending_def)
next
  case (c_batching s q)
  then show ?case
    by (simp, intro order_kept_silent [OF c_batching(4)]) (auto simp: pending_def start_batching_def stop_batching_def)
qed

lemma order_kept_front:
  assumes "order_kept env acc ex s" "pending s = r # rs" "pending s' = r' # rs" "wq_poisoned (qs_queue s') = wq_poisoned (qs_queue s)"
    "\<And>its. covers env r' its = covers env r its" "append_failed r' = append_failed r"
  shows "order_kept env acc ex s'"
  by (rule order_kept_same [OF assms(1)]) (use assms(2-) in \<open>auto simp: list_all2_Cons1\<close>)

lemma execute_not_failed: "execute env r s cs = (r', st, Some (Ok x)) \<Longrightarrow> \<not> append_failed r"
proof (cases r)
  case (WriteReq t qb pr)
  then show "execute env r s cs = (r', st, Some (Ok x)) \<Longrightarrow> \<not> append_failed r"
    by (cases qb) (auto split: option.splits)
qed auto

lemma order_kept_executed:
  assumes "order_kept env acc ex s" "\<not> wq_poisoned (qs_queue s)" "pending s = r # rs" "pending s' = rs" "\<not> append_failed r"
    "\<And>its. covers env r' its = covers env r its"
  shows "order_kept env acc (ex @ [r']) s'"
proof -
  obtain gs hs where h: "acc = concat gs @ concat hs" "list_all2 (covers env) ex gs" "list_all2 (covers_or_failed env) (r # rs) hs"
    using assms(1-3) by (auto simp: order_kept_def)
  then obtain g hs' where "hs = g # hs'" "covers env r g" "list_all2 (covers_or_failed env) rs hs'"
    using assms(5) by (auto simp: list_all2_Cons1)
  with h(1,2) assms(4,6) show ?thesis
    unfolding order_kept_def by (intro exI [of _ "gs @ [g]"] exI [of _ "concat hs'"]) (auto intro!: exI [of _ hs'] list_all2_appendI)
qed

lemma order_kept_stopped:
  assumes "order_kept env acc ex s" "pending s = StopReq # rs" "pending s' = rs" "wq_poisoned (qs_queue s') = wq_poisoned (qs_queue s)"
  shows "order_kept env acc ex s'"
proof -
  obtain gs rest where g: "acc = concat gs @ rest" "list_all2 (covers env) ex gs"
    "\<not> wq_poisoned (qs_queue s) \<longrightarrow> (\<exists>hs. rest = concat hs \<and> list_all2 (covers_or_failed env) (StopReq # rs) hs)"
    using assms(1,2) by (auto simp: order_kept_def)
  then have "\<exists>hs. rest = concat hs \<and> list_all2 (covers_or_failed env) rs hs" if "\<not> wq_poisoned (qs_queue s)"
    using that by (auto simp: list_all2_Cons1)
  with g(1,2) assms(3,4) show ?thesis unfolding order_kept_def by (intro exI [of _ gs] exI [of _ rest]) simp
qed

lemma writer_order:
  assumes "writer_step env s e s'" "sys_inv s" "order_kept env acc ex s"
  shows "order_kept env acc (ex @ (case e of Executed r \<Rightarrow> [r] | _ \<Rightarrow> [])) s'"
  using assms
proof (induction rule: writer_step.induct)
  case (w_ready s now)
  then show ?case by (simp, intro order_kept_silent [OF w_ready(4)]) (simp_all add: pending_def)
next
  case (w_take s s')
  then have "bq_inv (wq_queue (qs_queue s))" by (simp add: sys_inv_def queue_ok_def)
  with w_take(2) obtain r rs b where "requests s = r # rs" "bq_queue b = start_process r # rs"
    "s' = s\<lparr>qs_queue := (qs_queue s)\<lparr>wq_queue := b\<rparr>, qs_writer := WExecuting\<rparr>" by (rule writer_take_Some)
  then show ?case
    using w_take(1) by (simp, intro order_kept_front [OF w_take(4), where r' = "start_process r"]) (simp_all add: pending_def covers_process)
next
  case (w_execute s cs s' ev)
  from w_execute(2) obtain r rs r' st res where r: "requests s = r # rs" "execute env r (qs_store s) cs = (r', st, Some res)"
    "s' = s\<lparr>qs_queue := (qs_queue s)\<lparr>wq_queue := (wq_queue (qs_queue s))\<lparr>bq_queue := r' # rs\<rparr>\<rparr>, qs_store := st, qs_writer := WExecuted res\<rparr>"
    by (rule writer_execute_Some)
  have c: "covers env r' its = covers env r its" "append_failed r' = append_failed r" for its
    using covers_execute [of env r "qs_store s" cs] r(2) by simp_all
  have p: "pending s = r # rs" "\<not> wq_poisoned (qs_queue s)" using r(1) w_execute(1,4) by (auto simp: pending_def sys_inv_def)
  show ?case
  proof (cases "res = Ok Continue")
    case True
    then have "order_kept env acc (ex @ [r']) s'"
      using r p c execute_not_failed [of env r "qs_store s" cs r' st Continue]
      by (intro order_kept_executed [OF w_execute(5) p(2,1)]) (simp_all add: pending_def)
    with True r(3) w_execute(3) show ?thesis by simp
  next
    case False
    then have "order_kept env acc ex s'"
      using r c by (intro order_kept_front [OF w_execute(5) p(1), where r' = r']) (simp_all add: pending_def)
    with False r(3) w_execute(3) show ?thesis by simp
  qed
next
  case (w_finish s res s')
  then have bi: "bq_inv (wq_queue (qs_queue s))" by (simp add: sys_inv_def queue_ok_def)
  have fail: "order_kept env acc ex (writer_fail s e)" for e
    using order_kept_poisoned [OF w_finish(4), of "writer_fail s e" "[]"] writer_fail_eq [OF bi, of e] by auto
  have pop: "order_kept env acc ex s'" if "writer_pop s pc = Some s'" "res = Ok Continue \<and> pc = WWaiting \<or> res = Ok Stop \<and> pc = WFinished" for pc
    using that(1) bi
  proof (rule writer_pop_Some)
    fix r b
    assume b: "requests s = r # bq_queue b" "bq_inv b" "s' = s\<lparr>qs_queue := (qs_queue s)\<lparr>wq_queue := b\<rparr>, qs_writer := pc\<rparr>"
    show ?thesis
    proof (cases "res = Ok Continue")
      case True
      with b w_finish(1) that(2) show ?thesis by (intro order_kept_silent [OF w_finish(4)]) (auto simp: pending_def)
    next
      case False
      with b w_finish(1,3) that(2) show ?thesis
        by (intro order_kept_stopped [OF w_finish(4), of "bq_queue b"]) (auto simp: pending_def sys_inv_def)
    qed
  qed
  show ?case using w_finish(2) pop fail by (cases "(s, res)" rule: writer_finish.cases) auto
qed

lemma sys_run_order:
  assumes "sys_run env (sys_new c s0) es s"
  shows "sys_inv s \<and> order_kept env (accepted es) (executed es) s"
  using assms
proof (induction "sys_new c s0" es s rule: sys_run.induct)
  case sys_refl
  have "requests (sys_new c s0) = []" by (simp add: sys_new_def queue_new_def with_capacity_def)
  then show ?case by (simp add: sys_inv_new order_kept_def accepted_def executed_def pending_def)
next
  case (sys_more es s' e s'')
  then have "sys_inv s''" by (auto simp: sys_step_def dest: writer_step_inv client_step_inv)
  moreover have "order_kept env (accepted (es @ [e])) (executed (es @ [e])) s''"
    using sys_more(3) unfolding sys_step_def
  proof
    assume w: "writer_step env s' e s''"
    then have "\<not> (\<exists>b. e = Accepted b) \<and> \<not> (\<exists>p. e = AcceptedRevert p)" by (auto elim!: writer_step.cases split: if_splits)
    then show ?thesis using writer_order [OF w] sys_more(2) by (cases e) (simp_all add: accepted_snoc executed_snoc)
  next
    assume w: "client_step env s' e s''"
    have "Executed r \<noteq> push_event req" for req :: "'a request" and r by (cases req) (auto split: outcome.split)
    with w have "\<not> (\<exists>r. e = Executed r)" by (auto elim!: client_step.cases)
    then show ?thesis using client_order [OF w] sys_more(2) by (cases e) (simp_all add: accepted_snoc executed_snoc)
  qed
  ultimately show ?case by blast
qed

section \<open>Deployments as versioned stores\<close>

text \<open>
  The contract for reads, for one key: a batch fits the deployment, and all its changes to the id of the key are for
  the key itself.
\<close>

definition dep_reads_inv :: "type_flags \<Rightarrow> ('e, 'r) dep_env \<Rightarrow> entity_type set \<Rightarrow> entity_key \<Rightarrow> 'e deployment \<Rightarrow> bool" where
  "dep_reads_inv fl env aggs key d \<longleftrightarrow> dep_inv fl env d \<and> env_ok fl env aggs \<and> k_entity_type key \<notin> aggs"

definition dep_writes :: "type_flags \<Rightarrow> bool \<Rightarrow> ('e, 'r) dep_env \<Rightarrow> entity_key \<Rightarrow> 'e deployment \<Rightarrow> 'e write_batch \<Rightarrow> 'e deployment \<Rightarrow> bool" where
  "dep_writes fl memo env key d b d' \<longleftrightarrow>
     batch_fits fl memo d b \<and> (\<forall>g \<in> set (b_mods b). same_key key g) \<and> (\<exists>lr. transact_block_operations env d b lr = Some (Ok d'))"

definition dep_reverts :: "('e, 'r) dep_env \<Rightarrow> 'e deployment \<Rightarrow> block_number \<Rightarrow> 'e deployment \<Rightarrow> bool" where
  "dep_reverts env d r d' \<longleftrightarrow> (\<exists>p c. bp_number p = r \<and> r < BLOCK_NUMBER_MAX \<and> revert_block_operations env d p c = Ok d')"

definition batch_change :: "entity_key \<Rightarrow> 'e write_batch \<Rightarrow> block_number \<Rightarrow> ('e option, store_error) outcome option" where
  "batch_change key b x = map_option (\<lambda>op. Ok (op_value op)) (batch_last_op False b key x)"

lemma last_op_mono:
  "batch_last_op False b key y = None \<Longrightarrow> x \<le> y \<Longrightarrow> batch_last_op False b key x = None"
  by (auto simp: batch_last_op_def rg_last_op_scan rfind_None_iff bind_eq_None_conv)

interpretation dep_reads: versioned_store "dep_reads_inv fl env aggs key" dep_head "\<lambda>d. layout_find (dp_tables d) key"
  "dep_writes fl memo env key" "dep_reverts env" b_first_block "\<lambda>b. bp_number (b_block_ptr b)" "batch_change key"
proof (unfold_locales, goal_cases)
  case (1 d x)
  then show ?case using layout_find_upto [of fl "de_store env" "dep_head d" "dp_tables d" x key] by (simp add: dep_reads_inv_def dep_inv_def)
next
  case (2 d b d')
  then obtain lr where "transact_block_operations env d b lr = Some (Ok d')" "batch_fits fl memo d b" "dep_inv fl env d" "env_ok fl env aggs"
    by (auto simp: dep_writes_def dep_reads_inv_def)
  from transact_law [OF this(1,3,4,2)] this 2 show ?case by (auto simp: dep_reads_inv_def batch_fits_def batch_inv_def)
next
  case (3 d b d' x)
  then obtain lr where "transact_block_operations env d b lr = Some (Ok d')" "batch_fits fl memo d b" "dep_inv fl env d" "env_ok fl env aggs"
    by (auto simp: dep_writes_def dep_reads_inv_def)
  from transact_law [OF this(1,3,4,2), of key x] 3 show ?case
    by (auto simp: dep_reads_inv_def dep_writes_def batch_change_def split: option.split)
next
  case (4 d b d' x)
  then show ?case
    using groups_last_op_before [of fl memo "b_first_block b" "bp_number (b_block_ptr b)" "b_mods b" x key]
    by (auto simp: dep_writes_def batch_fits_def batch_inv_def batch_change_def batch_last_op_def groups_last_op_def)
next
  case (5 d b d' y x)
  then show ?case using last_op_mono [of b key y x] by (simp add: batch_change_def)
next
  case (6 d r d')
  then show ?case using rewind_law revert_ops_Ok by (fastforce simp: dep_reverts_def dep_reads_inv_def)
next
  case (7 d r d' x)
  then obtain p c where "bp_number p = r" "rewind_or_truncate env d p c False = Ok d'" "r < BLOCK_NUMBER_MAX"
    using revert_ops_Ok by (fastforce simp: dep_reverts_def)
  with rewind_law [OF this(2), of fl x key] 7 show ?case by (simp add: dep_reads_inv_def)
qed

section \<open>Reading while the writer runs\<close>

text \<open>
  When a request is executed, its batch fits the deployment and its changes to the id of the key are for the key;
  it is not reverted to a block number that stands for infinity.
\<close>

definition exec_fits :: "('e, 'r) queue_env \<Rightarrow> entity_key \<Rightarrow> 'e queue_sys \<Rightarrow> bool" where
  "exec_fits env key s \<longleftrightarrow>
     (qs_writer s = WExecuting \<longrightarrow>
        (case requests s of
           WriteReq _ qb _ # _ \<Rightarrow> (\<forall>b. qb_deref qb = Ok b \<longrightarrow>
             batch_fits (qe_flags env) (qe_memo env) (ss_dep (qs_store s)) b \<and> (\<forall>g \<in> set (b_mods b). same_key key g))
         | RevertReq p _ _ # _ \<Rightarrow> bp_number p < BLOCK_NUMBER_MAX
         | _ \<Rightarrow> True))"

definition fit_step :: "('e, 'r) queue_env \<Rightarrow> entity_key \<Rightarrow> 'e queue_sys \<Rightarrow> 'e queue_sys \<Rightarrow> bool" where
  "fit_step env key s s' \<longleftrightarrow> exec_fits env key s \<and> (\<exists>e. sys_step env s e s')"

definition fit_writer_step :: "('e, 'r) queue_env \<Rightarrow> entity_key \<Rightarrow> 'e queue_sys \<Rightarrow> 'e queue_sys \<Rightarrow> bool" where
  "fit_writer_step env key s s' \<longleftrightarrow> exec_fits env key s \<and> (\<exists>e. writer_step env s e s')"

fun req_ops :: "'e request \<Rightarrow> 'e write_batch store_op list" where
  "req_ops (WriteReq _ qb _) = (case qb_deref qb of Ok b \<Rightarrow> [VWrite b] | _ \<Rightarrow> [])"
| "req_ops (RevertReq p _ _) = [VRevert (bp_number p)]"
| "req_ops StopReq = []"

abbreviation ops_of :: "'e request list \<Rightarrow> 'e write_batch store_op list" where
  "ops_of rs \<equiv> concat (map req_ops rs)"

abbreviation env_run :: "('e, 'r) queue_env \<Rightarrow> entity_key \<Rightarrow> 'e sync_store \<Rightarrow> 'e write_batch store_op list \<Rightarrow> 'e sync_store \<Rightarrow> bool" where
  "env_run env key s ops s' \<equiv>
     store_run (dep_writes (qe_flags env) (qe_memo env) (sy_dep (qe_sync env)) key) (dep_reverts (sy_dep (qe_sync env))) (ss_dep s) ops (ss_dep s')"

text \<open>A state in which the writer has met no error\<close>

definition no_error :: "'e queue_sys \<Rightarrow> bool" where
  "no_error s \<longleftrightarrow> \<not> wq_poisoned (qs_queue s) \<and> (\<forall>res. qs_writer s = WExecuted res \<longrightarrow> is_ok res)"

lemma store_run_one:
  "writes s b s' \<Longrightarrow> store_run writes reverts s [VWrite b] s'" "reverts s r s' \<Longrightarrow> store_run writes reverts s [VRevert r] s'"
  using store_write [of writes reverts s "[]" s b s'] store_revert [of writes reverts s "[]" s r s'] store_refl [of writes reverts s] by simp_all

lemma ops_process: "req_ops (start_process r) = req_ops r"
  by (cases r) simp_all

lemma ops_execute: "req_ops (fst (execute env r s cs)) = req_ops r"
proof (cases r)
  case (WriteReq t qb pr)
  then show ?thesis by (cases qb) simp_all
qed simp_all

lemma execute_run:
  assumes ex: "execute env r (qs_store s) cs = (r', st, Some (Ok x))" and front: "requests s = r # rs"
    and fits: "exec_fits env key s" "qs_writer s = WExecuting"
  shows "env_run env key (qs_store s) (req_ops r) st"
proof (cases r)
  case (WriteReq t qb pr)
  then obtain b where b: "qb_deref qb = Ok b" "b_error b = None" "sync_transact (qe_sync env) b (qs_store s) (fst cs) = (st, Some (Ok ()))"
    using ex by (cases qb) (auto simp: and_then_eff_Ok split: option.splits)
  from sync_transact_Ok [OF b(3)] fits front WriteReq b(1)
  have "dep_writes (qe_flags env) (qe_memo env) (sy_dep (qe_sync env)) key (ss_dep (qs_store s)) b (ss_dep st)"
    by (auto simp: dep_writes_def exec_fits_def)
  with WriteReq b(1) show ?thesis by (simp add: store_run_one)
next
  case (RevertReq p c pr)
  then have "sync_revert (qe_sync env) p c (qs_store s) (snd cs) = (st, Some (Ok ()))"
    using ex by (auto simp: and_then_eff_Ok)
  from sync_revert_Ok [OF this] fits front RevertReq
  have "dep_reverts (sy_dep (qe_sync env)) (ss_dep (qs_store s)) (bp_number p) (ss_dep st)"
    by (auto simp: dep_reverts_def exec_fits_def)
  with RevertReq show ?thesis by (simp add: store_run_one)
next
  case StopReq
  with ex show ?thesis by (simp add: store_refl)
qed

lemma no_error_back:
  assumes "writer_step env s e s'" "sys_inv s" "no_error s'"
  shows "no_error s"
  using assms
proof (cases rule: writer_step.cases)
  case (w_finish res)
  have "bq_inv (wq_queue (qs_queue s))" using assms(2) by (simp add: sys_inv_def queue_ok_def)
  then have "\<not> no_error (writer_fail s e)" for e using writer_fail_eq [of s e] by (auto simp: no_error_def)
  then have "is_ok res" using w_finish(3) assms(3) by (cases "(s, res)" rule: writer_finish.cases) auto
  with w_finish assms(2) show ?thesis by (auto simp: no_error_def sys_inv_def)
qed (auto simp: no_error_def sys_inv_def)

lemma fit_writer_ops:
  assumes "fit_writer_step env key s s'" "sys_inv s" "no_error s'"
  shows "\<exists>ops. ops_of (pending s) = ops @ ops_of (pending s') \<and> env_run env key (qs_store s) ops (qs_store s')"
proof -
  from assms(1) obtain e where fits: "exec_fits env key s" and "writer_step env s e s'" by (auto simp: fit_writer_step_def)
  have bi: "bq_inv (wq_queue (qs_queue s))" using assms(2) by (simp add: sys_inv_def queue_ok_def)
  have same: ?thesis if "ops_of (pending s') = ops_of (pending s)" "qs_store s' = qs_store s"
    using that store_refl by (intro exI [of _ "[]"]) simp
  from \<open>writer_step env s e s'\<close> show ?thesis
  proof (cases rule: writer_step.cases)
    case (w_ready now)
    then show ?thesis by (intro same) (simp_all add: pending_def)
  next
    case w_take
    from w_take(3) bi obtain r rs b where "requests s = r # rs" "bq_queue b = start_process r # rs"
      "s' = s\<lparr>qs_queue := (qs_queue s)\<lparr>wq_queue := b\<rparr>, qs_writer := WExecuting\<rparr>" by (rule writer_take_Some)
    then show ?thesis using w_take(2) by (intro same) (simp_all add: pending_def ops_process)
  next
    case (w_execute cs)
    from w_execute(2) obtain r rs r' st res where r: "requests s = r # rs" "execute env r (qs_store s) cs = (r', st, Some res)"
      "s' = s\<lparr>qs_queue := (qs_queue s)\<lparr>wq_queue := (wq_queue (qs_queue s))\<lparr>bq_queue := r' # rs\<rparr>\<rparr>, qs_store := st, qs_writer := WExecuted res\<rparr>"
      by (rule writer_execute_Some)
    then obtain x where x: "res = Ok x" using assms(3) by (auto simp: no_error_def is_ok_iff)
    note run = execute_run [OF r(2) [unfolded x] r(1) fits w_execute(1)]
    show ?thesis
    proof (cases x)
      case Continue
      then show ?thesis using run r x w_execute(1) by (intro exI [of _ "req_ops r"]) (simp add: pending_def)
    next
      case Stop
      then have "r' = StopReq" using stop_result [of env r "qs_store s" cs r' st] r(2) x by simp
      moreover have "req_ops r = req_ops r'" using ops_execute [of env r "qs_store s" cs] r(2) by simp
      ultimately show ?thesis using run r x w_execute(1) Stop by (intro exI [of _ "[]"]) (simp add: pending_def)
    qed
  next
    case (w_finish res)
    have pop: ?thesis if "writer_pop s pc = Some s'" "res = Ok Continue \<and> pc = WWaiting \<or> res = Ok Stop \<and> pc = WFinished" for pc
      using that(1) bi
    proof (rule writer_pop_Some)
      fix r b
      assume "requests s = r # bq_queue b" "s' = s\<lparr>qs_queue := (qs_queue s)\<lparr>wq_queue := b\<rparr>, qs_writer := pc\<rparr>"
      then show ?thesis using w_finish(2) that(2) assms(2) by (intro same) (auto simp: pending_def sys_inv_def)
    qed
    have "\<not> no_error (writer_fail s e)" for e using writer_fail_eq [OF bi, of e] by (auto simp: no_error_def)
    then show ?thesis using w_finish(3) pop assms(3) by (cases "(s, res)" rule: writer_finish.cases) auto
  qed
qed

lemma fit_writer_run_inv: "(fit_writer_step env key)\<^sup>*\<^sup>* s s' \<Longrightarrow> sys_inv s \<Longrightarrow> sys_inv s'"
  by (induction rule: rtranclp_induct) (auto simp: fit_writer_step_def dest: writer_step_inv)

lemma fit_writer_run:
  assumes "(fit_writer_step env key)\<^sup>*\<^sup>* s s'" "sys_inv s" "no_error s'"
  shows "sys_inv s' \<and> no_error s \<and> (\<exists>ops. ops_of (pending s) = ops @ ops_of (pending s') \<and> env_run env key (qs_store s) ops (qs_store s'))"
  using assms
proof (induction rule: converse_rtranclp_induct)
  case base
  then show ?case using store_refl by (auto intro!: exI [of _ "[]"])
next
  case (step s t)
  then have t: "sys_inv t" "exec_fits env key s" using writer_step_inv by (auto simp: fit_writer_step_def)
  with step obtain ops where ops: "ops_of (pending t) = ops @ ops_of (pending s')" "env_run env key (qs_store t) ops (qs_store s')"
    "no_error t" "sys_inv s'" by auto
  obtain ops1 where "ops_of (pending s) = ops1 @ ops_of (pending t)" "env_run env key (qs_store s) ops1 (qs_store t)"
    using fit_writer_ops [OF step(1,4) ops(3)] by blast
  moreover have "no_error s" using no_error_back step(1,4) ops(3) by (auto simp: fit_writer_step_def)
  ultimately show ?case using ops store_run_trans [OF ops(2)] by (intro conjI exI [of _ "ops1 @ ops"]) auto
qed

lemma client_push_frame:
  "qs_store (client_push s req) = qs_store s \<and> qs_writer (client_push s req) = qs_writer s \<and>
     wq_poisoned (qs_queue (client_push s req)) = wq_poisoned (qs_queue s) \<and> requests (client_push s req) = requests s"
proof -
  obtain q r where q: "push_start (qs_queue s) req = (q, r)" by fastforce
  from push_start_props [OF q] q show ?thesis by (cases r) (auto simp: client_push_def)
qed

text \<open>What the client does concerns neither the store nor the request that the writer has executed.\<close>

lemma client_step_frame:
  assumes "client_step env s e s'" "sys_inv s"
  shows "qs_store s' = qs_store s \<and> qs_writer s' = qs_writer s \<and> wq_poisoned (qs_queue s') = wq_poisoned (qs_queue s) \<and>
    (requests s \<noteq> [] \<and> req_done (hd (requests s)) \<longrightarrow> requests s' \<noteq> [] \<and> hd (requests s') = hd (requests s))"
proof -
  have append: "wq_poisoned q = wq_poisoned (qs_queue s) \<and>
      (requests s \<noteq> [] \<and> req_done (hd (requests s)) \<longrightarrow> bq_queue (wq_queue q) \<noteq> [] \<and> hd (bq_queue (wq_queue q)) = hd (requests s))"
    if "push_write_batch env now locked (qs_queue s) b = (q, r)" for now locked b q r
    using that assms(2)
  proof (cases rule: push_write_batch_cases)
    case (2 pre t b0 b1 res)
    then show ?thesis by (cases pre) auto
  qed simp
  note push = client_push_frame
  from assms(1) show ?thesis
  proof (cases rule: client_step.cases)
    case (c_push_end req q)
    then show ?thesis by (auto simp: push_end_def bq_push_def split: if_splits)
  next
    case (c_flush q r)
    then show ?thesis using check_err_props [of "qs_queue s"] by (auto simp: flush_start_def stop_batching_def split: prod.splits outcome.splits)
  next
    case (c_flush_end batching q r)
    then show ?thesis
      using check_err_props [of "(qs_queue s)\<lparr>wq_batch_writes := batching\<rparr>"] by (auto simp: flush_end_def split: option.splits prod.splits)
  next
    case (c_append now locked b q)
    then show ?thesis using append [OF c_append(4)] by simp
  next
    case (c_append_fails now locked b q r)
    then show ?thesis using append [OF c_append_fails(4)] by simp
  next
    case (c_write now locked b q)
    then show ?thesis using append [OF c_write(4)] push [of "s\<lparr>qs_queue := q\<rparr>" "request_write now b"] by simp
  next
    case (c_stop)
    then show ?thesis using push [of "s\<lparr>qs_queue := stop_batching (qs_queue s)\<rparr>" StopReq] by (simp add: stop_batching_def)
  next
    case (c_batching q)
    then show ?thesis by (auto simp: stop_batching_def start_batching_def)
  next
    case (c_revert p cursor)
    then show ?thesis using push [of s "request_revert p cursor"] by simp
  qed
qed

text \<open>The deployment before the request that the writer has executed but not removed from the queue\<close>

definition base_ok :: "('e, 'r) queue_env \<Rightarrow> entity_type set \<Rightarrow> entity_key \<Rightarrow> 'e queue_sys \<Rightarrow> bool" where
  "base_ok env aggs key s \<longleftrightarrow>
     (\<exists>st. dep_reads_inv (qe_flags env) (sy_dep (qe_sync env)) aggs key (ss_dep st) \<and>
        env_run env key st (if qs_writer s = WExecuted (Ok Continue) then req_ops (hd (requests s)) else []) (qs_store s))"

lemma base_ok_inv: "base_ok env aggs key s \<Longrightarrow> dep_reads_inv (qe_flags env) (sy_dep (qe_sync env)) aggs key (ss_dep (qs_store s))"
  using dep_reads.run_inv by (fastforce simp: base_ok_def)

lemma base_okI:
  assumes "dep_reads_inv (qe_flags env) (sy_dep (qe_sync env)) aggs key (ss_dep (qs_store s))" "qs_writer s \<noteq> WExecuted (Ok Continue)"
  shows "base_ok env aggs key s"
  using assms store_refl by (fastforce simp: base_ok_def)

lemma fit_step_base:
  assumes "fit_step env key s s'" "sys_inv s" "no_error s \<longrightarrow> base_ok env aggs key s" "no_error s'"
  shows "base_ok env aggs key s'"
proof -
  from assms(1) obtain e where fits: "exec_fits env key s" and st: "sys_step env s e s'" by (auto simp: fit_step_def)
  from st show ?thesis unfolding sys_step_def
  proof
    assume c: "client_step env s e s'"
    note f = client_step_frame [OF c assms(2)]
    then have "no_error s" using assms(4) by (simp add: no_error_def)
    with assms(2,3) f show ?thesis by (auto simp: base_ok_def sys_inv_def)
  next
    assume w: "writer_step env s e s'"
    have b: "base_ok env aggs key s" using assms(2-4) no_error_back [OF w] by blast
    have "fit_writer_step env key s s'" using fits w by (auto simp: fit_writer_step_def)
    from fit_writer_ops [OF this assms(2,4)] obtain ops where "env_run env key (qs_store s) ops (qs_store s')" by blast
    from dep_reads.run_inv [OF this base_ok_inv [OF b]] have i: "dep_reads_inv (qe_flags env) (sy_dep (qe_sync env)) aggs key (ss_dep (qs_store s'))" .
    show ?thesis
    proof (cases "qs_writer s' = WExecuted (Ok Continue)")
      case True
      with w obtain cs where cs: "qs_writer s = WExecuting" "writer_execute env cs s = Some s'"
        by (cases rule: writer_step.cases) (auto simp: writer_take_def writer_pop_def writer_fail_def elim!: writer_finish.elims split: option.splits outcome.splits)
      from cs(2) obtain r rs r' st res where r: "requests s = r # rs" "execute env r (qs_store s) cs = (r', st, Some res)"
        "s' = s\<lparr>qs_queue := (qs_queue s)\<lparr>wq_queue := (wq_queue (qs_queue s))\<lparr>bq_queue := r' # rs\<rparr>\<rparr>, qs_store := st, qs_writer := WExecuted res\<rparr>"
        by (rule writer_execute_Some)
      have "env_run env key (qs_store s) (req_ops r') st"
        using execute_run [OF _ r(1) fits cs(1)] r True ops_execute [of env r "qs_store s" cs] by simp
      then show ?thesis using base_ok_inv [OF b] r True by (auto simp: base_ok_def)
    qed (rule base_okI [OF i])
  qed
qed

lemma fit_run_base:
  assumes "(fit_step env key)\<^sup>*\<^sup>* (sys_new c st) s" "dep_reads_inv (qe_flags env) (sy_dep (qe_sync env)) aggs key (ss_dep st)"
  shows "sys_inv s \<and> (no_error s \<longrightarrow> base_ok env aggs key s)"
  using assms(1)
proof (induction rule: rtranclp_induct)
  case base
  show ?case using sys_inv_new base_okI [of env aggs key "sys_new c st"] assms(2) by (simp add: sys_new_def)
next
  case (step s s')
  then have "sys_inv s'" by (auto simp: fit_step_def sys_step_def dest: writer_step_inv client_step_inv)
  with step fit_step_base show ?case by blast
qed

end
