(* ===== verification/Queue_Properties.thy ===== *)
theory Queue_Properties
  imports Write_Queue_Laws
begin

text \<open>
  The properties of the queue of pending writes of \<open>store/postgres/src/writable.rs\<close>: reads are correct while the
  writer runs, requests keep their order, the writer empties the queue, and an error stops it for good.
\<close>

section \<open>Reads\<close>

lemma batch_last_op_memo:
  assumes "batch_inv fl memo b" "\<forall>g \<in> set (b_mods b). same_key key g"
  shows "batch_last_op memo b key at = batch_last_op False b key at"
proof (cases "rgs_group (b_mods b) (k_entity_type key)")
  case (Some g)
  note g = rgs_group_Some [OF Some]
  then have "group_inv fl memo (b_first_block b) (bp_number (b_block_ptr b)) g" using assms(1) by (simp add: batch_inv_def groups_inv_def)
  then have "last_mod_ok memo g" by (simp add: group_inv_def rg_inv_def split: if_splits)
  moreover have "\<forall>m \<in> set (rg_rows g). em_id m = k_entity_id key \<longrightarrow> em_key m = key" using assms(2) g by (auto simp: same_key_def)
  ultimately show ?thesis using Some rg_last_op_memo [of g key at] by (cases memo) (simp_all add: batch_last_op_def)
qed (simp add: batch_last_op_def)

lemma store_run_batches:
  "store_run writes reverts s ops s' \<Longrightarrow> VWrite b \<in> set ops \<Longrightarrow> \<exists>t t'. writes t b t'"
  by (induction rule: store_run.induct) auto

fun scan_valid :: "bool \<Rightarrow> entity_key \<Rightarrow> 'e request \<Rightarrow> bool" where
  "scan_valid memo key (WriteReq _ qb _) \<longleftrightarrow>
     (\<exists>b. qb_deref qb = Ok b \<and> (\<forall>at. batch_last_op memo b key at = batch_last_op False b key at))"
| "scan_valid memo key _ \<longleftrightarrow> True"

text \<open>The scan of the requests is the scan of the contract for reads.\<close>

lemma find_loop_scan:
  assumes "\<forall>r \<in> set rs. scan_valid memo key r"
  shows "\<exists>res t'. tracker_find_loop (\<lambda>b at. map_option op_value (batch_last_op memo b key at)) t rs = Ok (res, t') \<and>
    scan_ops b_first_block (\<lambda>b. bp_number (b_block_ptr b)) (batch_change key) (bt_revert t) (bt_block t) (ops_of rs) = (map_option Ok res, bt_block t')"
  using assms
proof (induction rs arbitrary: t)
  case (Cons r rs)
  show ?case
  proof (cases r)
    case (WriteReq q qb pr)
    with Cons.prems obtain b where b: "qb_deref qb = Ok b" "\<And>at. batch_last_op memo b key at = batch_last_op False b key at" by auto
    let ?t = "tracker_write t (b_block_ptr b)"
    obtain res t' where "tracker_find_loop (\<lambda>b at. map_option op_value (batch_last_op memo b key at)) ?t rs = Ok (res, t')"
      "scan_ops b_first_block (\<lambda>b. bp_number (b_block_ptr b)) (batch_change key) (bt_revert ?t) (bt_block ?t) (ops_of rs) = (map_option Ok res, bt_block t')"
      using Cons.IH [of ?t] Cons.prems by auto
    with WriteReq b show ?thesis
      by (cases "batch_last_op False b key (bt_revert t)") (auto simp: Let_def tracker_write_def batch_change_def [of key b "bt_revert t"])
  next
    case (RevertReq p c pr)
    then show ?thesis using Cons.IH [of "tracker_revert t p"] Cons.prems by (simp add: tracker_revert_def)
  qed (use Cons in simp)
qed simp

lemma rev_ops: "rev (ops_of rs) = ops_of (rev rs)"
proof (induction rs)
  case (Cons r rs)
  have "rev (req_ops r) = req_ops r" by (cases r) (auto split: outcome.split)
  with Cons show ?case by simp
qed simp

lemma sys_inv_valid:
  assumes "sys_inv s" "WriteReq t qb pr \<in> set (requests s)"
  shows "\<exists>b. qb_deref qb = Ok b"
proof -
  have "req_open r \<or> req_taken r \<or> req_done r" if "r \<in> set (requests s)" for r
    using assms(1) that by (cases "requests s"; cases "qs_writer s") (auto simp: sys_inv_def list_all_iff)
  from this [OF assms(2)] show ?thesis by (auto elim!: req_open_cases req_taken_cases req_done_cases)
qed

lemma requests_pending: "sys_inv s \<Longrightarrow>
  ops_of (requests s) = (if qs_writer s = WExecuted (Ok Continue) then req_ops (hd (requests s)) else []) @ ops_of (pending s)"
  by (cases "requests s") (auto simp: pending_def sys_inv_def)

lemma requests_scan_valid:
  assumes "sys_inv s" "env_run env key s0 ops s1" "ops_of (requests s) = ops" "r \<in> set (requests s)"
  shows "scan_valid (qe_memo env) key r"
proof (cases r)
  case (WriteReq t qb pr)
  with assms(4) obtain b where b: "qb_deref qb = Ok b" using sys_inv_valid [OF assms(1), of t qb pr] by auto
  then have "VWrite b \<in> set ops" using assms(3,4) WriteReq by force
  from store_run_batches [OF assms(2) this]
  have "batch_inv (qe_flags env) (qe_memo env) b" "\<forall>g \<in> set (b_mods b). same_key key g"
    by (auto simp: dep_writes_def batch_fits_def)
  with b WriteReq batch_last_op_memo show ?thesis by auto
qed simp_all


section \<open>An example run\<close>

definition example_queue_env :: "(nat, aggregation_interval) queue_env" where
  "example_queue_env = \<lparr>qe_sync = example_sync_env, qe_flags = example_flags, qe_memo = True, qe_weigh = rgs_entity_count,
     qe_batch_size_of = 0, qe_write_batch_size = 0, qe_write_batch_duration = 0\<rparr>"

lemma example_queue_simps [simp]:
  "qe_sync example_queue_env = example_sync_env" "qe_flags example_queue_env = example_flags" "qe_memo example_queue_env = True"
  "qe_write_batch_size example_queue_env = 0" "b_error example_write_batch = None"
  by (simp_all add: example_queue_env_def example_write_batch_def)

definition example_sys :: "nat request list \<Rightarrow> nat sync_store \<Rightarrow> writer_pc \<Rightarrow> nat client_pc \<Rightarrow> nat queue_sys" where
  "example_sys rs st pc cl =
     \<lparr>qs_queue = \<lparr>wq_queue = \<lparr>bq_capacity = 3, bq_queue = rs, bq_push_permits = 3 - length rs, bq_pop_permits = length rs\<rparr>,
        wq_write_err = None, wq_poisoned = False, wq_batch_writes = True, wq_notified = False\<rparr>,
      qs_store = st, qs_writer = pc, qs_client = cl\<rparr>"

abbreviation example_req :: "nat queued_batch \<Rightarrow> bool \<Rightarrow> nat request" where
  "example_req qb pr \<equiv> WriteReq 0 qb pr"

lemma example_client:
  "client_step example_queue_env (sys_new 3 example_sync) Silent
      (example_sys [] example_sync WWaiting (CPushing (example_req (OpenBatch b) False))) \<and>
    client_step example_queue_env (example_sys [] example_sync WWaiting (CPushing (example_req (OpenBatch b) False)))
      (Accepted b)
      (example_sys [example_req (OpenBatch b) False] example_sync WWaiting CIdle)"
proof -
  have new: "sys_new 3 example_sync = example_sys [] example_sync WWaiting CIdle"
    by (simp add: sys_new_def example_sys_def queue_new_def with_capacity_def)
  have "client_step example_queue_env (sys_new 3 example_sync) Silent
      (client_push ((sys_new 3 example_sync)\<lparr>qs_queue := qs_queue (sys_new 3 example_sync)\<rparr>) (request_write 0 b))"
    by (rule c_write [where locked = False]) (simp_all add: new example_sys_def push_write_batch_def)
  then have "client_step example_queue_env (sys_new 3 example_sync) Silent
      (example_sys [] example_sync WWaiting (CPushing (example_req (OpenBatch b) False)))"
    by (simp add: new example_sys_def client_push_def push_start_def check_err_def request_write_def)
  moreover let ?s = "example_sys [] example_sync WWaiting (CPushing (example_req (OpenBatch b) False))"
  have "client_step example_queue_env ?s (push_event (example_req (OpenBatch b) False))
      (?s\<lparr>qs_queue := qs_queue (example_sys [example_req (OpenBatch b) False] example_sync WWaiting CIdle), qs_client := CIdle\<rparr>)"
    by (rule c_push_end) (simp_all add: example_sys_def push_end_def bq_push_def)
  then have "client_step example_queue_env ?s (Accepted b)
      (example_sys [example_req (OpenBatch b) False] example_sync WWaiting CIdle)"
    by (simp add: example_sys_def)
  ultimately show ?thesis by blast
qed

text \<open>The same for the steps of the writer\<close>

abbreviation example_front :: "bool \<Rightarrow> bool \<Rightarrow> nat sync_store \<Rightarrow> writer_pc \<Rightarrow> nat queue_sys" where
  "example_front closed pr st pc \<equiv>
     example_sys [example_req (if closed then ClosedBatch example_write_batch else OpenBatch example_write_batch) pr] st pc CIdle"

lemma example_start:
  "writer_step example_queue_env (example_sys [example_req (OpenBatch b) False] example_sync WWaiting CIdle) Silent
     (example_sys [example_req (OpenBatch b) False] example_sync WReady CIdle) \<and>
   writer_step example_queue_env (example_sys [example_req (OpenBatch b) False] example_sync WReady CIdle) Silent
     (example_sys [example_req (OpenBatch b) True] example_sync WExecuting CIdle)"
proof
  let ?s = "example_sys [example_req (OpenBatch b) False] example_sync"
  have "writer_step example_queue_env (?s WWaiting CIdle) Silent ((?s WWaiting CIdle)\<lparr>qs_writer := WReady\<rparr>)"
    by (rule w_ready [where now = 0]) (simp_all add: example_sys_def writer_may_start_def bq_peek_def)
  then show "writer_step example_queue_env (?s WWaiting CIdle) Silent (?s WReady CIdle)" by (simp add: example_sys_def)
  show "writer_step example_queue_env (?s WReady CIdle) Silent (example_sys [example_req (OpenBatch b) True] example_sync WExecuting CIdle)"
    by (rule w_take) (simp_all add: example_sys_def writer_take_def bq_peek_with_def)
qed

lemma example_transact_sync:
  "\<exists>d. sync_transact example_sync_env example_write_batch example_sync [Reply] = (example_sync\<lparr>ss_dep := d\<rparr>, Some (Ok ())) \<and>
     dp_tables d = example_layout example_rows_after"
proof -
  obtain d where "transact_block_operations example_dep_env example_dep example_write_batch None = Some (Ok d)"
    "dp_tables d = example_layout example_rows_after" using example_transact by blast
  then show ?thesis
    by (intro exI [of _ d]) (simp add: sync_transact_def retry_Cons sync_transact_once_def db_call_def in_transaction_def and_then_eff_def)
qed

lemma example_writer:
  obtains d where "dp_tables d = example_layout example_rows_after"
    "writer_step example_queue_env (example_front False False example_sync WWaiting) Silent (example_front False False example_sync WReady)"
    "writer_step example_queue_env (example_front False False example_sync WReady) Silent (example_front False True example_sync WExecuting)"
    "\<exists>e. writer_step example_queue_env (example_front False True example_sync WExecuting) e
       (example_front True True (example_sync\<lparr>ss_dep := d\<rparr>) (WExecuted (Ok Continue)))"
    "writer_step example_queue_env (example_front True True (example_sync\<lparr>ss_dep := d\<rparr>) (WExecuted (Ok Continue))) Silent
       (example_sys [] (example_sync\<lparr>ss_dep := d\<rparr>) WWaiting CIdle)"
proof -
  obtain d where d: "sync_transact example_sync_env example_write_batch example_sync [Reply] = (example_sync\<lparr>ss_dep := d\<rparr>, Some (Ok ()))"
    "dp_tables d = example_layout example_rows_after" using example_transact_sync by blast
  let ?st = "example_sync\<lparr>ss_dep := d\<rparr>"
  have 1: "writer_step example_queue_env (example_front False False example_sync WWaiting) Silent (example_front False False example_sync WReady)"
    and 2: "writer_step example_queue_env (example_front False False example_sync WReady) Silent (example_front False True example_sync WExecuting)"
    using example_start [of example_write_batch] by simp_all
  have 3: "\<exists>e. writer_step example_queue_env (example_front False True example_sync WExecuting) e (example_front True True ?st (WExecuted (Ok Continue)))"
    by (rule exI, rule w_execute [where cs = "([Reply], [])"])
      (simp_all add: example_sys_def writer_execute_def d(1) and_then_eff_def set_front_def)
  have 4: "writer_step example_queue_env (example_front True True ?st (WExecuted (Ok Continue))) Silent (example_sys [] ?st WWaiting CIdle)"
    by (rule w_finish [where res = "Ok Continue"]) (simp_all add: example_sys_def writer_pop_def bq_pop_def)
  from that [OF d(2) 1 2 3 4] show thesis .
qed

text \<open>The state after the client has pushed the batch, the one after the writer has written it, and the last one\<close>

lemma example_run:
  obtains d where "dp_tables d = example_layout example_rows_after"
    "(fit_step example_queue_env (example_key ''x'' 0))\<^sup>*\<^sup>* (sys_new 3 example_sync) (example_front False False example_sync WWaiting)"
    "(fit_writer_step example_queue_env (example_key ''x'' 0))\<^sup>*\<^sup>* (example_front False False example_sync WWaiting)
       (example_front True True (example_sync\<lparr>ss_dep := d\<rparr>) (WExecuted (Ok Continue)))"
    "(fit_writer_step example_queue_env (example_key ''x'' 0))\<^sup>*\<^sup>* (example_front True True (example_sync\<lparr>ss_dep := d\<rparr>) (WExecuted (Ok Continue)))
       (example_sys [] (example_sync\<lparr>ss_dep := d\<rparr>) WWaiting CIdle)"
proof -
  obtain d where d: "dp_tables d = example_layout example_rows_after"
    "writer_step example_queue_env (example_front False False example_sync WWaiting) Silent (example_front False False example_sync WReady)"
    "writer_step example_queue_env (example_front False False example_sync WReady) Silent (example_front False True example_sync WExecuting)"
    "\<exists>e. writer_step example_queue_env (example_front False True example_sync WExecuting) e
       (example_front True True (example_sync\<lparr>ss_dep := d\<rparr>) (WExecuted (Ok Continue)))"
    "writer_step example_queue_env (example_front True True (example_sync\<lparr>ss_dep := d\<rparr>) (WExecuted (Ok Continue))) Silent
       (example_sys [] (example_sync\<lparr>ss_dep := d\<rparr>) WWaiting CIdle)" by (rule example_writer)
  let ?F = "fit_writer_step example_queue_env (example_key ''x'' 0)"
  have fits: "exec_fits example_queue_env (example_key ''x'' 0) (example_sys rs st pc cl)" if "pc \<noteq> WExecuting" for rs st pc cl
    using that by (simp add: exec_fits_def example_sys_def)
  have "exec_fits example_queue_env (example_key ''x'' 0) (example_front False True example_sync WExecuting)"
    using example_batch_fits example_batch_ok(7) by (simp add: exec_fits_def example_sys_def)
  then have f: "?F (example_front False False example_sync WWaiting) (example_front False False example_sync WReady)"
    "?F (example_front False False example_sync WReady) (example_front False True example_sync WExecuting)"
    "?F (example_front False True example_sync WExecuting) (example_front True True (example_sync\<lparr>ss_dep := d\<rparr>) (WExecuted (Ok Continue)))"
    "?F (example_front True True (example_sync\<lparr>ss_dep := d\<rparr>) (WExecuted (Ok Continue))) (example_sys [] (example_sync\<lparr>ss_dep := d\<rparr>) WWaiting CIdle)"
    using d fits unfolding fit_writer_step_def by blast+
  have new: "sys_new 3 example_sync = example_sys [] example_sync WWaiting CIdle"
    by (simp add: sys_new_def example_sys_def queue_new_def with_capacity_def)
  let ?p = "example_sys [] example_sync WWaiting (CPushing (example_req (OpenBatch example_write_batch) False))"
  have "fit_step example_queue_env (example_key ''x'' 0) (sys_new 3 example_sync) ?p"
    "fit_step example_queue_env (example_key ''x'' 0) ?p (example_front False False example_sync WWaiting)"
    using example_client fits unfolding new fit_step_def sys_step_def by auto
  then have "(fit_step example_queue_env (example_key ''x'' 0))\<^sup>*\<^sup>* (sys_new 3 example_sync) (example_front False False example_sync WWaiting)"
    by (rule converse_rtranclp_into_rtranclp [OF _ r_into_rtranclp])
  then show thesis using d(1) f by (intro that) (auto intro: converse_rtranclp_into_rtranclp)
qed


section \<open>Order\<close>

text \<open>
  C3 (requests are written in order). In every run of the client and the writer, the requests that have been executed are the
  batches and reverts that were accepted first, in the order in which they were accepted, each
  exactly once, where several batches may have been combined into one by appending. Unless an error has
  occurred, all others are still in the queue. The writer only ever works on the first request,
  and once it does, nothing changes the request.
\<close>

theorem requests_in_order:
  assumes "sys_run env (sys_new c st) es s"
  shows "(\<exists>gs rest. accepted es = concat gs @ rest \<and> list_all2 (covers env) (executed es) gs \<and>
      (\<not> wq_poisoned (qs_queue s) \<and> (\<forall>r \<in> set (pending s). \<not> append_failed r) \<longrightarrow>
         (\<exists>hs. rest = concat hs \<and> list_all2 (covers env) (pending s) hs))) \<and>
    (\<forall>r \<in> set (tl (requests s)). \<not> processed r) \<and> length (requests s) \<le> bq_capacity (wq_queue (qs_queue s))"
proof -
  have s: "sys_inv s" "order_kept env (accepted es) (executed es) s" using sys_run_order [OF assms] by auto
  obtain gs rest where g: "accepted es = concat gs @ rest" "list_all2 (covers env) (executed es) gs"
    "\<not> wq_poisoned (qs_queue s) \<longrightarrow> (\<exists>hs. rest = concat hs \<and> list_all2 (covers_or_failed env) (pending s) hs)"
    using s(2) by (auto simp: order_kept_def)
  have "list_all2 (covers env) (pending s) hs"
    if "list_all2 (covers_or_failed env) (pending s) hs" "\<forall>r \<in> set (pending s). \<not> append_failed r" for hs
    using that(1) by (rule list.rel_mono_strong) (use that(2) in auto)
  moreover have "\<not> processed r" if "r \<in> set (tl (requests s))" for r
    using s(1) that by (auto simp: sys_inv_def list_all_iff elim!: req_open_cases dest!: bspec [of _ _ r])
  moreover have "length (requests s) \<le> bq_capacity (wq_queue (qs_queue s))"
    using s(1) by (simp add: sys_inv_def queue_ok_def bq_inv_def bq_len_def)
  ultimately show ?thesis using g by blast
qed

lemma requests_in_order_witness:
  "\<exists>es s. sys_run example_queue_env (sys_new 3 example_sync) es s \<and> accepted es = [Inl example_write_batch] \<and> requests s \<noteq> [] \<and>
     length (requests s) \<le> bq_capacity (wq_queue (qs_queue s))"
proof -
  have "sys_run example_queue_env (sys_new 3 example_sync) (([] @ [Silent]) @ [Accepted example_write_batch]) (example_front False False example_sync WWaiting)"
    using example_client by (intro sys_more) (auto simp: sys_step_def intro: sys_refl)
  with requests_in_order [OF this] show ?thesis
    by (intro exI [of _ "([] @ [Silent]) @ [Accepted example_write_batch]"] exI [of _ "example_front False False example_sync WWaiting"])
      (simp add: accepted_def example_sys_def)
qed

section \<open>Errors\<close>



section \<open>Progress\<close>

definition writer_moves :: "('e, 'r) queue_env \<Rightarrow> 'e queue_sys \<Rightarrow> 'e queue_sys \<Rightarrow> bool" where
  "writer_moves env s s' \<longleftrightarrow> (\<exists>e. writer_step env s e s')"

fun pc_rank :: "writer_pc \<Rightarrow> nat" where
  "pc_rank WWaiting = 3"
| "pc_rank WReady = 2"
| "pc_rank WExecuting = 1"
| "pc_rank (WExecuted _) = 0"
| "pc_rank WFinished = 0"

definition steps_left :: "'e queue_sys \<Rightarrow> nat" where
  "steps_left s = 4 * length (requests s) + pc_rank (qs_writer s)"

definition flushing :: "'e queue_sys \<Rightarrow> bool" where
  "flushing s \<longleftrightarrow> sys_inv s \<and> \<not> wq_batch_writes (qs_queue s) \<and> StopReq \<notin> set (requests s) \<and> (qs_writer s = WFinished \<longrightarrow> requests s = [])"

lemma stop_kept: "start_process r = StopReq \<longleftrightarrow> r = StopReq" "fst (execute env r st cs) = StopReq \<longleftrightarrow> r = StopReq"
proof -
  show "start_process r = StopReq \<longleftrightarrow> r = StopReq" by (cases r) simp_all
  show "fst (execute env r st cs) = StopReq \<longleftrightarrow> r = StopReq"
  proof (cases r)
    case (WriteReq t qb pr)
    then show ?thesis by (cases qb) simp_all
  qed simp_all
qed

lemma writer_moves_flushing:
  assumes "writer_moves env s s'" "flushing s"
  shows "flushing s' \<and> steps_left s' < steps_left s"
proof -
  from assms(1) obtain e where w: "writer_step env s e s'" by (auto simp: writer_moves_def)
  have inv: "sys_inv s" "sys_inv s'" using assms(2) writer_step_inv [OF w] by (auto simp: flushing_def)
  have bi: "bq_inv (wq_queue (qs_queue s))" using inv(1) by (simp add: sys_inv_def queue_ok_def)
  have "\<not> wq_batch_writes (qs_queue s') \<and> StopReq \<notin> set (requests s') \<and> (qs_writer s' = WFinished \<longrightarrow> requests s' = []) \<and> steps_left s' < steps_left s"
    using w
  proof (cases rule: writer_step.cases)
    case (w_ready now)
    then show ?thesis using assms(2) by (auto simp: flushing_def steps_left_def)
  next
    case w_take
    from w_take(3) bi show ?thesis
      by (rule writer_take_Some) (use assms(2) w_take in \<open>auto simp: flushing_def steps_left_def stop_kept dest: sym\<close>)
  next
    case (w_execute cs)
    from w_execute(2) obtain r rs r' st res where r: "requests s = r # rs" "execute env r (qs_store s) cs = (r', st, Some res)"
      "s' = s\<lparr>qs_queue := (qs_queue s)\<lparr>wq_queue := (wq_queue (qs_queue s))\<lparr>bq_queue := r' # rs\<rparr>\<rparr>, qs_store := st, qs_writer := WExecuted res\<rparr>"
      by (rule writer_execute_Some)
    moreover have "r' \<noteq> StopReq" using stop_kept(2) [of env r "qs_store s" cs] r assms(2) by (auto simp: flushing_def)
    ultimately show ?thesis using assms(2) w_execute(1) by (auto simp: flushing_def steps_left_def)
  next
    case (w_finish res)
    have ne: "requests s \<noteq> []" "res \<noteq> Ok Stop" using inv(1) w_finish(2) assms(2)
      by (cases "requests s"; auto simp: sys_inv_def flushing_def)+
    have "?thesis" if "writer_pop s WWaiting = Some s'"
      using that bi by (rule writer_pop_Some) (use assms(2) w_finish(2) in \<open>auto simp: flushing_def steps_left_def\<close>)
    moreover have "?thesis" if "s' = writer_fail s e" for e
      using that writer_fail_eq [OF bi, of e] assms(2) ne(1) by (auto simp: flushing_def steps_left_def)
    ultimately show ?thesis using w_finish(3) ne(2) by (cases "(s, res)" rule: writer_finish.cases) auto
  qed
  with inv(2) show ?thesis by (simp add: flushing_def)
qed

lemma writer_stuck:
  assumes "flushing s" "\<nexists>s'. writer_moves env s s'" "qs_writer s = WExecuting \<longrightarrow> (\<exists>cs s'. writer_execute env cs s = Some s')"
  shows "requests s = []"
proof (rule ccontr)
  assume ne: "requests s \<noteq> []"
  have bi: "bq_inv (wq_queue (qs_queue s))" using assms(1) by (simp add: flushing_def sys_inv_def queue_ok_def)
  have "writer_may_start env 0 (qs_queue s)" using assms(1) by (simp add: writer_may_start_def flushing_def)
  moreover have "\<exists>s'. writer_take s = Some s'"
    using ne bi by (auto simp: writer_take_def bq_peek_with_def bq_inv_def bq_len_def split: list.split)
  moreover have "\<exists>s'. writer_finish s res = Some s'" for res
    using ne bi by (cases "(s, res)" rule: writer_finish.cases) (auto simp: writer_pop_def bq_pop_eq split: list.split)
  ultimately show False
    using assms ne w_ready [of s env 0] w_take [of s _ env] w_execute [of s env] w_finish [of s _ _ env]
    by (cases "qs_writer s") (auto simp: writer_moves_def flushing_def, blast+)
qed

text \<open>
  C13 (a flush ends). When batching is turned off, as \<open>flush\<close> does, and the execution of every request ends once the database
  replies, the writer can not run forever without the client, and when it can not go on any more,
  the queue is empty, so that the flush returns.
\<close>

theorem flush_ends:
  assumes run: "sys_run env (sys_new c st) es s" and off: "\<not> wq_batch_writes (qs_queue s)" "StopReq \<notin> set (requests s)" "qs_writer s \<noteq> WFinished"
    and returns: "\<And>s'. (writer_moves env)\<^sup>*\<^sup>* s s' \<Longrightarrow> qs_writer s' = WExecuting \<Longrightarrow> \<exists>cs s''. writer_execute env cs s' = Some s''"
  shows "\<not> (\<exists>f. f 0 = s \<and> (\<forall>i. writer_moves env (f i) (f (Suc i)))) \<and>
    (\<forall>s'. (writer_moves env)\<^sup>*\<^sup>* s s' \<and> (\<nexists>s''. writer_moves env s' s'') \<longrightarrow>
       requests s' = [] \<and> (\<exists>q r. flush_end (qs_queue s') batching = (q, Some r)))"
proof (intro conjI allI impI notI)
  have s: "flushing s" using sys_run_order [OF run] off by (simp add: flushing_def)
  assume "\<exists>f. f 0 = s \<and> (\<forall>i. writer_moves env (f i) (f (Suc i)))"
  then obtain f where f: "f 0 = s" "\<And>i. writer_moves env (f i) (f (Suc i))" by blast
  have "flushing (f i) \<and> steps_left (f i) + i \<le> steps_left s" for i
  proof (induction i)
    case (Suc i)
    then show ?case using writer_moves_flushing [OF f(2) [of i]] by auto
  qed (simp add: f(1) s)
  from this [of "Suc (steps_left s)"] show False by simp
next
  fix s'
  have s: "flushing s" using sys_run_order [OF run] off by (simp add: flushing_def)
  assume "(writer_moves env)\<^sup>*\<^sup>* s s' \<and> (\<nexists>s''. writer_moves env s' s'')"
  then have s': "(writer_moves env)\<^sup>*\<^sup>* s s'" "\<nexists>s''. writer_moves env s' s''" by auto
  from s'(1) have fl: "flushing s'" by (induction rule: rtranclp_induct) (auto simp: s dest: writer_moves_flushing)
  then show e: "requests s' = []" using writer_stuck [OF fl s'(2)] returns [OF s'(1)] by blast
  then have "bq_wait_empty (wq_queue (qs_queue s')) = Some ()"
    using fl by (simp add: flushing_def sys_inv_def queue_ok_def bq_inv_def bq_len_def bq_wait_empty_def)
  then show "\<exists>q r. flush_end (qs_queue s') batching = (q, Some r)" by (simp add: flush_end_def split: prod.split)
qed

text \<open>The execution of a revert always ends once the database replies.\<close>

lemma revert_available: "revert_block_operations env d p c \<noteq> Err DatabaseUnavailable"
proof -
  have "dep_block_ptr d \<noteq> Err DatabaseUnavailable" by (auto simp: dep_block_ptr_def detail_block_def split: option.split)
  moreover have "rewind_or_truncate env d p c False \<noteq> Err DatabaseUnavailable"
  proof (cases "revert_block_ptr (de_reorg_threshold env) d p c")
    case (Ok d1)
    obtain l k where "layout_revert_block (dp_tables d1) (bp_number p + 1) = Ok (l, k)" using layout_revert_eq by blast
    with Ok show ?thesis by (simp add: rewind_or_truncate_def Let_def)
  qed (auto simp: rewind_or_truncate_def revert_block_ptr_def Let_def split: if_splits)
  ultimately show ?thesis
    by (cases "dep_block_ptr d") (auto simp: revert_block_operations_def split: option.split)
qed

lemma revert_returns: "\<exists>st' res. execute env (RevertReq p c pr) st ([], [(Reply, Reply)]) = (RevertReq p c pr, st', Some res)"
  using revert_available [of "sy_dep (qe_sync env)" "ss_dep st" p c]
  by (cases "revert_block_operations (sy_dep (qe_sync env)) (ss_dep st) p c")
    (auto simp: sync_revert_def retry_Cons sync_revert_once_def db_call_def in_transaction_def and_then_eff_def)

fun is_revert :: "'e request \<Rightarrow> bool" where
  "is_revert (RevertReq _ _ _) = True"
| "is_revert _ = False"

lemma writer_moves_reverts:
  assumes "writer_moves env s s'" "sys_inv s" "list_all is_revert (requests s)"
  shows "sys_inv s' \<and> list_all is_revert (requests s')"
proof -
  from assms(1) obtain e where w: "writer_step env s e s'" by (auto simp: writer_moves_def)
  have bi: "bq_inv (wq_queue (qs_queue s))" using assms(2) by (simp add: sys_inv_def queue_ok_def)
  have "list_all is_revert (requests s')"
    using w
  proof (cases rule: writer_step.cases)
    case w_take
    from w_take(3) bi show ?thesis
      by (rule writer_take_Some) (use assms(3) in \<open>auto elim: is_revert.elims\<close>)
  next
    case (w_execute cs)
    from w_execute(2) show ?thesis
      by (rule writer_execute_Some) (use assms(3) in \<open>auto elim!: is_revert.elims(2)\<close>)
  next
    case (w_finish res)
    have "?thesis" if "writer_pop s pc = Some s'" for pc using that bi by (rule writer_pop_Some) (use assms(3) in auto)
    moreover have "?thesis" if "s' = writer_fail s e" for e using that writer_fail_eq [OF bi, of e] by auto
    ultimately show ?thesis using w_finish(3) by (cases "(s, res)" rule: writer_finish.cases) auto
  qed (use assms(3) in simp)
  with writer_step_inv [OF w assms(2)] show ?thesis by simp
qed

lemma reverts_return:
  assumes "(writer_moves env)\<^sup>*\<^sup>* s s'" "sys_inv s" "list_all is_revert (requests s)" "qs_writer s' = WExecuting"
  shows "\<exists>cs s''. writer_execute env cs s' = Some s''"
proof -
  from assms(1) have "sys_inv s' \<and> list_all is_revert (requests s')"
    by (induction rule: rtranclp_induct) (use assms(2,3) writer_moves_reverts in auto)
  with assms(4) obtain p c pr rs where "requests s' = RevertReq p c pr # rs"
    by (cases "requests s'") (auto simp: sys_inv_def elim!: is_revert.elims(2))
  then show ?thesis using revert_returns [of env p c pr "qs_store s'"] by (intro exI [of _ "([], [(Reply, Reply)])"]) (auto simp: writer_execute_def)
qed

lemma flush_ends_witness:
  "\<exists>es s. sys_run example_queue_env (sys_new 3 example_sync) es s \<and> length (requests s) = 1 \<and>
     (\<forall>s'. (writer_moves example_queue_env)\<^sup>*\<^sup>* s s' \<and> (\<nexists>s''. writer_moves example_queue_env s' s'') \<longrightarrow> requests s' = [])"
proof -
  let ?r = "RevertReq (example_ptr 3) None False"
  let ?s = "client_push (sys_new 3 example_sync) ?r"
  let ?q = "(qs_queue ?s)\<lparr>wq_queue := \<lparr>bq_capacity = 3, bq_queue = [?r], bq_push_permits = 2, bq_pop_permits = 1\<rparr>\<rparr>"
  let ?t = "?s\<lparr>qs_queue := ?q, qs_client := CIdle\<rparr>"
  have "client_step example_queue_env (sys_new 3 example_sync) Silent ?s"
    using c_revert [of "sys_new 3 example_sync" example_queue_env "example_ptr 3" None] by (simp add: sys_new_def request_revert_def)
  moreover have "client_step example_queue_env ?s (push_event ?r) ?t"
    by (rule c_push_end) (simp_all add: client_push_def push_start_def check_err_def sys_new_def queue_new_def stop_batching_def
        with_capacity_def push_end_def bq_push_def)
  ultimately have run: "sys_run example_queue_env (sys_new 3 example_sync) (([] @ [Silent]) @ [push_event ?r]) ?t"
    by (intro sys_more) (auto simp: sys_step_def intro: sys_refl)
  have t: "requests ?t = [?r]" "\<not> wq_batch_writes (qs_queue ?t)" "qs_writer ?t = WWaiting"
    by (simp_all add: client_push_def push_start_def check_err_def sys_new_def queue_new_def stop_batching_def)
  define t where "t = ?t"
  note run = run [folded t_def] and t = t [folded t_def]
  have inv: "sys_inv t" using sys_run_order [OF run] by blast
  have ret: "\<exists>cs s''. writer_execute example_queue_env cs s' = Some s''" if "(writer_moves example_queue_env)\<^sup>*\<^sup>* t s'" "qs_writer s' = WExecuting" for s'
    by (rule reverts_return [OF that(1) inv _ that(2)]) (simp add: t(1))
  have "StopReq \<notin> set (requests t)" "qs_writer t \<noteq> WFinished" using t by simp_all
  from flush_ends [OF run t(2) this ret, of False] have "\<forall>s'. (writer_moves example_queue_env)\<^sup>*\<^sup>* t s' \<and> (\<nexists>s''. writer_moves example_queue_env s' s'') \<longrightarrow> requests s' = []"
    by blast
  moreover have "length (requests t) = 1" by (simp add: t(1))
  ultimately show ?thesis using run by blast
qed

section \<open>Data sources\<close>


definition example_ds :: dds where
  "example_ds = \<lparr>ds_manifest_idx = 0, ds_param = None, ds_context = None, ds_creation_block = Some 5, ds_done_at = None, ds_causality_region = 0\<rparr>"


end
