(* ===== verification/Interner.thy ===== *)
theory Interner
  imports Prelude
begin

text \<open>
  Interned strings, \<open>graph/src/util/intern.rs\<close>: the pool of atoms (\<open>AtomPool\<close>) and the
  map-like \<open>Object\<close> whose keys are atoms of a pool. An \<open>Object\<close> does not erase an entry that
  is removed, it overwrites the key with a tombstone. The lemmas show that, through its
  operations, an \<open>Object\<close> is a finite map from strings to values: the abstraction is
  \<open>obj_get\<close>, the invariant is \<open>obj_wf\<close>, and the contract is the locale \<open>attribute_map\<close>,
  interpreted on the operations of \<open>Object\<close>.
\<close>

section \<open>The pool of interned strings\<close>

text \<open>An \<open>Atom\<close> is a 16-bit integer (\<open>AtomInt = u16\<close>).\<close>

type_synonym atom = "16 word"

datatype intern_error = NotInterned string

text \<open>
  \<open>base\<close> is the parent pool (behind an \<open>Arc\<close> in the code), \<open>base_sym\<close> the first atom of this
  pool, \<open>atoms\<close> the strings of this pool in the order in which they were interned and
  \<open>words\<close> the hash map from the strings of this pool to their atoms.
\<close>

datatype atom_pool =
  AtomPool (pool_base: "atom_pool option") (pool_base_sym: atom) (pool_atoms: "string list")
    (pool_words: "string \<Rightarrow> atom option")

text \<open>\<open>TOMBSTONE_KEY = Atom(AtomInt::MAX)\<close>\<close>

definition TOMBSTONE_KEY :: atom where
  "TOMBSTONE_KEY = 65535"

definition pool_new :: atom_pool where
  "pool_new = AtomPool None 0 [] Map.empty"

definition pool_child :: "atom_pool \<Rightarrow> (atom_pool, intern_error) outcome" where
  "pool_child p =
     (if length (pool_atoms p) < 2 ^ 16
      then Ok (AtomPool (Some p) (word_of_nat (length (pool_atoms p))) [] Map.empty)
      else Panic ''called Result::unwrap() on an Err value'')"

primrec pool_get :: "atom_pool \<Rightarrow> atom \<Rightarrow> string option" where
  "pool_get (AtomPool b bs ats ws) a =
     (if a < bs
      then (case map_option (\<lambda>p. pool_get p a) b of None \<Rightarrow> None | Some r \<Rightarrow> r)
      else if unat (a - bs) < length ats then Some (ats ! unat (a - bs)) else None)"

primrec pool_lookup :: "atom_pool \<Rightarrow> string \<Rightarrow> atom option" where
  "pool_lookup (AtomPool b bs ats ws) w =
     (case map_option (\<lambda>p. pool_lookup p w) b of
        Some (Some a) \<Rightarrow> Some a
      | _ \<Rightarrow> ws w)"

text \<open>\<open>intern\<close> returns the atom of the word and the pool that holds it.\<close>

definition pool_intern :: "atom_pool \<Rightarrow> string \<Rightarrow> (atom \<times> atom_pool, intern_error) outcome" where
  "pool_intern p w =
     (case pool_lookup p w of
        Some a \<Rightarrow> Ok (a, p)
      | None \<Rightarrow>
          let n = unat (pool_base_sym p) + length (pool_atoms p) in
          if 2 ^ 16 \<le> n then Panic ''too many atoms''
          else let a = word_of_nat n in
            if a = TOMBSTONE_KEY then Panic ''too many atoms''
            else Ok (a, AtomPool (pool_base p) (pool_base_sym p) (pool_atoms p @ [w]) ((pool_words p)(w \<mapsto> a))))"

text \<open>\<open>FromIterator\<close> for \<open>AtomPool\<close>: intern every string of the iterator into a new root pool.\<close>

definition pool_from_iter :: "string list \<Rightarrow> (atom_pool, intern_error) outcome" where
  "pool_from_iter ws = try_fold (\<lambda>p w. map_ok snd (pool_intern p w)) pool_new ws"

section \<open>Objects\<close>

text \<open>
  An \<open>Arc<AtomPool>\<close> is the address of the shared allocation and what it holds; two
  objects share their pool when the addresses agree (\<open>Arc::ptr_eq\<close>).
\<close>

datatype 'a arc = Arc (arc_addr: nat) (arc_get: 'a)

record 'v entry =
  e_key :: atom
  e_val :: 'v

record 'v obj =
  obj_pool :: "atom_pool arc"
  obj_entries :: "'v entry list"

definition obj_new :: "atom_pool arc \<Rightarrow> 'v obj" where
  "obj_new pool = \<lparr>obj_pool = pool, obj_entries = []\<rparr>"

definition obj_len :: "'v obj \<Rightarrow> nat" where
  "obj_len ob = length (filter (\<lambda>e. e_key e \<noteq> TOMBSTONE_KEY) (obj_entries ob))"

definition obj_is_empty :: "'v obj \<Rightarrow> bool" where
  "obj_is_empty ob \<longleftrightarrow> obj_len ob = 0"

definition obj_get :: "'v obj \<Rightarrow> string \<Rightarrow> 'v option" where
  "obj_get ob k =
     (case pool_lookup (arc_get (obj_pool ob)) k of
        None \<Rightarrow> None
      | Some a \<Rightarrow> map_option e_val (find (\<lambda>e. e_key e = a) (obj_entries ob)))"

definition obj_get_by_atom :: "'v obj \<Rightarrow> atom \<Rightarrow> 'v option" where
  "obj_get_by_atom ob a =
     (if a = TOMBSTONE_KEY then None
      else map_option e_val (find (\<lambda>e. e_key e = a) (obj_entries ob)))"

text \<open>
  \<open>insert_atom\<close> replaces the value of the first entry with the key, or appends an entry. It
  returns the old value.
\<close>

fun set_first :: "atom \<Rightarrow> 'v \<Rightarrow> 'v entry list \<Rightarrow> 'v entry list" where
  "set_first a v [] = []"
| "set_first a v (e # es) = (if e_key e = a then e\<lparr>e_val := v\<rparr> # es else e # set_first a v es)"

definition obj_insert_atom :: "'v obj \<Rightarrow> atom \<Rightarrow> 'v \<Rightarrow> 'v option \<times> 'v obj" where
  "obj_insert_atom ob a v =
     (if a = TOMBSTONE_KEY then (None, ob)
      else (case find (\<lambda>e. e_key e = a) (obj_entries ob) of
              Some e \<Rightarrow> (Some (e_val e), ob\<lparr>obj_entries := set_first a v (obj_entries ob)\<rparr>)
            | None \<Rightarrow> (None, ob\<lparr>obj_entries := obj_entries ob @ [\<lparr>e_key = a, e_val = v\<rparr>]\<rparr>)))"

definition obj_insert :: "'v obj \<Rightarrow> string \<Rightarrow> 'v \<Rightarrow> ('v option \<times> 'v obj, intern_error) outcome" where
  "obj_insert ob k v =
     (case pool_lookup (arc_get (obj_pool ob)) k of
        None \<Rightarrow> Err (NotInterned k)
      | Some a \<Rightarrow> Ok (obj_insert_atom ob a v))"

definition obj_contains_key :: "'v obj \<Rightarrow> string \<Rightarrow> bool" where
  "obj_contains_key ob k \<longleftrightarrow>
     (\<exists>e \<in> set (obj_entries ob). pool_get (arc_get (obj_pool ob)) (e_key e) = Some k)"

text \<open>
  \<open>ObjectIter\<close> and \<open>ObjectOwningIter\<close> skip the tombstones and turn the other atoms back into
  strings; an atom that is not in the pool is a panic (\<open>unwrap\<close>).
\<close>

fun iter_entries :: "atom_pool \<Rightarrow> 'v entry list \<Rightarrow> ((string \<times> 'v) list, intern_error) outcome" where
  "iter_entries p [] = Ok []"
| "iter_entries p (e # es) =
     (if e_key e = TOMBSTONE_KEY then iter_entries p es
      else (case pool_get p (e_key e) of
              None \<Rightarrow> Panic ''called Option::unwrap() on a None value''
            | Some k \<Rightarrow> map_ok (\<lambda>r. (k, e_val e) # r) (iter_entries p es)))"

definition obj_iter :: "'v obj \<Rightarrow> ((string \<times> 'v) list, intern_error) outcome" where
  "obj_iter ob = iter_entries (arc_get (obj_pool ob)) (obj_entries ob)"

definition same_pool :: "'v obj \<Rightarrow> 'v obj \<Rightarrow> bool" where
  "same_pool a b \<longleftrightarrow> arc_addr (obj_pool a) = arc_addr (obj_pool b)"

definition obj_merge :: "'v obj \<Rightarrow> 'v obj \<Rightarrow> ('v obj, intern_error) outcome" where
  "obj_merge ob other =
     (if same_pool ob other
      then Ok (foldl (\<lambda>o' e. snd (obj_insert_atom o' (e_key e) (e_val e))) ob (obj_entries other))
      else and_then (obj_iter other) (\<lambda>kvs.
             try_fold (\<lambda>o' (k, v).
                (case obj_insert o' k v of
                   Ok r \<Rightarrow> Ok (snd r)
                 | Err e \<Rightarrow> Panic ''pools use the same keys''
                 | Panic s \<Rightarrow> Panic s)) ob kvs))"

fun retain_entries ::
  "atom_pool \<Rightarrow> (string \<Rightarrow> 'v \<Rightarrow> bool) \<Rightarrow> 'v entry list \<Rightarrow> ('v entry list, intern_error) outcome" where
  "retain_entries p f [] = Ok []"
| "retain_entries p f (e # es) =
     (if e_key e = TOMBSTONE_KEY then retain_entries p f es
      else (case pool_get p (e_key e) of
              None \<Rightarrow> Panic ''called Option::unwrap() on a None value''
            | Some k \<Rightarrow>
                (if f k (e_val e) then map_ok (\<lambda>r. e # r) (retain_entries p f es)
                 else retain_entries p f es)))"

definition obj_retain ::
  "'v obj \<Rightarrow> (string \<Rightarrow> 'v \<Rightarrow> bool) \<Rightarrow> ('v obj, intern_error) outcome" where
  "obj_retain ob f =
     map_ok (\<lambda>es. ob\<lparr>obj_entries := es\<rparr>) (retain_entries (arc_get (obj_pool ob)) f (obj_entries ob))"

text \<open>\<open>remove\<close> turns the entry into a tombstone with the null value and returns its value.\<close>

fun bury_first :: "'v \<Rightarrow> atom \<Rightarrow> 'v entry list \<Rightarrow> 'v entry list" where
  "bury_first n a [] = []"
| "bury_first n a (e # es) =
     (if e_key e = a then e\<lparr>e_key := TOMBSTONE_KEY, e_val := n\<rparr> # es else e # bury_first n a es)"

definition obj_remove :: "'v \<Rightarrow> 'v obj \<Rightarrow> string \<Rightarrow> 'v option \<times> 'v obj" where
  "obj_remove n ob k =
     (case pool_lookup (arc_get (obj_pool ob)) k of
        None \<Rightarrow> (None, ob)
      | Some a \<Rightarrow>
          (case find (\<lambda>e. e_key e = a) (obj_entries ob) of
             None \<Rightarrow> (None, ob)
           | Some e \<Rightarrow> (Some (e_val e), ob\<lparr>obj_entries := bury_first n a (obj_entries ob)\<rparr>)))"

definition obj_len_ignore_atom :: "'v obj \<Rightarrow> atom \<Rightarrow> nat" where
  "obj_len_ignore_atom ob a =
     length (filter (\<lambda>e. e_key e \<noteq> TOMBSTONE_KEY \<and> e_key e \<noteq> a) (obj_entries ob))"

text \<open>\<open>PartialEq for Object\<close> and \<open>eq_ignore_key\<close>.\<close>

definition obj_eq :: "'v obj \<Rightarrow> 'v obj \<Rightarrow> (bool, intern_error) outcome" where
  "obj_eq a b =
     (if obj_len a \<noteq> obj_len b then Ok False
      else if same_pool a b
      then Ok (\<forall>e \<in> set (filter (\<lambda>e. e_key e \<noteq> TOMBSTONE_KEY) (obj_entries a)).
                 obj_get_by_atom b (e_key e) = Some (e_val e))
      else map_ok (\<lambda>kvs. \<forall>(k, v) \<in> set kvs. obj_get b k = Some v) (obj_iter a))"

definition obj_eq_ignore_key :: "'v obj \<Rightarrow> 'v obj \<Rightarrow> string \<Rightarrow> (bool, intern_error) outcome" where
  "obj_eq_ignore_key a b ik =
     (let ignore = pool_lookup (arc_get (obj_pool a)) ik;
          len1 = (case ignore of Some i \<Rightarrow> obj_len_ignore_atom a i | None \<Rightarrow> obj_len a);
          len2 = (case pool_lookup (arc_get (obj_pool b)) ik of
                    Some i \<Rightarrow> obj_len_ignore_atom b i | None \<Rightarrow> obj_len b)
      in if len1 \<noteq> len2 then Ok False
         else if same_pool a b
         then Ok (\<forall>e \<in> set (filter (\<lambda>e. e_key e \<noteq> TOMBSTONE_KEY \<and> ignore \<noteq> Some (e_key e)) (obj_entries a)).
                    obj_get_by_atom b (e_key e) = Some (e_val e))
         else map_ok (\<lambda>kvs. \<forall>(k, v) \<in> set (filter (\<lambda>(k, _). k \<noteq> ik) kvs). obj_get b k = Some v)
                (obj_iter a))"

definition obj_atoms :: "'v obj \<Rightarrow> atom list" where
  "obj_atoms ob = map e_key (filter (\<lambda>e. e_key e \<noteq> TOMBSTONE_KEY) (obj_entries ob))"


section \<open>The invariant of a pool\<close>

text \<open>
  \<open>chain_len\<close> counts the strings of a pool and all its ancestors. A pool is well-formed when
  its first atom comes after all atoms of its ancestors, its strings are new and distinct,
  its hash map is the inverse of its list of strings, and no string has the tombstone as its
  atom.
\<close>

primrec chain_len :: "atom_pool \<Rightarrow> nat" where
  "chain_len (AtomPool b bs ats ws) =
     (case map_option chain_len b of None \<Rightarrow> 0 | Some n \<Rightarrow> n) + length ats"

primrec pool_wf :: "atom_pool \<Rightarrow> bool" where
  "pool_wf (AtomPool b bs ats ws) \<longleftrightarrow>
     unat bs + length ats \<le> 65535 \<and> distinct ats \<and>
     (\<forall>w a. ws w = Some a \<longleftrightarrow> (\<exists>i < length ats. ats ! i = w \<and> unat a = unat bs + i)) \<and>
     (case map_option pool_wf b of None \<Rightarrow> True | Some c \<Rightarrow> c) \<and>
     (case b of
        None \<Rightarrow> bs = 0
      | Some p \<Rightarrow> unat bs = chain_len p \<and> (\<forall>w \<in> set ats. pool_lookup p w = None))"

lemma tombstone_unat: "a = TOMBSTONE_KEY \<longleftrightarrow> unat a = 65535" for a :: atom
  by (simp add: TOMBSTONE_KEY_def word_unat_eq_iff)

lemma unat_atom_less: "unat (a :: atom) < 65536"
  using unsigned_less [of a] by simp

lemma unat_of_nat_atom: "n < 65536 \<Longrightarrow> unat (word_of_nat n :: atom) = n"
  by (simp add: unat_of_nat take_bit_nat_eq_self)

lemma pool_get_own:
  "unat a \<ge> unat bs \<Longrightarrow>
     pool_get (AtomPool b bs ats ws) a =
       (if unat a - unat bs < length ats then Some (ats ! (unat a - unat bs)) else None)"
  by (simp add: word_less_nat_alt unat_sub word_le_nat_alt pool_get.simps)

lemma pool_get_base:
  "unat a < unat bs \<Longrightarrow>
     pool_get (AtomPool b bs ats ws) a = Option.bind b (\<lambda>p. pool_get p a)"
  by (cases b) (simp_all add: word_less_nat_alt pool_get.simps)

declare pool_get.simps [simp del]

lemma pool_get_bound: "pool_wf p \<Longrightarrow> pool_get p a = Some w \<Longrightarrow> unat a < chain_len p"
proof (induction p)
  case (AtomPool b bs ats ws)
  show ?case
  proof (cases "unat a < unat bs")
    case True
    with AtomPool.prems obtain p where "b = Some p" "pool_get p a = Some w"
      by (auto simp: pool_get_base bind_eq_Some_conv)
    with AtomPool show ?thesis by fastforce
  next
    case False
    with AtomPool.prems show ?thesis
      by (auto simp: pool_get_own split: if_splits option.splits)
  qed
qed

lemma chain_len_le: "pool_wf p \<Longrightarrow> chain_len p \<le> 65535"
  by (cases p) (auto split: option.splits)

text \<open>In a well-formed pool, \<open>lookup\<close> and \<open>get\<close> are inverse to each other.\<close>

lemma pool_lookup_iff_get: "pool_wf p \<Longrightarrow> pool_lookup p w = Some a \<longleftrightarrow> pool_get p a = Some w"
proof (induction p)
  case (AtomPool b bs ats ws)
  have own: "ws w = Some a \<longleftrightarrow> (\<exists>i < length ats. ats ! i = w \<and> unat a = unat bs + i)"
    using AtomPool.prems by simp
  show ?case
  proof (cases b)
    case None
    then show ?thesis using own AtomPool.prems
      by (auto simp: pool_get_own)
  next
    case (Some p)
    with AtomPool have IH: "pool_lookup p w = Some a \<longleftrightarrow> pool_get p a = Some w"
      and p: "pool_wf p" "unat bs = chain_len p" "\<forall>w \<in> set ats. pool_lookup p w = None"
      by auto
    show ?thesis
    proof (cases "unat a < unat bs")
      case True
      then have "ws w \<noteq> Some a" using own by auto
      with True Some IH show ?thesis
        by (auto simp: pool_get_base split: option.splits)
    next
      case False
      then have "pool_get p a = None"
        using p(1,2) pool_get_bound [of p a] by (cases "pool_get p a") auto
      moreover have "pool_lookup p w = None" if "ws w = Some a"
        using that own p(3) by auto
      ultimately show ?thesis using False Some IH own
        by (auto simp: pool_get_own split: option.splits)
    qed
  qed
qed

lemma pool_lookup_not_tombstone:
  assumes "pool_wf p" "pool_lookup p w = Some a"
  shows "a \<noteq> TOMBSTONE_KEY"
proof -
  have "unat a < chain_len p"
    using assms pool_get_bound pool_lookup_iff_get by blast
  then show ?thesis
    using chain_len_le [OF assms(1)] by (auto simp: tombstone_unat)
qed

lemma pool_get_tombstone: "pool_wf p \<Longrightarrow> pool_get p TOMBSTONE_KEY = None"
  using pool_lookup_iff_get pool_lookup_not_tombstone by (metis option.exhaust)

lemma pool_lookup_inj:
  "pool_wf p \<Longrightarrow> pool_lookup p v = Some a \<Longrightarrow> pool_lookup p w = Some a \<Longrightarrow> v = w"
  using pool_lookup_iff_get by (metis option.inject)

lemma pool_new_wf: "pool_wf pool_new"
  by (simp add: pool_new_def)

text \<open>A child of a root pool continues the numbering of its parent.\<close>

lemma pool_child_wf_iff:
  assumes "pool_wf p" "pool_child p = Ok c"
  shows "pool_wf c \<longleftrightarrow> unat (pool_base_sym p) = 0"
proof -
  obtain b bs ats ws where p: "p = AtomPool b bs ats ws" by (cases p)
  then have "unat (word_of_nat (length ats) :: atom) = length ats"
    using assms(1) by (simp add: unat_of_nat_atom)
  moreover have "chain_len p = unat bs + length ats"
    using assms(1) p by (auto split: option.splits)
  ultimately show ?thesis
    using assms p by (auto simp: pool_child_def split: if_splits)
qed

lemma pool_intern_wf:
  assumes wf: "pool_wf p" and ok: "pool_intern p w = Ok (a, p')"
  shows "pool_wf p' \<and> pool_lookup p' = (pool_lookup p)(w \<mapsto> a)"
proof (cases "pool_lookup p w")
  case (Some b)
  with ok wf show ?thesis by (auto simp: pool_intern_def)
next
  case None
  obtain b bs ats ws where p: "p = AtomPool b bs ats ws" by (cases p)
  define n where "n = unat bs + length ats"
  have ws: "ws v = Some c \<longleftrightarrow> (\<exists>i < length ats. ats ! i = v \<and> unat c = unat bs + i)" for v c
    using wf p by simp
  from ok None p have n: "n < 65536" and a: "a = word_of_nat n" "a \<noteq> TOMBSTONE_KEY"
    and p': "p' = AtomPool b bs (ats @ [w]) (ws(w \<mapsto> a))"
    by (auto simp: pool_intern_def n_def Let_def split: if_splits)
  have un: "unat a = n" using n a(1) by (simp add: unat_of_nat_atom)
  have bound: "n < 65535" using n un a(2) by (auto simp: tombstone_unat)
  have new: "ws w = None" "w \<notin> set ats" "\<forall>q. b = Some q \<longrightarrow> pool_lookup q w = None"
  proof -
    from None p show n1: "ws w = None" and "\<forall>q. b = Some q \<longrightarrow> pool_lookup q w = None"
      by (auto split: option.splits)
    show "w \<notin> set ats"
    proof
      assume "w \<in> set ats"
      then obtain i where i: "i < length ats" "ats ! i = w" by (auto simp: in_set_conv_nth)
      then have "unat (word_of_nat (unat bs + i) :: atom) = unat bs + i"
        using bound n_def i(1) by (intro unat_of_nat_atom) simp
      with ws [of w "word_of_nat (unat bs + i)"] i n1 show False by auto
    qed
  qed
  have "(ws(w \<mapsto> a)) v = Some c \<longleftrightarrow>
      (\<exists>i < length (ats @ [w]). (ats @ [w]) ! i = v \<and> unat c = unat bs + i)" for v c
  proof (cases "v = w")
    case True
    have "c = a \<longleftrightarrow> unat c = n" using un by (simp add: word_unat_eq_iff)
    with True new(2) show ?thesis
      by (auto simp: nth_append n_def less_Suc_eq in_set_conv_nth)
  next
    case False
    then show ?thesis using ws [of v c] by (auto simp: nth_append less_Suc_eq)
  qed
  then have "pool_wf p'"
    using wf p p' new bound n_def by (auto split: option.splits)
  moreover have "pool_lookup p' = (pool_lookup p)(w \<mapsto> a)"
    using p p' new(3) by (auto simp: fun_eq_iff split: option.splits)
  ultimately show ?thesis by simp
qed

section \<open>The invariant of an object and its abstraction to a map\<close>

definition obj_wf :: "'v obj \<Rightarrow> bool" where
  "obj_wf ob \<longleftrightarrow>
     pool_wf (arc_get (obj_pool ob)) \<and>
     distinct (obj_atoms ob) \<and>
     (\<forall>a \<in> set (obj_atoms ob). pool_get (arc_get (obj_pool ob)) a \<noteq> None)"

definition known :: "'v obj \<Rightarrow> string \<Rightarrow> bool" where
  "known ob k \<longleftrightarrow> pool_lookup (arc_get (obj_pool ob)) k \<noteq> None"

text \<open>The value stored for an atom in a list of entries.\<close>

definition at_atom :: "'v entry list \<Rightarrow> atom \<Rightarrow> 'v option" where
  "at_atom es a = map_option e_val (find (\<lambda>e. e_key e = a) es)"

lemma at_atom_None_iff: "at_atom es a = None \<longleftrightarrow> a \<notin> e_key ` set es"
  by (auto simp: at_atom_def find_None_iff)

lemma at_atom_Cons [simp]:
  "at_atom [] a = None"
  "at_atom (e # es) a = (if e_key e = a then Some (e_val e) else at_atom es a)"
  by (simp_all add: at_atom_def)

lemma at_atom_append:
  "at_atom (es @ fs) a = (case at_atom es a of None \<Rightarrow> at_atom fs a | Some v \<Rightarrow> Some v)"
  by (induction es) auto

lemma at_atom_set_first:
  "at_atom (set_first a v es) b = (if b = a \<and> a \<in> e_key ` set es then Some v else at_atom es b)"
  by (induction es) auto

lemma keys_set_first [simp]: "map e_key (set_first a v es) = map e_key es"
  by (induction es) auto

lemma obj_atoms_eq: "obj_atoms ob = filter (\<lambda>a. a \<noteq> TOMBSTONE_KEY) (map e_key (obj_entries ob))"
  by (simp add: obj_atoms_def filter_map o_def)

abbreviation live_keys :: "'v entry list \<Rightarrow> atom list" where
  "live_keys es \<equiv> filter (\<lambda>a. a \<noteq> TOMBSTONE_KEY) (map e_key es)"

lemma bury_first_keys:
  assumes "distinct (live_keys es)" "a \<noteq> TOMBSTONE_KEY"
  shows "live_keys (bury_first n a es) = filter (\<lambda>b. b \<noteq> a) (live_keys es)"
  using assms
proof (induction es)
  case (Cons e es)
  then show ?case
    by (cases "e_key e = a") (auto simp: image_iff intro: filter_cong)
qed simp

lemma at_atom_bury_first:
  assumes "distinct (live_keys es)" "a \<noteq> TOMBSTONE_KEY" "b \<noteq> TOMBSTONE_KEY"
  shows "at_atom (bury_first n a es) b = (if b = a then None else at_atom es b)"
  using assms by (induction es) (auto simp: at_atom_None_iff split: if_splits)

lemma obj_get_at_atom:
  "obj_get ob k = Option.bind (pool_lookup (arc_get (obj_pool ob)) k) (at_atom (obj_entries ob))"
  by (simp add: obj_get_def at_atom_def split: option.split)

lemma obj_get_by_atom_at_atom:
  "obj_get_by_atom ob a = (if a = TOMBSTONE_KEY then None else at_atom (obj_entries ob) a)"
  by (simp add: obj_get_by_atom_def at_atom_def)

lemma obj_wf_keys:
  "obj_wf ob \<longleftrightarrow>
     pool_wf (arc_get (obj_pool ob)) \<and> distinct (live_keys (obj_entries ob)) \<and>
     (\<forall>a \<in> set (live_keys (obj_entries ob)). pool_get (arc_get (obj_pool ob)) a \<noteq> None)"
  by (simp add: obj_wf_def obj_atoms_eq)

lemma obj_wf_pool: "obj_wf ob \<Longrightarrow> pool_wf (arc_get (obj_pool ob))"
  by (simp add: obj_wf_def)

lemma obj_new_wf: "pool_wf (arc_get pool) \<Longrightarrow> obj_wf (obj_new pool)"
  by (simp add: obj_wf_def obj_new_def obj_atoms_def)

lemma obj_pool_new [simp]: "obj_pool (obj_new pool) = pool"
  by (simp add: obj_new_def)

lemma obj_get_new: "obj_get (obj_new pool) = Map.empty"
  by (rule ext) (simp add: obj_get_at_atom obj_new_def bind_eq_None_conv)

lemma obj_insert_atom_eq:
  "obj_insert_atom ob a v =
     (if a = TOMBSTONE_KEY then (None, ob)
      else (at_atom (obj_entries ob) a,
            ob\<lparr>obj_entries :=
              if a \<in> e_key ` set (obj_entries ob) then set_first a v (obj_entries ob)
              else obj_entries ob @ [\<lparr>e_key = a, e_val = v\<rparr>]\<rparr>))"
proof (cases "find (\<lambda>e. e_key e = a) (obj_entries ob)")
  case None
  then have "a \<notin> e_key ` set (obj_entries ob)" by (auto simp: find_None_iff)
  with None show ?thesis by (simp add: obj_insert_atom_def at_atom_def)
next
  case (Some e)
  then have "a \<in> e_key ` set (obj_entries ob)" using find_Some_mem by fastforce
  with Some show ?thesis by (simp add: obj_insert_atom_def at_atom_def)
qed

lemma obj_insert_atom_at:
  assumes "a \<noteq> TOMBSTONE_KEY"
  shows "at_atom (obj_entries (snd (obj_insert_atom ob a v))) = (at_atom (obj_entries ob))(a \<mapsto> v)"
proof (cases "a \<in> e_key ` set (obj_entries ob)")
  case True
  with assms show ?thesis by (auto simp: fun_eq_iff obj_insert_atom_eq at_atom_set_first)
next
  case False
  then have "at_atom (obj_entries ob) a = None" by (simp add: at_atom_None_iff)
  with assms False show ?thesis
    by (auto simp: fun_eq_iff obj_insert_atom_eq at_atom_append split: option.split)
qed

lemma obj_insert_atom_pool [simp]: "obj_pool (snd (obj_insert_atom ob a v)) = obj_pool ob"
  by (simp add: obj_insert_atom_eq)

lemma obj_insert_atom_wf:
  assumes "obj_wf ob" "pool_get (arc_get (obj_pool ob)) a \<noteq> None"
  shows "obj_wf (snd (obj_insert_atom ob a v))"
proof -
  have "a \<notin> set (map e_key (obj_entries ob))" if "a \<notin> e_key ` set (obj_entries ob)"
    using that by simp
  with assms show ?thesis
    by (auto simp: obj_insert_atom_eq obj_wf_keys keys_set_first simp del: set_map)
qed

lemma obj_get_insert_atom:
  assumes "obj_wf ob" "pool_lookup (arc_get (obj_pool ob)) k = Some a"
  shows "obj_get (snd (obj_insert_atom ob a v)) = (obj_get ob)(k \<mapsto> v)"
proof
  fix j
  have "a \<noteq> TOMBSTONE_KEY"
    using assms obj_wf_pool pool_lookup_not_tombstone by blast
  moreover have "j = k" if "pool_lookup (arc_get (obj_pool ob)) j = Some a"
    using that assms obj_wf_pool pool_lookup_inj by blast
  ultimately show "obj_get (snd (obj_insert_atom ob a v)) j = ((obj_get ob)(k \<mapsto> v)) j"
    using assms(2)
    by (cases "pool_lookup (arc_get (obj_pool ob)) j")
       (auto simp: obj_get_at_atom obj_insert_atom_at)
qed

section \<open>The contract of an object\<close>

text \<open>
  What the entities of a subgraph rely on: an attribute container is a map from the strings
  its pool knows to values; \<open>ins\<close> refuses strings that the pool does not know.
\<close>

locale attribute_map =
  fixes get :: "'o \<Rightarrow> string \<Rightarrow> 'v option"
    and ins :: "'o \<Rightarrow> string \<Rightarrow> 'v \<Rightarrow> ('v option \<times> 'o, intern_error) outcome"
    and rem :: "'o \<Rightarrow> string \<Rightarrow> 'v option \<times> 'o"
    and pool_of :: "'o \<Rightarrow> 'p"
    and knows :: "'p \<Rightarrow> string \<Rightarrow> bool"
    and inv :: "'o \<Rightarrow> bool"
  assumes ins_known:
      "inv ob \<Longrightarrow> knows (pool_of ob) k \<Longrightarrow>
         \<exists>ob'. ins ob k v = Ok (get ob k, ob') \<and> inv ob' \<and> pool_of ob' = pool_of ob \<and>
               get ob' = (get ob)(k \<mapsto> v)"
    and ins_unknown: "\<not> knows (pool_of ob) k \<Longrightarrow> ins ob k v = Err (NotInterned k)"
    and rem_law:
      "inv ob \<Longrightarrow>
         \<exists>ob'. rem ob k = (get ob k, ob') \<and> inv ob' \<and> pool_of ob' = pool_of ob \<and>
               get ob' = (get ob)(k := None)"
    and get_known: "get ob k \<noteq> None \<Longrightarrow> knows (pool_of ob) k"
begin

text \<open>Inserting a list of pairs overrides the map with them, the last pair of a key winning.\<close>

lemma ins_all:
  assumes "inv ob" "\<forall>(k, v) \<in> set kvs. knows (pool_of ob) k"
  shows "\<exists>ob'. try_fold (\<lambda>o' (k, v). map_ok snd (ins o' k v)) ob kvs = Ok ob' \<and> inv ob' \<and>
               pool_of ob' = pool_of ob \<and> get ob' = get ob ++ map_of (rev kvs)"
  using assms
proof (induction kvs arbitrary: ob)
  case (Cons kv kvs)
  obtain k v where kv: "kv = (k, v)" by (cases kv)
  with Cons.prems obtain ob1 where 1: "ins ob k v = Ok (get ob k, ob1)" "inv ob1"
    "pool_of ob1 = pool_of ob" "get ob1 = (get ob)(k \<mapsto> v)"
    using ins_known [of ob k v] by auto
  moreover from 1 Cons obtain ob2 where
    "try_fold (\<lambda>o' (k, v). map_ok snd (ins o' k v)) ob1 kvs = Ok ob2" "inv ob2"
    "pool_of ob2 = pool_of ob" "get ob2 = get ob1 ++ map_of (rev kvs)"
    by (metis list.set_intros(2))
  ultimately show ?case using kv by (auto simp: map_add_def fun_eq_iff split: option.split)
qed simp

text \<open>The insertion of a list of pairs fails exactly on the first pair with an unknown key.\<close>

lemma ins_all_unknown:
  assumes "inv ob" "find (\<lambda>(k, v). \<not> knows (pool_of ob) k) kvs = Some (k, v)"
  shows "try_fold (\<lambda>o' (k, v). map_ok snd (ins o' k v)) ob kvs = Err (NotInterned k)"
  using assms
proof (induction kvs arbitrary: ob)
  case (Cons kv kvs)
  obtain j w where kv: "kv = (j, w)" by (cases kv)
  show ?case
  proof (cases "knows (pool_of ob) j")
    case True
    then obtain ob1 where "ins ob j w = Ok (get ob j, ob1)" "inv ob1" "pool_of ob1 = pool_of ob"
      using Cons.prems(1) ins_known by blast
    with Cons kv True show ?thesis by simp
  next
    case False
    with Cons kv show ?thesis by (simp add: ins_unknown)
  qed
qed simp

end

lemma obj_insert_known:
  assumes "obj_wf ob" "known ob k"
  shows "\<exists>ob'. obj_insert ob k v = Ok (obj_get ob k, ob') \<and> obj_wf ob' \<and> obj_pool ob' = obj_pool ob \<and>
               obj_get ob' = (obj_get ob)(k \<mapsto> v)"
proof -
  obtain a where a: "pool_lookup (arc_get (obj_pool ob)) k = Some a"
    using assms(2) by (auto simp: known_def)
  then have g: "pool_get (arc_get (obj_pool ob)) a \<noteq> None" "a \<noteq> TOMBSTONE_KEY"
    using assms(1) obj_wf_pool pool_lookup_iff_get pool_lookup_not_tombstone by fastforce+
  then have "fst (obj_insert_atom ob a v) = obj_get ob k"
    using a by (simp add: obj_insert_atom_eq obj_get_at_atom)
  with a g assms(1) show ?thesis
    using obj_insert_atom_wf [OF assms(1) g(1), of v] obj_get_insert_atom [OF assms(1) a, of v]
    by (intro exI [of _ "snd (obj_insert_atom ob a v)"]) (auto simp: obj_insert_def prod_eq_iff)
qed

lemma obj_remove_law:
  assumes "obj_wf ob"
  shows "\<exists>ob'. obj_remove n ob k = (obj_get ob k, ob') \<and> obj_wf ob' \<and> obj_pool ob' = obj_pool ob \<and>
               obj_get ob' = (obj_get ob)(k := None)"
proof (cases "obj_get ob k")
  case None
  then have "obj_remove n ob k = (None, ob)"
    by (auto simp: obj_remove_def obj_get_def split: option.splits)
  with None assms show ?thesis by (simp add: fun_upd_idem)
next
  case (Some v)
  let ?es = "obj_entries ob" and ?p = "arc_get (obj_pool ob)"
  obtain a where a: "pool_lookup ?p k = Some a" "at_atom ?es a = Some v"
    using Some by (auto simp: obj_get_at_atom bind_eq_Some_conv)
  have t: "a \<noteq> TOMBSTONE_KEY" "distinct (live_keys ?es)"
    using a(1) assms obj_wf_keys pool_lookup_not_tombstone by blast+
  have r: "obj_remove n ob k = (Some v, ob\<lparr>obj_entries := bury_first n a ?es\<rparr>)"
    using a by (auto simp: obj_remove_def at_atom_def)
  have "obj_get (ob\<lparr>obj_entries := bury_first n a ?es\<rparr>) j = ((obj_get ob)(k := None)) j" for j
    using a(1) t obj_wf_pool [OF assms] pool_lookup_not_tombstone [of ?p j] pool_lookup_inj [of ?p j a k]
    by (cases "pool_lookup ?p j") (auto simp: obj_get_at_atom at_atom_bury_first)
  then have "obj_get (ob\<lparr>obj_entries := bury_first n a ?es\<rparr>) = (obj_get ob)(k := None)" ..
  moreover have "obj_wf (ob\<lparr>obj_entries := bury_first n a ?es\<rparr>)"
    using assms t by (simp add: obj_wf_keys bury_first_keys del: set_map filter_filter)
  ultimately show ?thesis using r Some by auto
qed

interpretation attrs: attribute_map obj_get obj_insert "obj_remove n" obj_pool
    "\<lambda>p k. pool_lookup (arc_get p) k \<noteq> None" obj_wf
  for n :: 'v
proof
  fix ob :: "'v obj" and k v
  show "obj_wf ob \<Longrightarrow> pool_lookup (arc_get (obj_pool ob)) k \<noteq> None \<Longrightarrow>
      \<exists>ob'. obj_insert ob k v = Ok (obj_get ob k, ob') \<and> obj_wf ob' \<and> obj_pool ob' = obj_pool ob \<and>
            obj_get ob' = (obj_get ob)(k \<mapsto> v)"
    using obj_insert_known [of ob k v] by (simp add: known_def)
  show "\<not> pool_lookup (arc_get (obj_pool ob)) k \<noteq> None \<Longrightarrow> obj_insert ob k v = Err (NotInterned k)"
    by (simp add: obj_insert_def)
  show "obj_wf ob \<Longrightarrow> \<exists>ob'. obj_remove n ob k = (obj_get ob k, ob') \<and> obj_wf ob' \<and>
      obj_pool ob' = obj_pool ob \<and> obj_get ob' = (obj_get ob)(k := None)"
    by (rule obj_remove_law)
  show "obj_get ob k \<noteq> None \<Longrightarrow> pool_lookup (arc_get (obj_pool ob)) k \<noteq> None"
    by (auto simp: obj_get_at_atom bind_eq_Some_conv)
qed

section \<open>Iteration, equality and merging\<close>

text \<open>Iterating over an object yields its abstract map, each key once.\<close>

lemma iter_entries_ok:
  assumes "pool_wf p" "\<forall>a \<in> set (live_keys es). pool_get p a \<noteq> None"
  shows "\<exists>kvs. iter_entries p es = Ok kvs \<and>
           map (\<lambda>kv. pool_lookup p (fst kv)) kvs = map Some (live_keys es) \<and>
           map_of kvs = (\<lambda>k. Option.bind (pool_lookup p k) (at_atom es))"
  using assms(2)
proof (induction es)
  case Nil
  then show ?case by (auto simp: fun_eq_iff bind_eq_None_conv)
next
  case (Cons e es)
  then obtain kvs where IH: "iter_entries p es = Ok kvs"
    "map (\<lambda>kv. pool_lookup p (fst kv)) kvs = map Some (live_keys es)"
    "map_of kvs = (\<lambda>k. Option.bind (pool_lookup p k) (at_atom es))"
    by (auto split: if_splits)
  show ?case
  proof (cases "e_key e = TOMBSTONE_KEY")
    case True
    then have "Option.bind (pool_lookup p k) (at_atom (e # es)) = Option.bind (pool_lookup p k) (at_atom es)" for k
      using pool_lookup_not_tombstone [OF assms(1), of k] by (cases "pool_lookup p k") auto
    with True IH show ?thesis by (simp del: at_atom_Cons)
  next
    case False
    then obtain k where k: "pool_get p (e_key e) = Some k" using Cons.prems by auto
    have l: "pool_lookup p j = Some (e_key e) \<longleftrightarrow> j = k" for j
      using k pool_lookup_iff_get [OF assms(1)] by auto
    have "map_of ((k, e_val e) # kvs) j = Option.bind (pool_lookup p j) (at_atom (e # es))" for j
    proof (cases "j = k")
      case True
      with l [of k] show ?thesis by simp
    next
      case False
      with l [of j] IH(3) show ?thesis by (cases "pool_lookup p j") auto
    qed
    then have "map_of ((k, e_val e) # kvs) = (\<lambda>k. Option.bind (pool_lookup p k) (at_atom (e # es)))" ..
    with False k IH show ?thesis
      using l [of k] by (simp del: at_atom_Cons)
  qed
qed

lemma obj_iter_ok:
  assumes "obj_wf ob"
  obtains kvs where "obj_iter ob = Ok kvs" "map_of kvs = obj_get ob" "distinct (map fst kvs)"
    "length kvs = obj_len ob"
proof -
  let ?p = "arc_get (obj_pool ob)" and ?es = "obj_entries ob"
  have wf: "pool_wf ?p" "distinct (live_keys ?es)" "\<forall>a \<in> set (live_keys ?es). pool_get ?p a \<noteq> None"
    using assms obj_wf_keys by blast+
  obtain kvs where k: "iter_entries ?p ?es = Ok kvs"
    "map (\<lambda>kv. pool_lookup ?p (fst kv)) kvs = map Some (live_keys ?es)"
    "map_of kvs = (\<lambda>k. Option.bind (pool_lookup ?p k) (at_atom ?es))"
    using iter_entries_ok [OF wf(1,3)] by blast
  have "distinct (map (\<lambda>kv. pool_lookup ?p (fst kv)) kvs)"
    using k(2) wf(2) by (simp add: distinct_map inj_on_def)
  then have "distinct (map fst kvs)"
    by (auto simp: distinct_map inj_on_def)
  moreover have "length kvs = obj_len ob"
    using arg_cong [OF k(2), of length] by (simp add: obj_len_def filter_map o_def)
  ultimately show ?thesis
    using that [of kvs] k by (simp add: obj_iter_def obj_get_at_atom fun_eq_iff)
qed

lemma obj_len_card: "obj_wf ob \<Longrightarrow> obj_len ob = card (dom (obj_get ob)) \<and> finite (dom (obj_get ob))"
  by (metis obj_iter_ok dom_map_of_conv_image_fst distinct_card list.set_map length_map finite_dom_map_of)

text \<open>\<open>retain\<close> keeps the pairs that satisfy the predicate.\<close>

lemma obj_retain_law:
  assumes "obj_wf ob"
  shows "\<exists>ob'. obj_retain ob f = Ok ob' \<and> obj_wf ob' \<and> obj_pool ob' = obj_pool ob \<and>
           obj_get ob' = (\<lambda>k. case obj_get ob k of
             None \<Rightarrow> None | Some v \<Rightarrow> if f k v then Some v else None)"
proof -
  let ?p = "arc_get (obj_pool ob)"
  have wf: "pool_wf ?p" using assms by (rule obj_wf_pool)
  have "\<exists>es'. retain_entries ?p f es = Ok es' \<and> distinct (live_keys es') \<and>
      set (live_keys es') \<subseteq> set (live_keys es) \<and>
      (\<forall>k a. pool_get ?p a = Some k \<longrightarrow>
         at_atom es' a = (case at_atom es a of None \<Rightarrow> None | Some v \<Rightarrow> if f k v then Some v else None))"
    if "distinct (live_keys es)" "\<forall>a \<in> set (live_keys es). pool_get ?p a \<noteq> None" for es
    using that
  proof (induction es)
    case (Cons e es)
    then obtain es' where IH: "retain_entries ?p f es = Ok es'" "distinct (live_keys es')"
      "set (live_keys es') \<subseteq> set (live_keys es)"
      "\<forall>k a. pool_get ?p a = Some k \<longrightarrow>
         at_atom es' a = (case at_atom es a of None \<Rightarrow> None | Some v \<Rightarrow> if f k v then Some v else None)"
      by (auto split: if_splits)
    show ?case
    proof (cases "e_key e = TOMBSTONE_KEY")
      case True
      with IH show ?thesis using pool_get_tombstone [OF wf] by auto
    next
      case False
      then obtain k where k: "pool_get ?p (e_key e) = Some k" using Cons.prems by auto
      have "at_atom es (e_key e) = None"
        using Cons.prems(1) False by (auto simp: at_atom_None_iff)
      then have "at_atom es' (e_key e) = None" using IH(4) k by auto
      with False k IH Cons.prems(1) show ?thesis by (cases "f k (e_val e)") auto
    qed
  qed simp
  then obtain es' where es': "retain_entries ?p f (obj_entries ob) = Ok es'" "distinct (live_keys es')"
      "set (live_keys es') \<subseteq> set (live_keys (obj_entries ob))"
      "\<forall>k a. pool_get ?p a = Some k \<longrightarrow>
         at_atom es' a = (case at_atom (obj_entries ob) a of None \<Rightarrow> None | Some v \<Rightarrow> if f k v then Some v else None)"
    using assms unfolding obj_wf_keys by blast
  then have "obj_get (ob\<lparr>obj_entries := es'\<rparr>) k =
      (case obj_get ob k of None \<Rightarrow> None | Some v \<Rightarrow> if f k v then Some v else None)" for k
  proof (cases "pool_lookup ?p k")
    case (Some a)
    with pool_lookup_iff_get [OF wf] have "pool_get ?p a = Some k" by blast
    with es'(4) Some show ?thesis by (simp add: obj_get_at_atom)
  qed (simp add: obj_get_at_atom)
  moreover have "obj_wf (ob\<lparr>obj_entries := es'\<rparr>)"
    using es'(2,3) assms unfolding obj_wf_keys by auto
  ultimately show ?thesis using es'(1) by (auto simp: obj_retain_def fun_eq_iff)
qed

text \<open>
  Pools are shared by address, and the same address means the same pool.
\<close>

definition coherent :: "'v obj \<Rightarrow> 'v obj \<Rightarrow> bool" where
  "coherent a b \<longleftrightarrow> (same_pool a b \<longrightarrow> arc_get (obj_pool a) = arc_get (obj_pool b))"

lemma insert_entries:
  assumes "obj_wf ob" "distinct (live_keys es)"
    "\<forall>a \<in> set (live_keys es). pool_get (arc_get (obj_pool ob)) a \<noteq> None"
  defines "r \<equiv> foldl (\<lambda>o' e. snd (obj_insert_atom o' (e_key e) (e_val e))) ob es"
  shows "obj_wf r \<and> obj_pool r = obj_pool ob \<and>
    obj_get r = obj_get ob ++ (\<lambda>k. Option.bind (pool_lookup (arc_get (obj_pool ob)) k) (at_atom es))"
  using assms(1-3) unfolding r_def
proof (induction es arbitrary: ob)
  case Nil
  then show ?case by (auto simp: map_add_def fun_eq_iff split: bind_splits option.split)
next
  case (Cons e es)
  let ?p = "arc_get (obj_pool ob)"
  have wf: "pool_wf ?p" using Cons.prems(1) by (rule obj_wf_pool)
  show ?case
  proof (cases "e_key e = TOMBSTONE_KEY")
    case True
    have "Option.bind (pool_lookup ?p k) (at_atom (e # es)) = Option.bind (pool_lookup ?p k) (at_atom es)" for k
      using True pool_lookup_not_tombstone [OF wf, of k] by (cases "pool_lookup ?p k") auto
    with True Cons show ?thesis by (simp add: obj_insert_atom_eq del: at_atom_Cons)
  next
    case False
    then obtain k where k: "pool_get ?p (e_key e) = Some k" using Cons.prems by auto
    let ?o = "snd (obj_insert_atom ob (e_key e) (e_val e))"
    have l: "pool_lookup ?p j = Some (e_key e) \<longleftrightarrow> j = k" for j
      using k pool_lookup_iff_get [OF wf] by auto
    have "at_atom es (e_key e) = None" "pool_lookup ?p k = Some (e_key e)"
      using Cons.prems(2) False l [of k] by (auto simp: at_atom_None_iff)
    then have "(obj_get ob ++ (\<lambda>k. Option.bind (pool_lookup ?p k) (at_atom (e # es)))) j =
        ((obj_get ob)(k \<mapsto> e_val e) ++ (\<lambda>k. Option.bind (pool_lookup ?p k) (at_atom es))) j" for j
      using l [of j] by (cases "j = k"; cases "pool_lookup ?p j") (auto simp: map_add_def split: option.split)
    then have "obj_get ob ++ (\<lambda>k. Option.bind (pool_lookup ?p k) (at_atom (e # es))) =
        (obj_get ob)(k \<mapsto> e_val e) ++ (\<lambda>k. Option.bind (pool_lookup ?p k) (at_atom es))" ..
    moreover have "obj_wf ?o" "obj_get ?o = (obj_get ob)(k \<mapsto> e_val e)"
      using obj_insert_atom_wf [of ob "e_key e"] obj_get_insert_atom [of ob k "e_key e"] l k Cons.prems(1)
      by simp_all
    ultimately show ?thesis
      using Cons.IH [of ?o] Cons.prems False by (simp del: at_atom_Cons fun_upd_apply)
  qed
qed

text \<open>
  \<open>merge\<close> overrides the map with the map of the other object, whether or not the two objects
  share their pool. A key of the other object that the pool of this one does not know is a
  panic.
\<close>

lemma obj_merge_law:
  assumes "obj_wf a" "obj_wf b" "coherent a b" "dom (obj_get b) \<subseteq> {k. known a k}"
  shows "\<exists>ob'. obj_merge a b = Ok ob' \<and> obj_wf ob' \<and> obj_pool ob' = obj_pool a \<and>
           obj_get ob' = obj_get a ++ obj_get b"
proof (cases "same_pool a b")
  case True
  with assms(3) have p: "arc_get (obj_pool a) = arc_get (obj_pool b)" by (simp add: coherent_def)
  have "distinct (live_keys (obj_entries b))"
    "\<forall>x \<in> set (live_keys (obj_entries b)). pool_get (arc_get (obj_pool a)) x \<noteq> None"
    using assms(2) p unfolding obj_wf_keys by auto
  with True p assms(1) show ?thesis
    using insert_entries [of a "obj_entries b"]
    by (simp add: obj_merge_def obj_get_at_atom map_add_def)
next
  case False
  obtain kvs where kvs: "obj_iter b = Ok kvs" "map_of kvs = obj_get b" "distinct (map fst kvs)"
    using assms(2) by (rule obj_iter_ok)
  have "\<forall>(k, v) \<in> set kvs. pool_lookup (arc_get (obj_pool a)) k \<noteq> None"
  proof
    fix kv assume "kv \<in> set kvs"
    then have "fst kv \<in> dom (obj_get b)"
      using kvs(2) by (metis dom_map_of_conv_image_fst image_eqI)
    then show "case kv of (k, v) \<Rightarrow> pool_lookup (arc_get (obj_pool a)) k \<noteq> None"
      using assms(4) by (auto simp: known_def split: prod.split)
  qed
  then obtain ob' where ob': "try_fold (\<lambda>o' (k, v). map_ok snd (obj_insert o' k v)) a kvs = Ok ob'"
    "obj_wf ob'" "obj_pool ob' = obj_pool a" "obj_get ob' = obj_get a ++ map_of (rev kvs)"
    using attrs.ins_all [OF assms(1), of kvs] by auto
  have unwrap: "try_fold (\<lambda>o' (k, v). case obj_insert o' k v of Ok r \<Rightarrow> Ok (snd r)
      | Err e \<Rightarrow> Panic msg | Panic s \<Rightarrow> Panic s) ob xs = (Ok r :: ('a obj, intern_error) outcome)"
    if "try_fold (\<lambda>o' (k, v). map_ok snd (obj_insert o' k v)) ob xs = Ok r"
    for ob :: "'a obj" and xs r msg
    using that by (induction xs arbitrary: ob) (auto simp: outcome_simps split: prod.splits)
  have "map_of (rev kvs) = obj_get b"
    using kvs(2,3) by (simp add: map_of_rev_distinct)
  with False kvs(1) ob' unwrap [OF ob'(1)] show ?thesis by (simp add: obj_merge_def)
qed

lemma at_atom_iff:
  "distinct (live_keys es) \<Longrightarrow> a \<noteq> TOMBSTONE_KEY \<Longrightarrow>
     at_atom es a = Some v \<longleftrightarrow> (\<exists>e \<in> set es. e_key e = a \<and> e_val e = v)"
  by (induction es) (auto simp: image_iff split: if_splits)

text \<open>Comparing the live entries of one object with another object that shares its pool.\<close>

lemma entries_below:
  assumes "obj_wf a" "obj_wf b" "arc_get (obj_pool a) = arc_get (obj_pool b)"
  shows "(\<forall>e \<in> set (filter (\<lambda>e. e_key e \<noteq> TOMBSTONE_KEY \<and> P (e_key e)) (obj_entries a)).
            obj_get_by_atom b (e_key e) = Some (e_val e)) \<longleftrightarrow>
         (\<forall>k v x. pool_lookup (arc_get (obj_pool a)) k = Some x \<and> P x \<and> obj_get a k = Some v \<longrightarrow>
            obj_get b k = Some v)" (is "?l \<longleftrightarrow> ?r")
proof
  let ?p = "arc_get (obj_pool a)"
  have wf: "pool_wf ?p" "distinct (live_keys (obj_entries a))" using assms(1) obj_wf_keys by blast+
  show ?r if ?l
  proof (intro allI impI)
    fix k v x assume k: "pool_lookup ?p k = Some x \<and> P x \<and> obj_get a k = Some v"
    then have x: "x \<noteq> TOMBSTONE_KEY" using pool_lookup_not_tombstone wf(1) by blast
    with k wf(2) obtain e where "e \<in> set (obj_entries a)" "e_key e = x" "e_val e = v"
      by (auto simp: obj_get_at_atom at_atom_iff)
    with k x \<open>?l\<close> assms(3) show "obj_get b k = Some v"
      by (auto simp: obj_get_at_atom obj_get_by_atom_at_atom)
  qed
  show ?l if ?r
  proof
    fix e assume "e \<in> set (filter (\<lambda>e. e_key e \<noteq> TOMBSTONE_KEY \<and> P (e_key e)) (obj_entries a))"
    then have e: "e \<in> set (obj_entries a)" "e_key e \<noteq> TOMBSTONE_KEY" "P (e_key e)" by auto
    then obtain k where k: "pool_get ?p (e_key e) = Some k"
      using assms(1) unfolding obj_wf_keys by fastforce
    with wf(1) have l: "pool_lookup ?p k = Some (e_key e)" by (simp add: pool_lookup_iff_get)
    with e wf(2) have "obj_get a k = Some (e_val e)" by (auto simp: obj_get_at_atom at_atom_iff)
    with \<open>?r\<close> l e(2,3) have "obj_get b k = Some (e_val e)" by blast
    then show "obj_get_by_atom b (e_key e) = Some (e_val e)"
      using l e(2) assms(3) by (simp add: obj_get_at_atom obj_get_by_atom_at_atom)
  qed
qed

lemma obj_len_keys:
  "obj_len ob = length (live_keys (obj_entries ob))"
  "obj_len_ignore_atom ob i = length (filter (\<lambda>b. b \<noteq> i) (live_keys (obj_entries ob)))"
  by (simp_all add: obj_len_def obj_len_ignore_atom_def filter_map o_def conj_commute)

text \<open>Equality of objects is equality of their maps, \<open>eq_ignore_key\<close> is equality apart from the key.\<close>

lemma obj_len_ignore_card:
  assumes "obj_wf ob" and i: "pool_lookup (arc_get (obj_pool ob)) ik = Some i"
  shows "obj_len_ignore_atom ob i = card (dom ((obj_get ob)(ik := None))) \<and>
         finite (dom ((obj_get ob)(ik := None)))"
proof -
  obtain ob' where r: "obj_remove undefined ob ik = (obj_get ob ik, ob')" "obj_wf ob'"
    "obj_get ob' = (obj_get ob)(ik := None)"
    using obj_remove_law [OF assms(1)] by blast
  have wf: "i \<noteq> TOMBSTONE_KEY" "distinct (live_keys (obj_entries ob))"
    using assms obj_wf_keys pool_lookup_not_tombstone by blast+
  have "live_keys (obj_entries ob') = filter (\<lambda>b. b \<noteq> i) (live_keys (obj_entries ob))"
  proof (cases "find (\<lambda>e. e_key e = i) (obj_entries ob)")
    case None
    with r(1) i have "ob' = ob" by (auto simp: obj_remove_def split: option.splits)
    with None show ?thesis by (auto simp: find_None_iff intro!: filter_cong)
  next
    case (Some e)
    with r(1) i have "ob' = ob\<lparr>obj_entries := bury_first undefined i (obj_entries ob)\<rparr>"
      by (simp add: obj_remove_def)
    then show ?thesis using bury_first_keys [OF wf(2,1)] by simp
  qed
  then have "obj_len_ignore_atom ob i = obj_len ob'"
    using obj_len_keys [of ob'] obj_len_keys [of ob] by simp
  with obj_len_card [OF r(2)] r(3) show ?thesis by simp
qed

lemma obj_eq_ignore_key_law:
  assumes "obj_wf a" "obj_wf b" "coherent a b"
  shows "obj_eq_ignore_key a b ik = Ok ((obj_get a)(ik := None) = (obj_get b)(ik := None))"
proof -
  define ma where "ma = (obj_get a)(ik := None)"
  define mb where "mb = (obj_get b)(ik := None)"
  have len: "(case pool_lookup (arc_get (obj_pool ob)) ik of
        Some i \<Rightarrow> obj_len_ignore_atom ob i | None \<Rightarrow> obj_len ob) = card (dom ((obj_get ob)(ik := None)))"
    if "obj_wf ob" for ob :: "'a obj"
  proof (cases "pool_lookup (arc_get (obj_pool ob)) ik")
    case None
    then have "(obj_get ob)(ik := None) = obj_get ob" by (auto simp: obj_get_at_atom fun_eq_iff)
    with None obj_len_card [OF that] show ?thesis by simp
  next
    case (Some i)
    with obj_len_ignore_card [OF that Some] show ?thesis by simp
  qed
  have fin: "finite (dom mb)" using obj_len_card [OF assms(2)] by (simp add: mb_def)
  have eq: "ma = mb" if "card (dom ma) = card (dom mb)"
    "\<forall>k v. k \<noteq> ik \<and> obj_get a k = Some v \<longrightarrow> obj_get b k = Some v"
    using that(2) by (intro map_le_card_eq [OF fin that(1)]) (simp add: ma_def mb_def split: if_splits)
  have below: "\<forall>k v. k \<noteq> ik \<and> obj_get a k = Some v \<longrightarrow> obj_get b k = Some v" if "ma = mb"
  proof (intro allI impI)
    fix k v assume "k \<noteq> ik \<and> obj_get a k = Some v"
    with fun_cong [OF that, of k] show "obj_get b k = Some v" by (simp add: ma_def mb_def)
  qed
  show ?thesis
  proof (cases "card (dom ma) = card (dom mb) \<and> same_pool a b")
    case True
    let ?p = "arc_get (obj_pool a)"
    have p: "?p = arc_get (obj_pool b)" using True assms(3) by (simp add: coherent_def)
    have key: "(\<exists>x. pool_lookup ?p k = Some x \<and> pool_lookup ?p ik \<noteq> Some x) \<and> obj_get a k = Some v \<longleftrightarrow>
        k \<noteq> ik \<and> obj_get a k = Some v" for k v
      using pool_lookup_inj [OF obj_wf_pool [OF assms(1)], of k _ ik]
      by (cases "pool_lookup ?p k") (auto simp: obj_get_at_atom)
    have "(\<forall>k v x. pool_lookup ?p k = Some x \<and> pool_lookup ?p ik \<noteq> Some x \<and> obj_get a k = Some v \<longrightarrow>
        obj_get b k = Some v) \<longleftrightarrow>
        (\<forall>k v. (\<exists>x. pool_lookup ?p k = Some x \<and> pool_lookup ?p ik \<noteq> Some x) \<and> obj_get a k = Some v \<longrightarrow>
        obj_get b k = Some v)"
      by fast
    also have "\<dots> \<longleftrightarrow> (\<forall>k v. k \<noteq> ik \<and> obj_get a k = Some v \<longrightarrow> obj_get b k = Some v)"
      by (simp only: key)
    also have "\<dots> \<longleftrightarrow> ma = mb" using True eq below by (intro iffI) simp_all
    finally show ?thesis
      using True entries_below [OF assms(1,2) p, of "\<lambda>x. pool_lookup ?p ik \<noteq> Some x"]
      unfolding obj_eq_ignore_key_def Let_def len [OF assms(1)] len [OF assms(2)] ma_def [symmetric] mb_def [symmetric]
      by simp
  next
    case False
    obtain kvs where kvs: "obj_iter a = Ok kvs" "map_of kvs = obj_get a" "distinct (map fst kvs)"
      using assms(1) by (rule obj_iter_ok)
    have "(\<forall>(k, v) \<in> set (filter (\<lambda>(k, _). k \<noteq> ik) kvs). obj_get b k = Some v) \<longleftrightarrow>
        (\<forall>k v. k \<noteq> ik \<and> obj_get a k = Some v \<longrightarrow> obj_get b k = Some v)"
      using kvs(3) by (auto simp flip: kvs(2) simp: map_of_eq_Some_iff)
    moreover have "card (dom ma) = card (dom mb) \<and>
        (\<forall>k v. k \<noteq> ik \<and> obj_get a k = Some v \<longrightarrow> obj_get b k = Some v) \<longleftrightarrow> ma = mb"
    proof
      assume "ma = mb"
      with below show "card (dom ma) = card (dom mb) \<and>
        (\<forall>k v. k \<noteq> ik \<and> obj_get a k = Some v \<longrightarrow> obj_get b k = Some v)" by simp
    qed (use eq in simp)
    ultimately have "card (dom ma) = card (dom mb) \<and>
        (\<forall>(k, v) \<in> set (filter (\<lambda>(k, _). k \<noteq> ik) kvs). obj_get b k = Some v) \<longleftrightarrow> ma = mb"
      by (simp only:)
    with False kvs(1) show ?thesis
      unfolding obj_eq_ignore_key_def Let_def len [OF assms(1)] len [OF assms(2)] ma_def [symmetric] mb_def [symmetric]
      by auto
  qed
qed

lemma obj_contains_key_iff:
  assumes "obj_wf ob"
  shows "obj_contains_key ob k \<longleftrightarrow> obj_get ob k \<noteq> None"
proof -
  let ?p = "arc_get (obj_pool ob)"
  have "obj_contains_key ob k \<longleftrightarrow> (\<exists>e \<in> set (obj_entries ob). pool_lookup ?p k = Some (e_key e))"
    using pool_lookup_iff_get [OF obj_wf_pool [OF assms]] by (simp add: obj_contains_key_def)
  also have "\<dots> \<longleftrightarrow> obj_get ob k \<noteq> None"
    by (cases "pool_lookup ?p k") (auto simp: obj_get_at_atom at_atom_None_iff image_iff simp del: not_None_eq)
  finally show ?thesis .
qed

lemma pool_intern_new:
  assumes "pool_lookup p w = None" "unat (pool_base_sym p) + length (pool_atoms p) < 65535"
  shows "pool_intern p w =
    Ok (word_of_nat (unat (pool_base_sym p) + length (pool_atoms p)),
        AtomPool (pool_base p) (pool_base_sym p) (pool_atoms p @ [w])
          ((pool_words p)(w \<mapsto> word_of_nat (unat (pool_base_sym p) + length (pool_atoms p)))))"
proof -
  let ?n = "unat (pool_base_sym p) + length (pool_atoms p)"
  have "word_of_nat ?n \<noteq> TOMBSTONE_KEY"
    using assms(2) unat_of_nat_atom [of ?n] unfolding tombstone_unat by simp
  with assms show ?thesis by (simp add: pool_intern_def Let_def del: of_nat_add)
qed

lemma intern_all_wf:
  assumes "try_fold (\<lambda>p w. map_ok snd (pool_intern p w)) q ws = Ok p" "pool_wf q"
  shows "pool_wf p \<and> pool_base_sym p = pool_base_sym q \<and>
         (\<forall>w. pool_lookup p w \<noteq> None \<longleftrightarrow> w \<in> set ws \<or> pool_lookup q w \<noteq> None)"
  using assms
proof (induction ws arbitrary: q)
  case (Cons w ws)
  then obtain a q' where q': "pool_intern q w = Ok (a, q')"
    "try_fold (\<lambda>p w. map_ok snd (pool_intern p w)) q' ws = Ok p"
    by (auto simp: outcome_simps)
  with Cons.prems(2) have "pool_wf q'" "pool_lookup q' = (pool_lookup q)(w \<mapsto> a)"
    using pool_intern_wf by blast+
  moreover have "pool_base_sym q' = pool_base_sym q"
    using q'(1) by (auto simp: pool_intern_def Let_def split: option.splits if_splits)
  ultimately show ?case using Cons.IH [OF q'(2)] by auto
qed auto

lemma pool_from_iter_wf:
  assumes "pool_from_iter ws = Ok p"
  shows "pool_wf p \<and> pool_base_sym p = 0 \<and> (\<forall>w. pool_lookup p w \<noteq> None \<longleftrightarrow> w \<in> set ws)"
  using intern_all_wf [of pool_new ws p] assms
  by (simp add: pool_from_iter_def pool_new_wf) (simp add: pool_new_def)

section \<open>Properties\<close>

text \<open>
  C25 (round trip). Interning any list of strings into a fresh pool, extending it by a child
  pool and interning any further list there gives a pool in which exactly these strings are
  known, and \<open>get\<close> and \<open>lookup\<close> are inverse to each other: no two strings share an atom,
  and no string has the tombstone as its atom.
\<close>

theorem pool_roundtrip:
  assumes "pool_from_iter ws = Ok p" "pool_child p = Ok c"
    "try_fold (\<lambda>q w. map_ok snd (pool_intern q w)) c vs = Ok q"
  shows "(\<forall>w. pool_lookup q w \<noteq> None \<longleftrightarrow> w \<in> set ws \<union> set vs) \<and>
         (\<forall>w a. pool_lookup q w = Some a \<longleftrightarrow> pool_get q a = Some w) \<and>
         pool_get q TOMBSTONE_KEY = None"
proof -
  have p: "pool_wf p" "pool_base_sym p = 0" "\<forall>w. pool_lookup p w \<noteq> None \<longleftrightarrow> w \<in> set ws"
    using pool_from_iter_wf [OF assms(1)] by blast+
  then have "pool_wf c" using pool_child_wf_iff [OF p(1) assms(2)] by simp
  moreover have "pool_lookup c = pool_lookup p"
    using assms(2) by (auto simp: pool_child_def fun_eq_iff split: if_splits option.splits)
  ultimately have "pool_wf q" "\<forall>w. pool_lookup q w \<noteq> None \<longleftrightarrow> w \<in> set ws \<union> set vs"
    using intern_all_wf [OF assms(3)] p(3) by auto
  then show ?thesis
    using pool_lookup_iff_get pool_get_tombstone by simp
qed

lemma pool_roundtrip_witness:
  "\<exists>p c q. pool_from_iter [''id'', ''name''] = Ok p \<and> pool_child p = Ok c \<and>
     try_fold (\<lambda>q w. map_ok snd (pool_intern q w)) c [''name'', ''vid''] = Ok q \<and>
     pool_lookup q ''vid'' = Some 2 \<and> pool_get q 2 = Some ''vid'' \<and>
     (\<forall>w a. pool_lookup q w = Some a \<longleftrightarrow> pool_get q a = Some w)"
proof -
  define p where "p = AtomPool None 0 [''id'', ''name''] [''id'' \<mapsto> 0, ''name'' \<mapsto> 1]"
  define c where "c = AtomPool (Some p) 2 [] Map.empty"
  define q where "q = AtomPool (Some p) 2 [''vid''] [''vid'' \<mapsto> 2]"
  have 1: "pool_from_iter [''id'', ''name''] = Ok p"
    by (simp add: pool_from_iter_def pool_new_def pool_intern_def TOMBSTONE_KEY_def p_def)
  have 2: "pool_child p = Ok c" by (simp add: pool_child_def p_def c_def)
  have 3: "try_fold (\<lambda>q w. map_ok snd (pool_intern q w)) c [''name'', ''vid''] = Ok q"
    by (simp add: pool_intern_def TOMBSTONE_KEY_def p_def c_def q_def)
  have "pool_lookup q ''vid'' = Some 2" by (simp add: p_def q_def)
  with 1 2 3 pool_roundtrip [OF 1 2 3] show ?thesis by blast
qed

text \<open>
  A chain of three pools is not one pool. The first atom of a child pool is computed from
  the number of strings of its parent alone, not of all its ancestors. When the parent is
  itself a child, a string of the grandchild gets the atom of a string of the parent, and
  that atom reads back as the string of the grandchild.
\<close>

lemma grandchild_pool_collision:
  "and_then (pool_from_iter [''x'']) (\<lambda>p.
   and_then (pool_child p) (\<lambda>c.
   and_then (pool_intern c ''y'') (\<lambda>(_, c').
   and_then (pool_child c') (\<lambda>g.
   and_then (pool_intern g ''z'') (\<lambda>(_, g').
     Ok (pool_lookup g' ''y'', pool_lookup g' ''z'', pool_get g' 1)))))) =
   Ok (Some 1, Some 1, Some ''z'')"
  by (simp add: pool_from_iter_def pool_new_def pool_intern_def pool_child_def pool_get.simps
                TOMBSTONE_KEY_def)



end
