(* ===== verification/Entity_Data.thy ===== *)
theory Entity_Data
  imports Interner Entity_Id
begin

text \<open>
  Entities, the second part of \<open>graph/src/data/store/mod.rs\<close>: an entity is an \<open>Object<Value>\<close>.
  Its row version \<open>vid\<close> is an attribute that the accessors hide and that comparisons ignore.
  The lemmas describe every operation through the map of visible attributes.
\<close>

section \<open>Types of fields\<close>

text \<open>GraphQL types and the field descriptions of \<open>graph/src/schema/input/mod.rs\<close>.\<close>

datatype gql_type = NamedType string | ListType gql_type | NonNullType gql_type

fun get_base_type :: "gql_type \<Rightarrow> string" where
  "get_base_type (NamedType n) = n"
| "get_base_type (NonNullType t) = get_base_type t"
| "get_base_type (ListType t) = get_base_type t"

fun is_list :: "gql_type \<Rightarrow> bool" where
  "is_list (NamedType _) = False"
| "is_list (NonNullType t) = is_list t"
| "is_list (ListType _) = True"

fun is_non_null :: "gql_type \<Rightarrow> bool" where
  "is_non_null (NonNullType _) = True"
| "is_non_null _ = False"

record field =
  f_name :: string
  f_field_type :: gql_type
  f_value_type :: value_type
  f_derived_from :: "string option"

definition is_derived :: "field \<Rightarrow> bool" where
  "is_derived f \<longleftrightarrow> f_derived_from f \<noteq> None"

definition POI_OBJECT :: string where
  "POI_OBJECT = ''Poi$''"

definition VID_FIELD :: string where
  "VID_FIELD = ''vid''"

section \<open>Entities\<close>

type_synonym 'd entity = "'d Value obj"

text \<open>
  \<open>EntityValidationErrorInner\<close>. Where the code puts the printed value into the message, the
  error has the value itself.
\<close>

datatype 'd entity_error =
    UnknownEntityType entity_type Id
  | MismatchedElementTypeInList entity_key string gql_type "'d Value" string nat
  | InvalidFieldType entity_key "'d Value" string gql_type string
  | MissingValueForNonNullableField entity_key string
  | CannotSetDerivedField entity_key string
  | UnknownKey string
  | MissingIDAttribute
  | UnsupportedTypeForIDAttribute

definition entity_get :: "'d entity \<Rightarrow> string \<Rightarrow> 'd Value option" where
  "entity_get e k = (if k = VID_FIELD then None else obj_get e k)"

definition entity_contains_key :: "'d entity \<Rightarrow> string \<Rightarrow> bool" where
  "entity_contains_key e k = (if k = VID_FIELD then False else obj_contains_key e k)"

definition entity_into_iter :: "'d entity \<Rightarrow> ((string \<times> 'd Value) list, intern_error) outcome" where
  "entity_into_iter e = map_ok (filter (\<lambda>(k, _). k \<noteq> VID_FIELD)) (obj_iter e)"

definition entity_sorted :: "'d entity \<Rightarrow> ((string \<times> 'd Value) list, intern_error) outcome" where
  "entity_sorted e = map_ok (\<lambda>kvs. sort_key fst (filter (\<lambda>(k, _). k \<noteq> VID_FIELD) kvs)) (obj_iter e)"

definition check_id :: "'d entity \<Rightarrow> (unit, 'd entity_error) outcome" where
  "check_id e =
     (case entity_get e ''id'' of
        None \<Rightarrow> Err MissingIDAttribute
      | Some (StringV _) \<Rightarrow> Ok ()
      | Some (BytesV _) \<Rightarrow> Ok ()
      | Some (Int8V _) \<Rightarrow> Ok ()
      | _ \<Rightarrow> Err UnsupportedTypeForIDAttribute)"

fun not_interned :: "intern_error \<Rightarrow> string" where
  "not_interned (NotInterned s) = s"

definition entity_make ::
  "atom_pool arc \<Rightarrow> (string \<times> 'd Value) list \<Rightarrow> ('d entity, 'd entity_error) outcome" where
  "entity_make pool kvs =
     and_then
       (try_fold (\<lambda>ob (k, v). map_ok snd (map_err (\<lambda>e. UnknownKey (not_interned e)) (obj_insert ob k v)))
          (obj_new pool) kvs)
       (\<lambda>e. map_ok (\<lambda>_. e) (check_id e))"

text \<open>\<open>try_make\<close> takes pairs that may themselves be errors; its errors are \<open>anyhow\<close> errors.\<close>

datatype ('d, 'e) make_error = PairError 'e | UnknownAttributeError string | IdError "'d entity_error"

definition entity_try_make ::
  "atom_pool arc \<Rightarrow> (string \<times> 'd Value, 'e) outcome list \<Rightarrow> ('d entity, ('d, 'e) make_error) outcome" where
  "entity_try_make pool pairs =
     and_then
       (try_fold (\<lambda>ob pair. and_then (map_err PairError pair) (\<lambda>(k, v).
          map_ok snd (map_err (\<lambda>e. UnknownAttributeError (not_interned e)) (obj_insert ob k v))))
          (obj_new pool) pairs)
       (\<lambda>e. map_ok (\<lambda>_. e) (map_err IdError (check_id e)))"

definition entity_id :: "'d entity \<Rightarrow> (Id, intern_error) outcome" where
  "entity_id e =
     (case entity_get e ''id'' of
        None \<Rightarrow> Panic ''called Option::unwrap() on a None value''
      | Some v \<Rightarrow>
          (case id_try_from_value v of
             Ok i \<Rightarrow> Ok i
           | _ \<Rightarrow> Panic ''the id is set to a valid value''))"

definition entity_vid :: "'d entity \<Rightarrow> (64 word, intern_error) outcome" where
  "entity_vid e =
     (case obj_get e VID_FIELD of
        None \<Rightarrow> Panic ''the vid must be set''
      | Some v \<Rightarrow>
          (case as_int8 v of
             None \<Rightarrow> Panic ''the vid must be set to a valid value''
           | Some n \<Rightarrow> Ok n))"

definition entity_set_vid :: "'d entity \<Rightarrow> 64 word \<Rightarrow> ('d Value option \<times> 'd entity, intern_error) outcome" where
  "entity_set_vid e n = obj_insert e VID_FIELD (Int8V n)"

definition entity_merge :: "'d entity \<Rightarrow> 'd entity \<Rightarrow> ('d entity, intern_error) outcome" where
  "entity_merge e update = obj_merge e update"

definition merge_remove_step ::
  "bool \<times> 'd entity \<Rightarrow> string \<times> 'd Value \<Rightarrow> (bool \<times> 'd entity, intern_error) outcome" where
  "merge_remove_step = (\<lambda>(changed, e) (k, v).
     let is_vid = (k = VID_FIELD) in
     case v of
       NullV \<Rightarrow>
         (let (old, e') = obj_remove NullV e k
          in Ok (changed \<or> (old \<noteq> None \<and> \<not> is_vid), e'))
     | _ \<Rightarrow>
         (let different = (case obj_get e k of None \<Rightarrow> True | Some old \<Rightarrow> old \<noteq> v)
          in map_ok (\<lambda>r. (changed \<or> (different \<and> \<not> is_vid), snd r)) (obj_insert e k v)))"

definition merge_remove_null_fields ::
  "'d entity \<Rightarrow> 'd entity \<Rightarrow> (bool \<times> 'd entity, intern_error) outcome" where
  "merge_remove_null_fields e update =
     and_then (obj_iter update) (\<lambda>kvs. try_fold merge_remove_step (False, e) kvs)"

definition remove_null_fields :: "'d entity \<Rightarrow> ('d entity, intern_error) outcome" where
  "remove_null_fields e = obj_retain e (\<lambda>_ v. \<not> is_null v)"

definition merge_iter :: "'d entity \<Rightarrow> (string \<times> 'd Value) list \<Rightarrow> ('d entity, intern_error) outcome" where
  "merge_iter e kvs = try_fold (\<lambda>ob (k, v). map_ok snd (obj_insert ob k v)) e kvs"

definition entity_eq :: "'d entity \<Rightarrow> 'd entity \<Rightarrow> (bool, intern_error) outcome" where
  "entity_eq a b = obj_eq_ignore_key a b VID_FIELD"

section \<open>Validation\<close>

definition validate_field :: "'d entity \<Rightarrow> entity_key \<Rightarrow> field \<Rightarrow> (unit, 'd entity_error) outcome" where
  "validate_field e key f =
     (case (entity_get e (f_name f), is_derived f) of
        (Some v, False) \<Rightarrow>
          (let bad = (if is_list (f_field_type f)
                      then (case v of
                              ListV elts \<Rightarrow> find (\<lambda>(_, elt). \<not> is_assignable elt (f_value_type f) False) (enumerate 0 elts)
                            | _ \<Rightarrow> None)
                      else None)
           in case bad of
                Some (index, elt) \<Rightarrow>
                  Err (MismatchedElementTypeInList key (f_name f) (f_field_type f) v (type_name elt) index)
              | None \<Rightarrow>
                  (if \<not> is_assignable v (f_value_type f) (is_list (f_field_type f))
                   then Err (InvalidFieldType key v (f_name f) (f_field_type f) (type_name v))
                   else Ok ()))
      | (None, False) \<Rightarrow>
          (if is_non_null (f_field_type f) then Err (MissingValueForNonNullableField key (f_name f)) else Ok ())
      | (Some _, True) \<Rightarrow> Err (CannotSetDerivedField key (f_name f))
      | (None, True) \<Rightarrow> Ok ())"

text \<open>\<open>object_type\<close> gives the fields of an object type of the schema, if it has such a type.\<close>

definition entity_validate ::
  "(entity_type \<Rightarrow> field list option) \<Rightarrow> 'd entity \<Rightarrow> entity_key \<Rightarrow> (unit, 'd entity_error) outcome" where
  "entity_validate object_type e key =
     (if k_entity_type key = POI_OBJECT then Ok ()
      else (case object_type (k_entity_type key) of
              None \<Rightarrow> Err (UnknownEntityType (k_entity_type key) (k_entity_id key))
            | Some fs \<Rightarrow> try_fold (\<lambda>_ f. validate_field e key f) () fs))"

section \<open>Lemmas\<close>

lemma entity_get_vid [simp]: "entity_get e VID_FIELD = None"
  by (simp add: entity_get_def)

lemma id_not_vid [simp]: "''id'' \<noteq> VID_FIELD"
  by (simp add: VID_FIELD_def)

lemma entity_get_upd: "entity_get e = (obj_get e)(VID_FIELD := None)"
  by (auto simp: entity_get_def)

text \<open>Inserting pairs with a conversion of the errors.\<close>

lemma insert_all_map_err:
  "try_fold (\<lambda>ob (k, v). map_ok snd (map_err h (obj_insert ob k v))) ob kvs = map_err h (merge_iter ob kvs)"
proof (induction kvs arbitrary: ob)
  case (Cons kv kvs)
  obtain k v where "kv = (k, v)" by (cases kv)
  with Cons show ?case by (cases "obj_insert ob k v") (simp_all add: merge_iter_def)
qed (simp add: merge_iter_def)

lemma merge_remove_step_law:
  assumes "obj_wf e" "v \<noteq> NullV \<Longrightarrow> known e k"
  shows "\<exists>e'. merge_remove_step (c, e) (k, v) = Ok (c \<or> (k \<noteq> VID_FIELD \<and> obj_get e' k \<noteq> obj_get e k), e') \<and>
           obj_wf e' \<and> obj_pool e' = obj_pool e \<and>
           obj_get e' = (obj_get e)(k := if v = NullV then None else Some v)"
proof (cases "v = NullV")
  case True
  obtain e' where "obj_remove NullV e k = (obj_get e k, e')" "obj_wf e'" "obj_pool e' = obj_pool e"
    "obj_get e' = (obj_get e)(k := None)"
    using obj_remove_law [OF assms(1)] by blast
  with True show ?thesis by (cases "obj_get e k") (auto simp: merge_remove_step_def)
next
  case False
  then obtain e' where "obj_insert e k v = Ok (obj_get e k, e')" "obj_wf e'" "obj_pool e' = obj_pool e"
    "obj_get e' = (obj_get e)(k \<mapsto> v)"
    using obj_insert_known [OF assms(1)] assms(2) by blast
  with False show ?thesis
    by (intro exI [of _ e']) (auto simp: merge_remove_step_def Let_def split: Value.split option.split)
qed

text \<open>What an update with nulls does to a map.\<close>

definition apply_changes :: "(string \<rightharpoonup> 'd Value) \<Rightarrow> (string \<rightharpoonup> 'd Value) \<Rightarrow> (string \<rightharpoonup> 'd Value)" where
  "apply_changes m u = (\<lambda>k. case u k of None \<Rightarrow> m k | Some v \<Rightarrow> if v = NullV then None else Some v)"

lemma merge_remove_fold:
  assumes "obj_wf e" "distinct (map fst kvs)" "\<forall>(k, v) \<in> set kvs. v \<noteq> NullV \<longrightarrow> known e k"
  shows "\<exists>e'. try_fold merge_remove_step (c, e) kvs =
             Ok (c \<or> (\<exists>k. k \<noteq> VID_FIELD \<and> obj_get e' k \<noteq> obj_get e k), e') \<and>
           obj_wf e' \<and> obj_pool e' = obj_pool e \<and> obj_get e' = apply_changes (obj_get e) (map_of kvs)"
  using assms
proof (induction kvs arbitrary: e c)
  case Nil
  then show ?case by (auto simp: apply_changes_def)
next
  case (Cons kv kvs)
  obtain k v where kv: "kv = (k, v)" by (cases kv)
  obtain e1 where 1: "merge_remove_step (c, e) (k, v) = Ok (c \<or> (k \<noteq> VID_FIELD \<and> obj_get e1 k \<noteq> obj_get e k), e1)"
    "obj_wf e1" "obj_pool e1 = obj_pool e" "obj_get e1 = (obj_get e)(k := if v = NullV then None else Some v)"
    using merge_remove_step_law [of e v k c] Cons.prems kv by auto
  let ?c = "c \<or> (k \<noteq> VID_FIELD \<and> obj_get e1 k \<noteq> obj_get e k)"
  have "\<forall>(k, v) \<in> set kvs. v \<noteq> NullV \<longrightarrow> known e1 k"
    using Cons.prems(3) 1(3) by (auto simp: known_def)
  then obtain e2 where 2: "try_fold merge_remove_step (?c, e1) kvs =
        Ok (?c \<or> (\<exists>k. k \<noteq> VID_FIELD \<and> obj_get e2 k \<noteq> obj_get e1 k), e2)"
    "obj_wf e2" "obj_pool e2 = obj_pool e1" "obj_get e2 = apply_changes (obj_get e1) (map_of kvs)"
    using Cons.IH [OF 1(2), of ?c] Cons.prems(2) by auto
  have k: "map_of kvs k = None" using Cons.prems(2) kv by (simp add: map_of_eq_None_iff)
  then have "obj_get e2 = apply_changes (obj_get e) (map_of (kv # kvs))"
    using 1(4) 2(4) kv by (auto simp: apply_changes_def fun_eq_iff split: option.split)
  moreover have "obj_get e2 k = obj_get e1 k" using 2(4) k by (simp add: apply_changes_def)
  then have "(?c \<or> (\<exists>j. j \<noteq> VID_FIELD \<and> obj_get e2 j \<noteq> obj_get e1 j)) =
      (c \<or> (\<exists>j. j \<noteq> VID_FIELD \<and> obj_get e2 j \<noteq> obj_get e j))"
    using 1(4) by (metis fun_upd_other)
  ultimately show ?case using 1(1,3) 2(1-3) kv by (simp del: fun_upd_apply)
qed

lemma merge_remove_null_fields_law:
  assumes "obj_wf e" "obj_wf u" "\<And>k v. obj_get u k = Some v \<Longrightarrow> v \<noteq> NullV \<Longrightarrow> known e k"
  shows "\<exists>e'. merge_remove_null_fields e u = Ok (entity_get e' \<noteq> entity_get e, e') \<and>
           obj_wf e' \<and> obj_pool e' = obj_pool e \<and> obj_get e' = apply_changes (obj_get e) (obj_get u)"
proof -
  obtain kvs where kvs: "obj_iter u = Ok kvs" "map_of kvs = obj_get u" "distinct (map fst kvs)"
    using assms(2) by (rule obj_iter_ok)
  have "\<forall>(k, v) \<in> set kvs. v \<noteq> NullV \<longrightarrow> known e k"
    using assms(3) kvs(3) by (auto simp flip: kvs(2) simp: map_of_eq_Some_iff)
  then obtain e' where e': "try_fold merge_remove_step (False, e) kvs =
        Ok (\<exists>k. k \<noteq> VID_FIELD \<and> obj_get e' k \<noteq> obj_get e k, e')"
      "obj_wf e'" "obj_pool e' = obj_pool e" "obj_get e' = apply_changes (obj_get e) (obj_get u)"
    using merge_remove_fold [OF assms(1) kvs(3), of False] kvs(2) by auto
  have "(\<exists>k. k \<noteq> VID_FIELD \<and> obj_get e' k \<noteq> obj_get e k) \<longleftrightarrow> entity_get e' \<noteq> entity_get e"
    by (auto simp: entity_get_def fun_eq_iff)
  with e' kvs(1) show ?thesis by (auto simp: merge_remove_null_fields_def)
qed

lemma apply_changes_add: "apply_changes m (a ++ b) = apply_changes (apply_changes m a) b"
  by (auto simp: apply_changes_def map_add_def split: option.split)

lemma apply_changes_empty [simp]: "apply_changes m Map.empty = m"
  by (simp add: apply_changes_def)

lemma remove_null_fields_law:
  assumes "obj_wf e"
  shows "\<exists>e'. remove_null_fields e = Ok e' \<and> obj_wf e' \<and> obj_pool e' = obj_pool e \<and>
           obj_get e' = apply_changes Map.empty (obj_get e)"
proof -
  have "(\<lambda>k. case obj_get e k of None \<Rightarrow> None | Some v \<Rightarrow> if \<not> is_null v then Some v else None) =
      apply_changes Map.empty (obj_get e)"
    by (auto simp: apply_changes_def fun_eq_iff split: option.split)
  with obj_retain_law [OF assms, of "\<lambda>_ v. \<not> is_null v"] show ?thesis
    by (simp add: remove_null_fields_def)
qed

lemma entity_sorted_ok:
  assumes "obj_wf e"
  obtains kvs where "entity_sorted e = Ok kvs" "map_of kvs = entity_get e" "distinct (map fst kvs)"
    "sorted (map fst kvs)"
proof -
  obtain l where l: "obj_iter e = Ok l" "map_of l = obj_get e" "distinct (map fst l)"
    using assms by (rule obj_iter_ok)
  define kvs where "kvs = sort_key fst (filter (\<lambda>(k, _). k \<noteq> VID_FIELD) l)"
  have d: "distinct (map fst (filter (\<lambda>(k, _). k \<noteq> VID_FIELD) l))"
    using l(3) by (rule distinct_map_filter)
  have "mset (map fst kvs) = mset (map fst (filter (\<lambda>(k, _). k \<noteq> VID_FIELD) l))" by (simp add: kvs_def)
  then have d': "distinct (map fst kvs)" using d by (metis mset_eq_imp_distinct_iff)
  have "map_of kvs = map_of (filter (\<lambda>(k, _). k \<noteq> VID_FIELD) l)"
    using d d' by (subst map_of_inject_set) (simp_all add: kvs_def)
  also have "\<dots> = entity_get e"
  proof
    fix k
    have "map_of (filter (\<lambda>(k, _). k \<noteq> VID_FIELD) l) k = (if k = VID_FIELD then None else map_of l k)"
      by (induction l) auto
    then show "map_of (filter (\<lambda>(k, _). k \<noteq> VID_FIELD) l) k = entity_get e k"
      using l(2) by (simp add: entity_get_def)
  qed
  finally show ?thesis
    using that [of kvs] d' l(1) by (simp add: entity_sorted_def kvs_def)
qed

lemma sorted_pairs_unique:
  assumes "distinct (map fst xs)" "distinct (map fst ys)" "sorted (map fst xs)" "sorted (map fst ys)"
  shows "xs = ys \<longleftrightarrow> map_of xs = map_of ys"
proof
  assume "map_of xs = map_of ys"
  then have "set xs = set ys" using assms(1,2) by (simp add: map_of_inject_set)
  then show "xs = ys"
    using assms by (intro map_sorted_distinct_set_unique [of fst xs ys]) (auto simp: distinct_map)
qed simp

lemma validate_field_ok:
  "validate_field e key f = Ok () \<longleftrightarrow>
     (if is_derived f then entity_get e (f_name f) = None
      else (case entity_get e (f_name f) of
              None \<Rightarrow> \<not> is_non_null (f_field_type f)
            | Some v \<Rightarrow> is_assignable v (f_value_type f) (is_list (f_field_type f))))"
proof (cases "entity_get e (f_name f)")
  case (Some v)
  show ?thesis
  proof (cases "is_list (f_field_type f) \<and> (\<exists>elts. v = ListV elts)")
    case True
    then obtain elts where v: "v = ListV elts" by blast
    show ?thesis
    proof (cases "find (\<lambda>(_, elt). \<not> is_assignable elt (f_value_type f) False) (enumerate 0 elts)")
      case None
      then show ?thesis using Some True v by (auto simp: validate_field_def)
    next
      case bad: (Some p)
      then have "snd p \<in> set elts \<and> \<not> is_assignable (snd p) (f_value_type f) False"
        by (auto dest!: find_Some_mem simp: in_set_enumerate_eq split: prod.splits)
      then show ?thesis
        using Some True v bad is_assignable_list [of elts "f_value_type f"]
        by (auto simp: validate_field_def split: prod.splits)
    qed
  next
    case False
    then show ?thesis
      using Some by (auto simp: validate_field_def Let_def split: Value.split)
  qed
qed (auto simp: validate_field_def)

lemma try_fold_unit: "try_fold (\<lambda>_ x. f x) () xs = Ok () \<longleftrightarrow> (\<forall>x \<in> set xs. f x = Ok ())"
  by (induction xs) (auto simp: outcome_simps)

lemma merge_iter_law:
  assumes "obj_wf e" "find (\<lambda>(k, v). pool_lookup (arc_get (obj_pool e)) k = None) kvs = None"
  shows "\<exists>e'. merge_iter e kvs = Ok e' \<and> obj_wf e' \<and> obj_pool e' = obj_pool e \<and>
           obj_get e' = obj_get e ++ map_of (rev kvs)"
proof -
  have "\<forall>(k, v) \<in> set kvs. pool_lookup (arc_get (obj_pool e)) k \<noteq> None"
    using assms(2) by (auto simp: find_None_iff)
  with attrs.ins_all [OF assms(1)] show ?thesis by (simp add: merge_iter_def)
qed

lemma check_id_value:
  assumes "entity_get e ''id'' = Some v"
  shows "check_id e = (if \<exists>i. v = value_from_id i then Ok () else Err UnsupportedTypeForIDAttribute)"
proof -
  have "(\<exists>i. v = value_from_id i) \<longleftrightarrow> is_ok (id_try_from_value v)"
    by (auto simp: is_ok_iff id_try_from_value_iff)
  with assms show ?thesis by (cases v) (simp_all add: check_id_def)
qed

section \<open>Properties\<close>

text \<open>
  Construction. An entity can be made from a list of pairs exactly when the pool knows all
  keys and the last value for \<open>id\<close> is a string, a byte array or an \<open>Int8\<close>. The first unknown key, a
  missing id and an id of another type are the three errors. The entity then has exactly these
  attributes, the last value of a key winning, and its \<open>id\<close> is that value.
\<close>

lemma entity_make_correct:
  assumes "pool_wf (arc_get pool)"
  shows "case find (\<lambda>(k, v). pool_lookup (arc_get pool) k = None) kvs of
      Some (k, _) \<Rightarrow> entity_make pool kvs = Err (UnknownKey k)
    | None \<Rightarrow>
        (case map_of (rev kvs) ''id'' of
           None \<Rightarrow> entity_make pool kvs = Err MissingIDAttribute
         | Some v \<Rightarrow>
             (if \<exists>i. v = value_from_id i
              then \<exists>e. entity_make pool kvs = Ok e \<and> obj_wf e \<and> obj_get e = map_of (rev kvs) \<and>
                       map_ok value_from_id (entity_id e) = Ok v
              else entity_make pool kvs = Err UnsupportedTypeForIDAttribute))"
proof (cases "find (\<lambda>(k, v). pool_lookup (arc_get pool) k = None) kvs")
  case (Some kv)
  then obtain k v where kv: "kv = (k, v)" by (cases kv)
  have "merge_iter (obj_new pool) kvs = Err (NotInterned k)"
    unfolding merge_iter_def
    by (rule attrs.ins_all_unknown) (use Some kv assms in \<open>simp_all add: obj_new_wf\<close>)
  with Some kv show ?thesis by (simp add: entity_make_def insert_all_map_err)
next
  case None
  then obtain e where e: "merge_iter (obj_new pool) kvs = Ok e" "obj_wf e" "obj_get e = map_of (rev kvs)"
    using merge_iter_law [of "obj_new pool" kvs] assms by (auto simp: obj_new_wf obj_get_new)
  have m: "entity_make pool kvs = map_ok (\<lambda>_. e) (check_id e)"
    using e(1) by (simp add: entity_make_def insert_all_map_err)
  have g: "entity_get e ''id'' = map_of (rev kvs) ''id''" using e(3) by (simp add: entity_get_def)
  show ?thesis
  proof (cases "map_of (rev kvs) ''id''")
    case (Some v)
    have "entity_id e = Ok i" if "v = value_from_id i" for i
      using that Some g by (simp add: entity_id_def id_value_roundtrip)
    with None Some m e g show ?thesis
      by (simp add: check_id_value) (metis map_ok.simps(1))
  qed (use None m g in \<open>simp add: check_id_def\<close>)
qed

text \<open>
  A pool with the attributes \<open>id\<close>, \<open>name\<close> and \<open>vid\<close>.
\<close>

definition example_pool :: atom_pool where
  "example_pool = AtomPool None 0 [''id'', ''name'', ''vid''] [''id'' \<mapsto> 0, ''name'' \<mapsto> 1, ''vid'' \<mapsto> 2]"

lemma example_pool_ok: "pool_from_iter [''id'', ''name'', ''vid''] = Ok example_pool"
  by (simp add: pool_from_iter_def pool_new_def pool_intern_new example_pool_def)

lemma example_pool_wf: "pool_wf example_pool"
  using pool_from_iter_wf [OF example_pool_ok] by blast

lemma example_lookup:
  "pool_lookup example_pool k =
     (if k = ''id'' then Some 0 else if k = ''name'' then Some 1 else if k = ''vid'' then Some 2 else None)"
  by (simp add: example_pool_def)

lemma entity_make_correct_witness:
  "(\<exists>e :: nat entity. entity_make (Arc 0 example_pool) [(''id'', StringV ''a''), (''id'', Int8V 5)] = Ok e \<and>
        map_ok value_from_id (entity_id e) = Ok (Int8V 5 :: nat Value)) \<and>
   entity_make (Arc 0 example_pool) [(''id'', StringV ''a''), (''colour'', NullV)] = Err (UnknownKey ''colour'' :: nat entity_error) \<and>
   entity_make (Arc 0 example_pool) [(''name'', StringV ''a'')] = Err (MissingIDAttribute :: nat entity_error)"
proof -
  have "\<exists>i. Int8V 5 = (value_from_id i :: nat Value)" by (rule exI [of _ "Int8Id 5"]) simp
  then have "\<exists>e :: nat entity. entity_make (Arc 0 example_pool) [(''id'', StringV ''a''), (''id'', Int8V 5)] = Ok e \<and>
        obj_wf e \<and> obj_get e = [''id'' \<mapsto> Int8V 5] \<and> map_ok value_from_id (entity_id e) = Ok (Int8V 5 :: nat Value)"
    using entity_make_correct [of "Arc 0 example_pool" "[(''id'', StringV ''a''), (''id'', Int8V 5 :: nat Value)]"]
    by (simp add: example_pool_wf example_lookup)
  moreover have "entity_make (Arc 0 example_pool) [(''id'', StringV ''a''), (''colour'', NullV)] = Err (UnknownKey ''colour'' :: nat entity_error)"
    using entity_make_correct [of "Arc 0 example_pool" "[(''id'', StringV ''a''), (''colour'', NullV :: nat Value)]"]
    by (simp add: example_pool_wf example_lookup)
  moreover have "entity_make (Arc 0 example_pool) [(''name'', StringV ''a'')] = Err (MissingIDAttribute :: nat entity_error)"
    using entity_make_correct [of "Arc 0 example_pool" "[(''name'', StringV ''a'' :: nat Value)]"]
    by (simp add: example_pool_wf example_lookup)
  ultimately show ?thesis by blast
qed

lemma example_entity:
  fixes kvs :: "(string \<times> 'd Value) list"
  assumes "\<forall>(k, v) \<in> set kvs. k \<in> {''id'', ''name'', ''vid''}"
  obtains e :: "'d entity" where "obj_wf e" "obj_pool e = Arc n example_pool" "obj_get e = map_of (rev kvs)"
proof -
  have "find (\<lambda>(k, v). pool_lookup example_pool k = None) kvs = None"
    using assms by (auto simp: find_None_iff example_lookup)
  then show ?thesis
    using merge_iter_law [of "obj_new (Arc n example_pool)" kvs] that
    by (auto simp: obj_new_wf obj_get_new example_pool_wf)
qed

text \<open>
  C26 (merging an update and dropping nulls). If the pool of the entity knows the keys of the update
  that are not null, the merge succeeds: keys that the update does not have keep their value,
  keys that it sets to null are removed, all others get the value of the update. The returned
  flag says whether an attribute other than \<open>vid\<close> changed.
\<close>

theorem merge_remove_null_fields_correct:
  assumes "obj_wf e" "obj_wf u" "\<And>k v. obj_get u k = Some v \<Longrightarrow> v \<noteq> NullV \<Longrightarrow> known e k"
  shows "\<exists>e'. merge_remove_null_fields e u = Ok (entity_get e' \<noteq> entity_get e, e') \<and> obj_wf e' \<and>
           (\<forall>k. obj_get e' k =
              (case obj_get u k of None \<Rightarrow> obj_get e k | Some NullV \<Rightarrow> None | Some v \<Rightarrow> Some v))"
proof -
  have "apply_changes m c k = (case c k of None \<Rightarrow> m k | Some NullV \<Rightarrow> None | Some v \<Rightarrow> Some v)" for m c :: "string \<rightharpoonup> 'a Value" and k
    by (simp add: apply_changes_def split: option.split Value.split)
  moreover obtain e' where "merge_remove_null_fields e u = Ok (entity_get e' \<noteq> entity_get e, e')" "obj_wf e'"
    "obj_get e' = apply_changes (obj_get e) (obj_get u)"
    using merge_remove_null_fields_law [OF assms(1,2)] assms(3) by blast
  ultimately show ?thesis by (intro exI [of _ e']) simp
qed

lemma merge_remove_null_fields_correct_witness:
  "\<exists>e u e' :: nat entity. obj_get e = [''id'' \<mapsto> StringV ''a'', ''name'' \<mapsto> IntV 1, ''vid'' \<mapsto> Int8V 7] \<and>
     obj_get u = [''name'' \<mapsto> NullV, ''vid'' \<mapsto> Int8V 8] \<and>
     merge_remove_null_fields e u = Ok (True, e') \<and>
     obj_get e' ''name'' = None \<and> obj_get e' ''vid'' = Some (Int8V 8) \<and> obj_get e' ''id'' = Some (StringV ''a'')"
proof -
  obtain e :: "nat entity" where e: "obj_wf e" "obj_pool e = Arc 0 example_pool"
    "obj_get e = [''id'' \<mapsto> StringV ''a'', ''name'' \<mapsto> IntV 1, ''vid'' \<mapsto> Int8V 7]"
    using example_entity [of "[(''id'', StringV ''a''), (''name'', IntV 1), (''vid'', Int8V 7)]" 0] by auto
  obtain u :: "nat entity" where u: "obj_wf u" "obj_get u = [''name'' \<mapsto> NullV, ''vid'' \<mapsto> Int8V 8]"
    using example_entity [of "[(''name'', NullV), (''vid'', Int8V 8)]" 0] by auto
  have "known e k" if "obj_get u k = Some v" "v \<noteq> NullV" for k v
    using that e(2) u(2) by (auto simp: known_def example_lookup split: if_splits)
  then obtain e' where e': "merge_remove_null_fields e u = Ok (entity_get e' \<noteq> entity_get e, e')"
    "\<forall>k. obj_get e' k = (case obj_get u k of None \<Rightarrow> obj_get e k | Some NullV \<Rightarrow> None | Some v \<Rightarrow> Some v)"
    using merge_remove_null_fields_correct [OF e(1) u(1)] by blast
  then have g: "obj_get e' ''name'' = None" "obj_get e' ''vid'' = Some (Int8V 8)" "obj_get e' ''id'' = Some (StringV ''a'')"
    using e(3) u(2) by simp_all
  then have "entity_get e' ''name'' \<noteq> entity_get e ''name''" using e(3) by (simp add: entity_get_def VID_FIELD_def)
  then have "(entity_get e' \<noteq> entity_get e) = True" by auto
  with e'(1) g e(3) u(2) show ?thesis
    by (intro exI [of _ e] exI [of _ u] exI [of _ e'] conjI) simp_all
qed

text \<open>
  C28 (equality and the sorted form). Comparing two entities never panics, ignores \<open>vid\<close>, and says
  \<open>true\<close> exactly when their sorted attribute lists are the same. The sorted list has every visible
  attribute once, in ascending order of the names.
\<close>

theorem entity_eq_sorted:
  assumes "obj_wf a" "obj_wf b" "coherent a b"
  shows "\<exists>as bs. entity_sorted a = Ok as \<and> entity_sorted b = Ok bs \<and> entity_eq a b = Ok (as = bs) \<and>
           map_of as = entity_get a \<and> sorted (map fst as) \<and> distinct (map fst as)"
proof -
  obtain as where as: "entity_sorted a = Ok as" "map_of as = entity_get a" "distinct (map fst as)" "sorted (map fst as)"
    using assms(1) by (rule entity_sorted_ok)
  obtain bs where bs: "entity_sorted b = Ok bs" "map_of bs = entity_get b" "distinct (map fst bs)" "sorted (map fst bs)"
    using assms(2) by (rule entity_sorted_ok)
  have "entity_eq a b = Ok (entity_get a = entity_get b)"
    unfolding entity_eq_def entity_get_upd by (rule obj_eq_ignore_key_law [OF assms])
  with as bs show ?thesis by (simp add: sorted_pairs_unique)
qed

lemma entity_eq_sorted_witness:
  "\<exists>a b :: nat entity. obj_get a \<noteq> obj_get b \<and> entity_eq a b = Ok True \<and>
     entity_sorted a = entity_sorted b"
proof -
  obtain a :: "nat entity" where a: "obj_wf a" "obj_pool a = Arc 0 example_pool" "obj_get a = [''id'' \<mapsto> Int8V 1, ''vid'' \<mapsto> Int8V 7]"
    using example_entity [of "[(''id'', Int8V 1), (''vid'', Int8V 7)]" 0] by auto
  obtain b :: "nat entity" where b: "obj_wf b" "obj_pool b = Arc 1 example_pool" "obj_get b = [''id'' \<mapsto> Int8V 1, ''vid'' \<mapsto> Int8V 8]"
    using example_entity [of "[(''id'', Int8V 1), (''vid'', Int8V 8)]" 1] by auto
  have "coherent a b" using a(2) b(2) by (simp add: coherent_def same_pool_def)
  then obtain as bs where *: "entity_sorted a = Ok as" "entity_sorted b = Ok bs" "entity_eq a b = Ok (as = bs)"
    "map_of as = entity_get a" "sorted (map fst as)" "distinct (map fst as)"
    using entity_eq_sorted [OF a(1) b(1)] by blast
  have "entity_get a = entity_get b" using a(3) b(3) by (auto simp: entity_get_upd VID_FIELD_def)
  moreover have "coherent b a" using a(2) b(2) by (simp add: coherent_def same_pool_def)
  ultimately have "as = bs"
    using * entity_eq_sorted [OF b(1) a(1)] by (auto simp: sorted_pairs_unique)
  moreover have "obj_get a \<noteq> obj_get b" using a(3) b(3) by (auto dest: fun_cong [of _ _ "''vid''"])
  ultimately show ?thesis
    using *(1-3) by (intro exI [of _ a] exI [of _ b]) simp
qed


text \<open>
  Merging. If the pool of the entity knows the attributes of the update, merging succeeds and
  every attribute of the update wins, null or not, whether or not the two share their pool.
\<close>

lemma entity_merge_correct:
  assumes "obj_wf e" "obj_wf u" "coherent e u" "dom (obj_get u) \<subseteq> {k. known e k}"
  shows "\<exists>e'. entity_merge e u = Ok e' \<and> obj_wf e' \<and> obj_pool e' = obj_pool e \<and>
           obj_get e' = obj_get e ++ obj_get u"
  unfolding entity_merge_def by (rule obj_merge_law [OF assms])

lemma entity_merge_correct_witness:
  "\<exists>e u e' :: nat entity. obj_get e = [''id'' \<mapsto> IntV 1, ''name'' \<mapsto> IntV 1] \<and> obj_get u = [''name'' \<mapsto> NullV] \<and>
     \<not> same_pool e u \<and> entity_merge e u = Ok e' \<and> obj_get e' = [''id'' \<mapsto> IntV 1, ''name'' \<mapsto> NullV]"
proof -
  obtain e :: "nat entity" where e: "obj_wf e" "obj_pool e = Arc 0 example_pool" "obj_get e = [''id'' \<mapsto> IntV 1, ''name'' \<mapsto> IntV 1]"
    using example_entity [of "[(''id'', IntV 1), (''name'', IntV 1)]" 0] by auto
  obtain u :: "nat entity" where u: "obj_wf u" "obj_pool u = Arc 1 example_pool" "obj_get u = [''name'' \<mapsto> NullV]"
    using example_entity [of "[(''name'', NullV)]" 1] by auto
  have p: "coherent e u" "\<not> same_pool e u" using e(2) u(2) by (simp_all add: coherent_def same_pool_def)
  have "dom (obj_get u) \<subseteq> {k. known e k}" using e(2) u(3) by (simp add: known_def example_lookup)
  then obtain e' where "entity_merge e u = Ok e'" "obj_get e' = obj_get e ++ obj_get u"
    using entity_merge_correct [OF e(1) u(1) p(1)] by blast
  with e(3) u(3) p(2) show ?thesis
    by (intro exI [of _ e] exI [of _ u] exI [of _ e'] conjI) simp_all
qed

end
