(* ===== verification/Lfu_Cache.thy ===== *)
theory Lfu_Cache
  imports Prelude
begin

text \<open>
  The cache of \<open>graph/src/util/lfu_cache.rs\<close>: entries with a weight and a frequency, evicted when the
  cache is too heavy, stale entries first and then the least frequently used ones. Weights are \<open>usize\<close>
  values of a build without overflow checks and wrap around. The \<open>PriorityQueue\<close> that holds the entries
  is a third-party crate and a parameter, described by the laws \<open>pq_laws\<close>; the weights of keys and
  values are the methods of the trait \<open>CacheWeight\<close>. The locale \<open>lookup_cache\<close> is what users of the
  cache rely on.
\<close>

section \<open>Entries and priorities\<close>

type_synonym usize = "64 word"

record ('k, 'v) cache_entry =
  ce_weight :: usize
  ce_key :: 'k
  ce_value :: 'v
  ce_will_stale :: bool

text \<open>
  The pair \<open>(bool, Reverse<u64>)\<close> with the lexicographic order of its type: stale entries are greater
  than others, and a smaller frequency is greater than a larger one.
\<close>

datatype priority = Priority (p_stale: bool) (p_freq: nat)

instantiation priority :: linorder
begin

fun less_eq_priority :: "priority \<Rightarrow> priority \<Rightarrow> bool" where
  "less_eq_priority (Priority s f) (Priority t g) \<longleftrightarrow> (\<not> s \<and> t) \<or> (s = t \<and> g \<le> f)"

definition less_priority :: "priority \<Rightarrow> priority \<Rightarrow> bool" where
  "less_priority p q \<longleftrightarrow> p \<le> q \<and> \<not> q \<le> (p :: priority)"

instance
proof
  fix p q r :: priority
  show "p < q \<longleftrightarrow> p \<le> q \<and> \<not> q \<le> p" by (rule less_priority_def)
  show "p \<le> p" by (cases p) simp
  show "p \<le> q \<Longrightarrow> q \<le> r \<Longrightarrow> p \<le> r" by (cases p; cases q; cases r) auto
  show "p \<le> q \<Longrightarrow> q \<le> p \<Longrightarrow> p = q" by (cases p; cases q) auto
  show "p \<le> q \<or> q \<le> p" by (cases p; cases q) auto
qed

end

text \<open>
  The operations of \<open>PriorityQueue<CacheEntry<K, V>, Priority>\<close> that the cache calls. Two entries are
  equal for the queue when their keys are. Changing an entry in place (\<open>get_mut\<close>, \<open>iter_mut\<close>) takes the
  change as a function.
\<close>

record ('q, 'k, 'v) pq_ops =
  pq_new :: 'q
  pq_iter :: "'q \<Rightarrow> (('k, 'v) cache_entry \<times> priority) list"
  pq_push :: "'q \<Rightarrow> ('k, 'v) cache_entry \<Rightarrow> priority \<Rightarrow> 'q"
  pq_get :: "'q \<Rightarrow> ('k, 'v) cache_entry \<Rightarrow> (('k, 'v) cache_entry \<times> priority) option"
  pq_get_mut :: "'q \<Rightarrow> ('k, 'v) cache_entry \<Rightarrow> (('k, 'v) cache_entry \<Rightarrow> ('k, 'v) cache_entry) \<Rightarrow> 'q"
  pq_change_priority_by :: "'q \<Rightarrow> ('k, 'v) cache_entry \<Rightarrow> (priority \<Rightarrow> priority) \<Rightarrow> 'q"
  pq_change_priority :: "'q \<Rightarrow> ('k, 'v) cache_entry \<Rightarrow> priority \<Rightarrow> priority option \<times> 'q"
  pq_pop :: "'q \<Rightarrow> ((('k, 'v) cache_entry \<times> priority) \<times> 'q) option"
  pq_iter_mut :: "'q \<Rightarrow> (('k, 'v) cache_entry \<times> priority \<Rightarrow> ('k, 'v) cache_entry \<times> priority) \<Rightarrow> 'q"
  pq_extend :: "'q \<Rightarrow> (('k, 'v) cache_entry \<times> priority) list \<Rightarrow> 'q"

record ('q, 'k, 'v) lfu_env =
  le_pq :: "('q, 'k, 'v) pq_ops"
  le_key_weight :: "'k \<Rightarrow> usize"
  le_value_weight :: "'v \<Rightarrow> usize"
  le_default :: 'v
  le_entry_size :: usize
  le_cache_dead_weight :: bool

definition STALE_PERIOD :: nat where
  "STALE_PERIOD = 100"

definition cache_key :: "('q, 'k, 'v) lfu_env \<Rightarrow> 'k \<Rightarrow> ('k, 'v) cache_entry" where
  "cache_key env k = \<lparr>ce_weight = 0, ce_key = k, ce_value = le_default env, ce_will_stale = False\<rparr>"

definition entry_weight :: "('q, 'k, 'v) lfu_env \<Rightarrow> 'k \<Rightarrow> 'v \<Rightarrow> usize" where
  "entry_weight env k v = le_value_weight env v + le_key_weight env k"

section \<open>The cache\<close>

record 'q lfu_cache =
  lfu_queue :: 'q
  lfu_total_weight :: usize
  lfu_stale_counter :: nat
  lfu_dead_weight :: bool
  lfu_accesses :: nat
  lfu_hits :: nat

definition lfu_default :: "('q, 'k, 'v) lfu_env \<Rightarrow> 'q lfu_cache" where
  "lfu_default env =
     \<lparr>lfu_queue = pq_new (le_pq env), lfu_total_weight = 0, lfu_stale_counter = 0, lfu_dead_weight = False,
      lfu_accesses = 0, lfu_hits = 0\<rparr>"

definition lfu_new :: "('q, 'k, 'v) lfu_env \<Rightarrow> 'q lfu_cache" where
  "lfu_new env =
     \<lparr>lfu_queue = pq_new (le_pq env), lfu_total_weight = 0, lfu_stale_counter = 0,
      lfu_dead_weight = le_cache_dead_weight env, lfu_accesses = 0, lfu_hits = 0\<rparr>"

definition lfu_get_mut ::
  "('q, 'k, 'v) lfu_env \<Rightarrow> 'q lfu_cache \<Rightarrow> 'k \<Rightarrow> ('k, 'v) cache_entry option \<times> 'q lfu_cache" where
  "lfu_get_mut env c k =
     (let key_entry = cache_key env k;
          q = pq_change_priority_by (le_pq env) (lfu_queue c) key_entry (\<lambda>p. Priority (p_stale p) (p_freq p + 1));
          c' = c\<lparr>lfu_queue := q, lfu_accesses := lfu_accesses c + 1\<rparr>
      in case pq_get (le_pq env) q key_entry of
           None \<Rightarrow> (None, c')
         | Some (x, _) \<Rightarrow>
             (Some (x\<lparr>ce_will_stale := False\<rparr>),
              c'\<lparr>lfu_hits := lfu_hits c + 1,
                 lfu_queue := pq_get_mut (le_pq env) q key_entry (\<lambda>x. x\<lparr>ce_will_stale := False\<rparr>)\<rparr>))"

definition lfu_insert :: "('q, 'k, 'v) lfu_env \<Rightarrow> 'q lfu_cache \<Rightarrow> 'k \<Rightarrow> 'v \<Rightarrow> 'q lfu_cache" where
  "lfu_insert env c k v =
     (let w = entry_weight env k v
      in case lfu_get_mut env c k of
           (None, c') \<Rightarrow>
             c'\<lparr>lfu_total_weight := lfu_total_weight c' + w,
                lfu_queue := pq_push (le_pq env) (lfu_queue c')
                  \<lparr>ce_weight = w, ce_key = k, ce_value = v, ce_will_stale = False\<rparr> (Priority False 1)\<rparr>
         | (Some x, c') \<Rightarrow>
             c'\<lparr>lfu_queue := pq_get_mut (le_pq env) (lfu_queue c') (cache_key env k)
                  (\<lambda>x. x\<lparr>ce_weight := w, ce_value := v\<rparr>),
                lfu_total_weight := lfu_total_weight c' - ce_weight x + w\<rparr>)"

definition lfu_iter :: "('q, 'k, 'v) lfu_env \<Rightarrow> 'q lfu_cache \<Rightarrow> ('k \<times> 'v) list" where
  "lfu_iter env c = map (\<lambda>(x, _). (ce_key x, ce_value x)) (pq_iter (le_pq env) (lfu_queue c))"

definition lfu_get :: "('q, 'k, 'v) lfu_env \<Rightarrow> 'q lfu_cache \<Rightarrow> 'k \<Rightarrow> 'v option \<times> 'q lfu_cache" where
  "lfu_get env c k = (case lfu_get_mut env c k of (x, c') \<Rightarrow> (map_option ce_value x, c'))"

definition lfu_remove ::
  "('q, 'k, 'v) lfu_env \<Rightarrow> 'q lfu_cache \<Rightarrow> 'k \<Rightarrow> ('v option \<times> 'q lfu_cache, 'e) outcome" where
  "lfu_remove env c k =
     (case pq_change_priority (le_pq env) (lfu_queue c) (cache_key env k) (Priority True 0) of
        (None, q) \<Rightarrow> Ok (None, c\<lparr>lfu_queue := q\<rparr>)
      | (Some _, q) \<Rightarrow>
          (case pq_pop (le_pq env) q of
             None \<Rightarrow> Ok (None, c\<lparr>lfu_queue := q\<rparr>)
           | Some ((x, _), q') \<Rightarrow>
               (if ce_key x \<noteq> k then Panic ''assertion failed: e.key == key_entry.key''
                else Ok (Some (ce_value x),
                         c\<lparr>lfu_queue := q', lfu_total_weight := lfu_total_weight c - ce_weight x\<rparr>))))"

definition lfu_contains_key :: "('q, 'k, 'v) lfu_env \<Rightarrow> 'q lfu_cache \<Rightarrow> 'k \<Rightarrow> bool" where
  "lfu_contains_key env c k \<longleftrightarrow> pq_get (le_pq env) (lfu_queue c) (cache_key env k) \<noteq> None"

definition lfu_len :: "('q, 'k, 'v) lfu_env \<Rightarrow> 'q lfu_cache \<Rightarrow> nat" where
  "lfu_len env c = length (pq_iter (le_pq env) (lfu_queue c))"

definition lfu_is_empty :: "('q, 'k, 'v) lfu_env \<Rightarrow> 'q lfu_cache \<Rightarrow> bool" where
  "lfu_is_empty env c \<longleftrightarrow> pq_iter (le_pq env) (lfu_queue c) = []"

section \<open>Eviction\<close>

text \<open>\<open>EvictStats\<close>, without the duration of the eviction.\<close>

record evict_stats =
  es_new_weight :: usize
  es_evicted_weight :: usize
  es_new_count :: nat
  es_evicted_count :: nat
  es_stale_update :: bool
  es_accesses :: nat
  es_hits :: nat

text \<open>
  The \<open>while\<close> loop of \<open>evict_with_period\<close>, for a number of rounds. \<open>None\<close> is a loop that has not ended after
  them; one round more than there are entries is always enough.
\<close>

fun evict_loop ::
  "nat \<Rightarrow> ('q, 'k, 'v) lfu_env \<Rightarrow> usize \<Rightarrow> usize \<Rightarrow> 'q lfu_cache \<times> usize \<Rightarrow> ('q lfu_cache \<times> usize, 'e) outcome option" where
  "evict_loop 0 env max_weight dead_weight (c, evicted) = None"
| "evict_loop (Suc n) env max_weight dead_weight (c, evicted) =
     (if lfu_total_weight c + dead_weight > max_weight
      then (case pq_pop (le_pq env) (lfu_queue c) of
              None \<Rightarrow> Some (Panic ''empty cache but total_weight > max_weight'')
            | Some ((x, _), q) \<Rightarrow>
                evict_loop n env max_weight dead_weight
                  (c\<lparr>lfu_queue := q, lfu_total_weight := lfu_total_weight c - ce_weight x\<rparr>, evicted + ce_weight x))
      else Some (Ok (c, evicted)))"

text \<open>The stale update: entries that were not used since the last update get stale.\<close>

definition mark_stale :: "('k, 'v) cache_entry \<times> priority \<Rightarrow> ('k, 'v) cache_entry \<times> priority" where
  "mark_stale = (\<lambda>(x, p). (x\<lparr>ce_will_stale := True\<rparr>, Priority (ce_will_stale x) (p_freq p)))"

definition stale_update :: "('q, 'k, 'v) lfu_env \<Rightarrow> 'q lfu_cache \<Rightarrow> nat \<Rightarrow> 'q lfu_cache" where
  "stale_update env c stale_period =
     (let c1 = c\<lparr>lfu_stale_counter := lfu_stale_counter c + 1\<rparr>
      in if lfu_stale_counter c1 = stale_period
         then c1\<lparr>lfu_stale_counter := 0, lfu_accesses := 0, lfu_hits := 0,
                 lfu_queue := pq_iter_mut (le_pq env) (lfu_queue c1) mark_stale\<rparr>
         else c1)"

definition evict_with_period ::
  "('q, 'k, 'v) lfu_env \<Rightarrow> 'q lfu_cache \<Rightarrow> usize \<Rightarrow> nat \<Rightarrow> (evict_stats option \<times> 'q lfu_cache, 'e) outcome option" where
  "evict_with_period env c max_weight stale_period =
     (if lfu_total_weight c \<le> max_weight then Some (Ok (None, c))
      else
        let c1 = stale_update env c stale_period;
            old_len = lfu_len env c1;
            dead_weight = (if lfu_dead_weight c1 then word_of_nat (lfu_len env c1) * (le_entry_size env + 40) else 0)
        in and_then_opt (evict_loop (Suc old_len) env max_weight dead_weight (c1, 0)) (\<lambda>(c2, evicted).
             Some (Ok (Some \<lparr>es_new_weight = lfu_total_weight c2,
                             es_evicted_weight = evicted,
                             es_new_count = lfu_len env c2,
                             es_evicted_count = old_len - lfu_len env c2,
                             es_stale_update = (lfu_stale_counter c2 = 0),
                             es_accesses = lfu_accesses c,
                             es_hits = lfu_hits c\<rparr>, c2))))"

definition evict :: "('q, 'k, 'v) lfu_env \<Rightarrow> 'q lfu_cache \<Rightarrow> usize \<Rightarrow> (evict_stats option \<times> 'q lfu_cache, 'e) outcome option" where
  "evict env c max_weight = evict_with_period env c max_weight STALE_PERIOD"

definition evict_and_stats ::
  "('q, 'k, 'v) lfu_env \<Rightarrow> 'q lfu_cache \<Rightarrow> usize \<Rightarrow> (evict_stats \<times> 'q lfu_cache, 'e) outcome option" where
  "evict_and_stats env c max_weight =
     and_then_opt (evict_with_period env c max_weight STALE_PERIOD) (\<lambda>(stats, c').
       Some (Ok (case stats of
                   Some st \<Rightarrow> st
                 | None \<Rightarrow> \<lparr>es_new_weight = lfu_total_weight c', es_evicted_weight = 0, es_new_count = lfu_len env c',
                            es_evicted_count = 0, es_stale_update = False, es_accesses = 0, es_hits = 0\<rparr>, c')))"

text \<open>\<open>into_iter\<close> and \<open>extend\<close> move the entries of one cache into another.\<close>

definition lfu_into_iter :: "('q, 'k, 'v) lfu_env \<Rightarrow> 'q lfu_cache \<Rightarrow> (('k, 'v) cache_entry \<times> priority) list" where
  "lfu_into_iter env c = pq_iter (le_pq env) (lfu_queue c)"

definition lfu_extend ::
  "('q, 'k, 'v) lfu_env \<Rightarrow> 'q lfu_cache \<Rightarrow> (('k, 'v) cache_entry \<times> priority) list \<Rightarrow> 'q lfu_cache" where
  "lfu_extend env c xs = c\<lparr>lfu_queue := pq_extend (le_pq env) (lfu_queue c) xs\<rparr>"

section \<open>What the cache relies on\<close>

text \<open>
  The documented behaviour of the priority queue: it holds every item once, it gives and changes items
  and priorities by item, and \<open>pop\<close> removes an item of the greatest priority, any one of them if there are
  several. For \<open>extend\<close> with items that the queue has already, either copy of the item may stay. The order
  of \<open>iter\<close> is left open.
\<close>

definition item_keys :: "(('k, 'v) cache_entry \<times> priority) list \<Rightarrow> 'k list" where
  "item_keys xs = map (\<lambda>(x, _). ce_key x) xs"

definition pq_reads :: "('q, 'k, 'v) pq_ops \<Rightarrow> 'q \<Rightarrow> bool" where
  "pq_reads P q \<longleftrightarrow>
     (\<forall>x. pq_get P q x = find (\<lambda>(y, _). ce_key y = ce_key x) (pq_iter P q)) \<and>
     (case pq_pop P q of
        None \<Rightarrow> pq_iter P q = []
      | Some ((x, p), q') \<Rightarrow>
          mset (pq_iter P q) = add_mset (x, p) (mset (pq_iter P q')) \<and> (\<forall>(y, r) \<in> set (pq_iter P q). r \<le> p))"

definition pq_changes :: "('q, 'k, 'v) pq_ops \<Rightarrow> 'q \<Rightarrow> bool" where
  "pq_changes P q \<longleftrightarrow>
     (\<forall>x p. ce_key x \<notin> set (item_keys (pq_iter P q)) \<longrightarrow>
        mset (pq_iter P (pq_push P q x p)) = add_mset (x, p) (mset (pq_iter P q))) \<and>
     (\<forall>x f. (\<forall>y. ce_key (f y) = ce_key y) \<longrightarrow>
        mset (pq_iter P (pq_get_mut P q x f)) =
          image_mset (\<lambda>(y, r). (if ce_key y = ce_key x then f y else y, r)) (mset (pq_iter P q))) \<and>
     (\<forall>x f. mset (pq_iter P (pq_change_priority_by P q x f)) =
          image_mset (\<lambda>(y, r). (y, if ce_key y = ce_key x then f r else r)) (mset (pq_iter P q))) \<and>
     (\<forall>x p. fst (pq_change_priority P q x p) = map_option snd (pq_get P q x) \<and>
        mset (pq_iter P (snd (pq_change_priority P q x p))) =
          image_mset (\<lambda>(y, r). (y, if ce_key y = ce_key x then p else r)) (mset (pq_iter P q))) \<and>
     (\<forall>f. (\<forall>y. ce_key (fst (f y)) = ce_key (fst y)) \<longrightarrow>
        mset (pq_iter P (pq_iter_mut P q f)) = image_mset f (mset (pq_iter P q))) \<and>
     (\<forall>xs. distinct (item_keys (pq_iter P (pq_extend P q xs))) \<and>
        set (item_keys (pq_iter P (pq_extend P q xs))) = set (item_keys (pq_iter P q)) \<union> set (item_keys xs) \<and>
        fst ` set (pq_iter P (pq_extend P q xs)) \<subseteq> fst ` (set (pq_iter P q) \<union> set xs) \<and>
        snd ` set (pq_iter P (pq_extend P q xs)) \<subseteq> snd ` (set (pq_iter P q) \<union> set xs))"

definition pq_laws :: "('q, 'k, 'v) pq_ops \<Rightarrow> bool" where
  "pq_laws P \<longleftrightarrow> pq_iter P (pq_new P) = [] \<and>
     (\<forall>q. distinct (item_keys (pq_iter P q)) \<longrightarrow> pq_reads P q \<and> pq_changes P q)"

text \<open>A queue that meets the laws: an unordered list, searched for the first item of the greatest priority.\<close>

definition list_pop ::
  "(('k, 'v) cache_entry \<times> priority) list \<Rightarrow> ((('k, 'v) cache_entry \<times> priority) \<times> (('k, 'v) cache_entry \<times> priority) list) option" where
  "list_pop q = map_option (\<lambda>x. (x, remove1 x q)) (find (\<lambda>(_, p). list_all (\<lambda>(_, r). r \<le> p) q) q)"

definition list_pq :: "((('k, 'v) cache_entry \<times> priority) list, 'k, 'v) pq_ops" where
  "list_pq =
     \<lparr>pq_new = [], pq_iter = (\<lambda>q. q), pq_push = (\<lambda>q x p. (x, p) # q),
      pq_get = (\<lambda>q x. find (\<lambda>(y, _). ce_key y = ce_key x) q),
      pq_get_mut = (\<lambda>q x f. map (\<lambda>(y, r). (if ce_key y = ce_key x then f y else y, r)) q),
      pq_change_priority_by = (\<lambda>q x f. map (\<lambda>(y, r). (y, if ce_key y = ce_key x then f r else r)) q),
      pq_change_priority = (\<lambda>q x p. (map_option snd (find (\<lambda>(y, _). ce_key y = ce_key x) q),
        map (\<lambda>(y, r). (y, if ce_key y = ce_key x then p else r)) q)),
      pq_pop = list_pop, pq_iter_mut = (\<lambda>q f. map f q),
      pq_extend = (\<lambda>q xs. fold (\<lambda>(x, p) q. if ce_key x \<in> set (item_keys q) then q else (x, p) # q) xs q)\<rparr>"

lemma item_keys_simps [simp]:
  "item_keys [] = []"
  "item_keys ((x, p) # xs) = ce_key x # item_keys xs"
  by (simp_all add: item_keys_def)

lemma list_pop_spec:
  "case list_pop q of
     None \<Rightarrow> q = []
   | Some ((x, p), q') \<Rightarrow> mset q = add_mset (x, p) (mset q') \<and> (\<forall>(y, r) \<in> set q. r \<le> p)"
proof (cases "find (\<lambda>(_, p). list_all (\<lambda>(_, r). r \<le> p) q) q")
  case None
  have "q = []"
  proof (rule ccontr)
    assume "q \<noteq> []"
    then have "Max (snd ` set q) \<in> snd ` set q" by (intro Max_in) auto
    then obtain z where "z \<in> set q" "snd z = Max (snd ` set q)" by auto
    then have "\<forall>y \<in> set q. snd y \<le> snd z" by simp
    then have "list_all (\<lambda>(_, r). r \<le> snd z) q" by (auto simp: list_all_iff)
    with None \<open>z \<in> set q\<close> show False by (cases z) (auto simp: find_None_iff)
  qed
  then show ?thesis by (simp add: list_pop_def)
next
  case (Some z)
  then have "z \<in> set q" "list_all (\<lambda>(_, r). r \<le> snd z) q"
    by (auto dest!: find_Some_mem)
  with Some show ?thesis by (cases z) (auto simp: list_pop_def list_all_iff)
qed

lemma list_extend_keys:
  assumes "distinct (item_keys q)"
  defines "ext \<equiv> \<lambda>xs q. fold (\<lambda>(x, p) q. if ce_key x \<in> set (item_keys q) then q else (x, p) # q) xs q"
  shows "distinct (item_keys (ext xs q)) \<and> set (item_keys (ext xs q)) = set (item_keys q) \<union> set (item_keys xs) \<and>
    set (ext xs q) \<subseteq> set q \<union> set xs"
  using assms(1)
proof (induction xs arbitrary: q)
  case (Cons z xs)
  obtain x p where z: "z = (x, p)" by (cases z)
  show ?case
  proof (cases "ce_key x \<in> set (item_keys q)")
    case True
    then show ?thesis using Cons.IH [OF Cons.prems] z by (auto simp: ext_def)
  next
    case False
    then have "distinct (item_keys ((x, p) # q))" using Cons.prems by simp
    from Cons.IH [OF this] False z show ?thesis by (auto simp: ext_def)
  qed
qed (simp add: ext_def)

lemma list_pq_simps [simp]:
  "pq_new list_pq = []" "pq_iter list_pq q = q" "pq_push list_pq q x p = (x, p) # q"
  "pq_get list_pq q x = find (\<lambda>(y, _). ce_key y = ce_key x) q"
  "pq_get_mut list_pq q x f = map (\<lambda>(y, r). (if ce_key y = ce_key x then f y else y, r)) q"
  "pq_change_priority_by list_pq q x g = map (\<lambda>(y, r). (y, if ce_key y = ce_key x then g r else r)) q"
  "pq_change_priority list_pq q x p =
     (map_option snd (find (\<lambda>(y, _). ce_key y = ce_key x) q), map (\<lambda>(y, r). (y, if ce_key y = ce_key x then p else r)) q)"
  "pq_pop list_pq q = list_pop q" "pq_iter_mut list_pq q h = map h q"
  "pq_extend list_pq q xs = fold (\<lambda>(x, p) q. if ce_key x \<in> set (item_keys q) then q else (x, p) # q) xs q"
  by (simp_all add: list_pq_def)

lemma list_pq_laws: "pq_laws (list_pq :: ((('k, 'v) cache_entry \<times> priority) list, 'k, 'v) pq_ops)"
proof -
  have "pq_reads list_pq q" for q :: "(('k, 'v) cache_entry \<times> priority) list"
    using list_pop_spec [of q] by (auto simp: pq_reads_def split: option.splits)
  moreover have "pq_changes list_pq q" if "distinct (item_keys q)" for q :: "(('k, 'v) cache_entry \<times> priority) list"
    using list_extend_keys [OF that] by (simp add: pq_changes_def image_mono)
  ultimately show ?thesis by (simp add: pq_laws_def)
qed

section \<open>The items of a cache\<close>

abbreviation lfu_items :: "('q, 'k, 'v) lfu_env \<Rightarrow> 'q lfu_cache \<Rightarrow> (('k, 'v) cache_entry \<times> priority) list" where
  "lfu_items env c \<equiv> pq_iter (le_pq env) (lfu_queue c)"

definition item_at :: "(('k, 'v) cache_entry \<times> priority) list \<Rightarrow> 'k \<Rightarrow> (('k, 'v) cache_entry \<times> priority) option" where
  "item_at xs k = find (\<lambda>(x, _). ce_key x = k) xs"

definition items_weight :: "(('k, 'v) cache_entry \<times> priority) list \<Rightarrow> usize" where
  "items_weight xs = sum_list (map (\<lambda>z. ce_weight (fst z)) xs)"

text \<open>
  The invariant of a cache: no key appears twice and every entry has been used. \<open>lfu_map\<close> is what the
  cache holds; \<open>lfu_weighed\<close> says that the total weight is that of the entries.
\<close>

definition lfu_wf :: "('q, 'k, 'v) lfu_env \<Rightarrow> 'q lfu_cache \<Rightarrow> bool" where
  "lfu_wf env c \<longleftrightarrow> pq_laws (le_pq env) \<and> distinct (item_keys (lfu_items env c)) \<and>
     (\<forall>(x, p) \<in> set (lfu_items env c). 0 < p_freq p)"

definition lfu_weighed :: "('q, 'k, 'v) lfu_env \<Rightarrow> 'q lfu_cache \<Rightarrow> bool" where
  "lfu_weighed env c \<longleftrightarrow> lfu_total_weight c = items_weight (lfu_items env c)"

definition lfu_map :: "('q, 'k, 'v) lfu_env \<Rightarrow> 'q lfu_cache \<Rightarrow> 'k \<rightharpoonup> 'v" where
  "lfu_map env c k = map_option (\<lambda>z. ce_value (fst z)) (item_at (lfu_items env c) k)"

lemma item_at_simps [simp]:
  "item_at [] k = None"
  "item_at ((x, p) # xs) k = (if ce_key x = k then Some (x, p) else item_at xs k)"
  by (simp_all add: item_at_def)

lemma item_at_None: "item_at xs k = None \<longleftrightarrow> k \<notin> set (item_keys xs)"
  by (auto simp: item_at_def find_None_iff item_keys_def)

lemma item_at_Some:
  "distinct (item_keys xs) \<Longrightarrow> item_at xs k = Some (x, p) \<longleftrightarrow> (x, p) \<in> set xs \<and> ce_key x = k"
  by (induction xs) (force simp: item_keys_def)+

lemma item_at_map:
  assumes "\<And>z. ce_key (fst (f z)) = ce_key (fst z)"
  shows "item_at (map f xs) k = map_option f (item_at xs k)"
proof (induction xs)
  case (Cons z xs)
  then show ?case using assms [of z] by (cases z; cases "f z") simp
qed simp

lemma item_keys_map:
  assumes "\<And>z. ce_key (fst (f z)) = ce_key (fst z)"
  shows "item_keys (map f xs) = item_keys xs"
  using assms by (simp add: item_keys_def case_prod_beta)

text \<open>Two lists of the same items are the same for all of this.\<close>

lemma same_items:
  assumes "mset xs = mset ys" "distinct (item_keys ys)"
  shows "distinct (item_keys xs)" "set xs = set ys" "item_at xs = item_at ys" "items_weight xs = items_weight ys"
    "set (item_keys xs) = set (item_keys ys)"
proof -
  have "mset (item_keys xs) = mset (item_keys ys)" using assms(1) by (simp add: item_keys_def)
  with assms(2) show d: "distinct (item_keys xs)" by (metis mset_eq_imp_distinct_iff)
  show s: "set xs = set ys" using assms(1) by (rule mset_eq_setD)
  then show "set (item_keys xs) = set (item_keys ys)" by (simp add: item_keys_def)
  show "item_at xs = item_at ys"
  proof
    fix k
    show "item_at xs k = item_at ys k"
    proof (cases "item_at ys k")
      case None
      then have "item_at xs k = None" using s by (simp add: item_at_None item_keys_def)
      with None show ?thesis by simp
    next
      case (Some z)
      then have "item_at xs k = Some z" using s d assms(2) by (cases z) (simp add: item_at_Some)
      with Some show ?thesis by simp
    qed
  qed
  have "sum_mset (image_mset (\<lambda>z. ce_weight (fst z)) (mset xs)) = sum_mset (image_mset (\<lambda>z. ce_weight (fst z)) (mset ys))"
    using assms(1) by simp
  then show "items_weight xs = items_weight ys"
    by (simp add: items_weight_def flip: sum_mset_sum_list)
qed

lemma pq_lawsD:
  assumes "pq_laws P" "distinct (item_keys (pq_iter P q))"
  shows "pq_get P q x = item_at (pq_iter P q) (ce_key x)"
    and "ce_key x \<notin> set (item_keys (pq_iter P q)) \<Longrightarrow> mset (pq_iter P (pq_push P q x p)) = mset ((x, p) # pq_iter P q)"
    and "(\<And>y. ce_key (f y) = ce_key y) \<Longrightarrow>
      mset (pq_iter P (pq_get_mut P q x f)) = mset (map (\<lambda>(y, r). (if ce_key y = ce_key x then f y else y, r)) (pq_iter P q))"
    and "mset (pq_iter P (pq_change_priority_by P q x g)) =
      mset (map (\<lambda>(y, r). (y, if ce_key y = ce_key x then g r else r)) (pq_iter P q))"
    and "fst (pq_change_priority P q x p) = map_option snd (item_at (pq_iter P q) (ce_key x))"
    and "mset (pq_iter P (snd (pq_change_priority P q x p))) =
      mset (map (\<lambda>(y, r). (y, if ce_key y = ce_key x then p else r)) (pq_iter P q))"
    and "(\<And>z. ce_key (fst (h z)) = ce_key (fst z)) \<Longrightarrow>
      mset (pq_iter P (pq_iter_mut P q h)) = mset (map h (pq_iter P q))"
  using assms by (simp_all add: pq_laws_def pq_reads_def pq_changes_def item_at_def)

lemma pq_popD:
  assumes "pq_laws P" "distinct (item_keys (pq_iter P q))"
  shows "pq_pop P q = None \<Longrightarrow> pq_iter P q = []"
    and "pq_pop P q = Some ((x, p), q') \<Longrightarrow> mset (pq_iter P q) = mset ((x, p) # pq_iter P q')"
    and "pq_pop P q = Some ((x, p), q') \<Longrightarrow> (y, r) \<in> set (pq_iter P q) \<Longrightarrow> r \<le> p"
proof -
  have *: "case pq_pop P q of None \<Rightarrow> pq_iter P q = []
      | Some ((x, p), q') \<Rightarrow>
          mset (pq_iter P q) = add_mset (x, p) (mset (pq_iter P q')) \<and> (\<forall>(y, r) \<in> set (pq_iter P q). r \<le> p)"
    using assms by (simp add: pq_laws_def pq_reads_def)
  then show "pq_pop P q = None \<Longrightarrow> pq_iter P q = []" by simp
  show "pq_pop P q = Some ((x, p), q') \<Longrightarrow> mset (pq_iter P q) = mset ((x, p) # pq_iter P q')" using * by simp
  show "pq_pop P q = Some ((x, p), q') \<Longrightarrow> (y, r) \<in> set (pq_iter P q) \<Longrightarrow> r \<le> p" using * by auto
qed

section \<open>The operations on the contents\<close>

lemma lfu_wfD:
  assumes "lfu_wf env c"
  shows "pq_laws (le_pq env)" "distinct (item_keys (lfu_items env c))"
    "(x, p) \<in> set (lfu_items env c) \<Longrightarrow> 0 < p_freq p"
  using assms by (auto simp: lfu_wf_def)

text \<open>A cache whose items are given by a list with the same properties\<close>

lemma lfu_like:
  assumes "mset (lfu_items env c) = mset ys" "pq_laws (le_pq env)" "distinct (item_keys ys)"
    "\<forall>(x, p) \<in> set ys. 0 < p_freq p"
  shows "lfu_wf env c" "lfu_map env c = (\<lambda>k. map_option (\<lambda>z. ce_value (fst z)) (item_at ys k))"
    "lfu_weighed env c \<longleftrightarrow> lfu_total_weight c = items_weight ys"
  using assms same_items [OF assms(1,3)] by (simp_all add: lfu_wf_def lfu_map_def lfu_weighed_def fun_eq_iff)

lemma lfu_contains_key_iff: "lfu_wf env c \<Longrightarrow> lfu_contains_key env c k \<longleftrightarrow> lfu_map env c k \<noteq> None"
  by (simp add: lfu_contains_key_def lfu_map_def pq_lawsD(1) lfu_wfD cache_key_def)

lemma lfu_fresh:
  assumes "pq_laws (le_pq env)"
  shows "lfu_wf env (lfu_new env)" "lfu_map env (lfu_new env) = Map.empty" "lfu_weighed env (lfu_new env)"
    "lfu_wf env (lfu_default env)" "lfu_map env (lfu_default env) = Map.empty" "lfu_weighed env (lfu_default env)"
  using assms
  by (simp_all add: lfu_wf_def lfu_map_def lfu_weighed_def lfu_new_def lfu_default_def pq_laws_def items_weight_def fun_eq_iff)

text \<open>An access changes the frequency and the mark of one entry.\<close>

definition touch :: "'k \<Rightarrow> ('k, 'v) cache_entry \<times> priority \<Rightarrow> ('k, 'v) cache_entry \<times> priority" where
  "touch k = (\<lambda>(x, p). if ce_key x = k then (x\<lparr>ce_will_stale := False\<rparr>, Priority (p_stale p) (p_freq p + 1)) else (x, p))"

lemma touch_key [simp]: "ce_key (fst (touch k z)) = ce_key (fst z)"
  by (cases z) (simp add: touch_def)

lemma touch_value [simp]: "ce_value (fst (touch k z)) = ce_value (fst z)" "ce_weight (fst (touch k z)) = ce_weight (fst z)"
  by (cases z, simp add: touch_def)+

lemma touch_freq: "0 < p_freq (snd z) \<Longrightarrow> 0 < p_freq (snd (touch k z))"
  by (cases z) (simp add: touch_def)

lemma lfu_get_mut_law:
  assumes "lfu_wf env c" "lfu_get_mut env c k = (r, c')"
  shows "mset (lfu_items env c') = mset (map (touch k) (lfu_items env c))"
    "r = map_option (\<lambda>z. fst (touch k z)) (item_at (lfu_items env c) k)"
    "lfu_total_weight c' = lfu_total_weight c"
proof -
  note L = lfu_wfD(1,2) [OF assms(1)]
  let ?P = "le_pq env" and ?k = "cache_key env k"
  define q where "q = pq_change_priority_by ?P (lfu_queue c) ?k (\<lambda>p. Priority (p_stale p) (p_freq p + 1))"
  define bump where "bump = (\<lambda>(y :: ('b, 'c) cache_entry, r). (y, if ce_key y = k then Priority (p_stale r) (p_freq r + 1) else r))"
  have key: "ce_key ?k = k" by (simp add: cache_key_def)
  have q: "mset (pq_iter ?P q) = mset (map bump (lfu_items env c))"
    using pq_lawsD(4) [OF L, of ?k "\<lambda>p. Priority (p_stale p) (p_freq p + 1)"] by (simp add: q_def bump_def key)
  have bump: "ce_key (fst (bump z)) = ce_key (fst z)" for z by (cases z) (simp add: bump_def)
  have d: "distinct (item_keys (map bump (lfu_items env c)))" using L(2) bump by (simp add: item_keys_map)
  note s = same_items [OF q d]
  have get: "pq_get ?P q ?k = map_option bump (item_at (lfu_items env c) k)"
    using pq_lawsD(1) [OF L(1) s(1)] s(3) by (simp add: key item_at_map [OF bump])
  have set: "mset (pq_iter ?P (pq_get_mut ?P q ?k (\<lambda>x. x\<lparr>ce_will_stale := False\<rparr>))) = mset (map (touch k) (lfu_items env c))"
  proof -
    have "mset (pq_iter ?P (pq_get_mut ?P q ?k (\<lambda>x. x\<lparr>ce_will_stale := False\<rparr>))) =
        image_mset (\<lambda>(y, r). (if ce_key y = k then y\<lparr>ce_will_stale := False\<rparr> else y, r)) (mset (pq_iter ?P q))"
      using pq_lawsD(3) [OF L(1) s(1), of "\<lambda>x. x\<lparr>ce_will_stale := False\<rparr>" ?k] by (simp add: key)
    also have "\<dots> = image_mset (touch k) (mset (lfu_items env c))"
      unfolding q by (simp add: multiset.map_comp) (rule image_mset_cong, auto simp: bump_def touch_def)
    finally show ?thesis by simp
  qed
  have same: "mset (pq_iter ?P q) = mset (map (touch k) (lfu_items env c))" if "item_at (lfu_items env c) k = None"
  proof -
    have "map bump (lfu_items env c) = map (touch k) (lfu_items env c)"
      using that by (auto simp: item_at_None item_keys_def bump_def touch_def)
    with q show ?thesis by metis
  qed
  have one: "(bump z, fst (touch k z)) = ((fst z, snd (touch k z)), (fst z)\<lparr>ce_will_stale := False\<rparr>)"
    if "item_at (lfu_items env c) k = Some z" for z
    using that L(2) by (cases z) (auto simp: item_at_Some bump_def touch_def)
  have "mset (lfu_items env c') = mset (map (touch k) (lfu_items env c)) \<and>
      r = map_option (\<lambda>z. fst (touch k z)) (item_at (lfu_items env c) k) \<and> lfu_total_weight c' = lfu_total_weight c"
    using assms(2) [unfolded lfu_get_mut_def Let_def, folded q_def] get set same one
    by (cases "item_at (lfu_items env c) k") auto
  then show "mset (lfu_items env c') = mset (map (touch k) (lfu_items env c))"
    "r = map_option (\<lambda>z. fst (touch k z)) (item_at (lfu_items env c) k)"
    "lfu_total_weight c' = lfu_total_weight c" by blast+
qed

lemma touched:
  assumes "lfu_wf env c"
  shows "distinct (item_keys (map (touch k) (lfu_items env c)))"
    "\<forall>(x, p) \<in> set (map (touch k) (lfu_items env c)). 0 < p_freq p"
    "item_at (map (touch k) (lfu_items env c)) j = map_option (touch k) (item_at (lfu_items env c) j)"
    "items_weight (map (touch k) (lfu_items env c)) = items_weight (lfu_items env c)"
proof -
  show "distinct (item_keys (map (touch k) (lfu_items env c)))"
    using lfu_wfD(2) [OF assms] by (simp add: item_keys_map)
  show "\<forall>(x, p) \<in> set (map (touch k) (lfu_items env c)). 0 < p_freq p"
  proof
    fix z
    assume "z \<in> set (map (touch k) (lfu_items env c))"
    then obtain y where "y \<in> set (lfu_items env c)" "z = touch k y" by auto
    moreover from this(1) have "0 < p_freq (snd y)" using lfu_wfD(3) [OF assms, of "fst y" "snd y"] by simp
    ultimately show "case z of (x, p) \<Rightarrow> 0 < p_freq p" using touch_freq [of y k] by (simp add: case_prod_beta)
  qed
  show "item_at (map (touch k) (lfu_items env c)) j = map_option (touch k) (item_at (lfu_items env c) j)"
    by (rule item_at_map) simp
  show "items_weight (map (touch k) (lfu_items env c)) = items_weight (lfu_items env c)"
    by (simp add: items_weight_def case_prod_beta comp_def)
qed

lemma lfu_get_law:
  assumes "lfu_wf env c"
  shows "\<exists>c'. lfu_get env c k = (lfu_map env c k, c') \<and> lfu_wf env c' \<and> lfu_map env c' = lfu_map env c \<and>
    (lfu_weighed env c \<longrightarrow> lfu_weighed env c')"
proof -
  obtain r c' where g: "lfu_get_mut env c k = (r, c')" by fastforce
  note m = lfu_get_mut_law [OF assms g]
  note t = touched [OF assms, of k]
  note l = lfu_like [OF m(1) lfu_wfD(1) [OF assms] t(1,2)]
  have "lfu_map env c' = lfu_map env c"
    unfolding l(2) t(3) by (simp add: lfu_map_def fun_eq_iff option.map_comp comp_def)
  moreover have "map_option ce_value r = lfu_map env c k"
    by (simp add: m(2) lfu_map_def option.map_comp comp_def case_prod_beta)
  ultimately show ?thesis using g l(1,3) m(3) t(4) by (simp add: lfu_get_def lfu_weighed_def [of env c])
qed

definition put :: "'k \<Rightarrow> usize \<Rightarrow> 'v \<Rightarrow> ('k, 'v) cache_entry \<times> priority \<Rightarrow> ('k, 'v) cache_entry \<times> priority" where
  "put k w v = (\<lambda>(x, p). (if ce_key x = k then x\<lparr>ce_weight := w, ce_value := v\<rparr> else x, p))"

lemma put_simps [simp]:
  "ce_key (fst (put k w v z)) = ce_key (fst z)" "snd (put k w v z) = snd z"
  "ce_value (fst (put k w v z)) = (if ce_key (fst z) = k then v else ce_value (fst z))"
  "ce_weight (fst (put k w v z)) = (if ce_key (fst z) = k then w else ce_weight (fst z))"
  by (cases z, simp add: put_def)+

lemma items_weight_simps [simp]:
  "items_weight [] = 0"
  "items_weight ((x, p) # xs) = ce_weight x + items_weight xs"
  by (simp_all add: items_weight_def)

lemma items_weight_put:
  "distinct (item_keys xs) \<Longrightarrow> item_at xs k = Some (x, p) \<Longrightarrow>
     items_weight (map (put k w v) xs) = items_weight xs - ce_weight x + w"
proof (induction xs)
  case (Cons z xs)
  obtain y r where z: "z = (y, r)" by (cases z)
  have other: "k \<notin> set (item_keys xs) \<Longrightarrow> map (put k w v) xs = xs"
    by (auto simp: item_keys_def put_def intro!: map_idI)
  show ?case
    using Cons z other by (cases "ce_key y = k") (auto simp: put_def algebra_simps)
qed simp

lemma item_at_mem: "item_at xs k = Some z \<Longrightarrow> z \<in> set xs \<and> ce_key (fst z) = k"
  by (auto simp: item_at_def dest!: find_Some_mem)

lemma lfu_insert_law:
  assumes "lfu_wf env c"
  shows "lfu_wf env (lfu_insert env c k v)" "lfu_map env (lfu_insert env c k v) = (lfu_map env c)(k \<mapsto> v)"
    "lfu_weighed env c \<Longrightarrow> lfu_weighed env (lfu_insert env c k v)"
proof -
  obtain r c' where g: "lfu_get_mut env c k = (r, c')" by fastforce
  note m = lfu_get_mut_law [OF assms g]
  note t = touched [OF assms, of k]
  note L = lfu_wfD(1) [OF assms]
  let ?w = "entry_weight env k v" and ?ys = "map (touch k) (lfu_items env c)"
  note s = same_items [OF m(1) t(1)]
  have "lfu_wf env (lfu_insert env c k v) \<and> lfu_map env (lfu_insert env c k v) = (lfu_map env c)(k \<mapsto> v) \<and>
      (lfu_weighed env c \<longrightarrow> lfu_weighed env (lfu_insert env c k v))"
  proof (cases "item_at (lfu_items env c) k")
    case None
    let ?x = "\<lparr>ce_weight = ?w, ce_key = k, ce_value = v, ce_will_stale = False\<rparr>"
    have ins: "lfu_insert env c k v = c'\<lparr>lfu_total_weight := lfu_total_weight c' + ?w,
        lfu_queue := pq_push (le_pq env) (lfu_queue c') ?x (Priority False 1)\<rparr>"
      using g m(2) None by (simp add: lfu_insert_def Let_def)
    have k: "k \<notin> set (item_keys (lfu_items env c'))"
      using None s(5) by (simp add: item_at_None item_keys_map)
    have d: "distinct (item_keys ((?x, Priority False 1) # ?ys))" using t(1) k s(5) by simp
    have "mset (lfu_items env (lfu_insert env c k v)) = mset ((?x, Priority False 1) # ?ys)"
      using pq_lawsD(2) [OF L s(1), of ?x "Priority False 1"] k m(1) by (simp add: ins)
    note l = lfu_like [OF this L d]
    show ?thesis
      using l t(2-4) m(3) None
      by (auto simp: lfu_map_def [of env c] lfu_weighed_def [of env c] ins fun_eq_iff option.map_comp comp_def)
  next
    case (Some z)
    then have r: "r = Some (fst (touch k z))" using m(2) by simp
    have ins: "lfu_insert env c k v = c'\<lparr>lfu_queue := pq_get_mut (le_pq env) (lfu_queue c') (cache_key env k)
          (\<lambda>x. x\<lparr>ce_weight := ?w, ce_value := v\<rparr>), lfu_total_weight := lfu_total_weight c' - ce_weight (fst z) + ?w\<rparr>"
      using g r by (simp add: lfu_insert_def Let_def)
    have "mset (lfu_items env (lfu_insert env c k v)) = image_mset (put k ?w v) (mset (lfu_items env c'))"
      using pq_lawsD(3) [OF L s(1), of "\<lambda>x. x\<lparr>ce_weight := ?w, ce_value := v\<rparr>" "cache_key env k"]
      by (simp add: ins cache_key_def put_def)
    then have "mset (lfu_items env (lfu_insert env c k v)) = mset (map (put k ?w v) ?ys)" using m(1) by (simp add: multiset.map_comp)
    moreover have "distinct (item_keys (map (put k ?w v) ?ys))" using t(1) by (simp add: item_keys_map)
    moreover have "\<forall>(x, p) \<in> set (map (put k ?w v) ?ys). 0 < p_freq p" using t(2) by (auto simp: put_def)
    ultimately have l: "lfu_wf env (lfu_insert env c k v)"
      "lfu_map env (lfu_insert env c k v) = (\<lambda>j. map_option (\<lambda>z. ce_value (fst z)) (item_at (map (put k ?w v) ?ys) j))"
      "lfu_weighed env (lfu_insert env c k v) \<longleftrightarrow>
         lfu_total_weight (lfu_insert env c k v) = items_weight (map (put k ?w v) ?ys)"
      using lfu_like L by blast+
    have "lfu_map env (lfu_insert env c k v) = (lfu_map env c)(k \<mapsto> v)"
    proof
      fix j
      show "lfu_map env (lfu_insert env c k v) j = ((lfu_map env c)(k \<mapsto> v)) j"
        using Some t(3) [of j] item_at_mem [of "lfu_items env c" j]
        by (cases "item_at (lfu_items env c) j") (auto simp: l(2) item_at_map lfu_map_def [of env c] simp del: map_map)
    qed
    moreover have "items_weight (map (put k ?w v) ?ys) = items_weight (lfu_items env c) - ce_weight (fst z) + ?w"
      using items_weight_put [OF t(1), of k "fst (touch k z)" "snd (touch k z)"] t(3) [of k] t(4) Some by simp
    moreover have "lfu_total_weight (lfu_insert env c k v) = lfu_total_weight c - ce_weight (fst z) + ?w"
      by (simp add: ins m(3))
    ultimately show ?thesis using l(1,3) by (simp add: lfu_weighed_def [of env c] del: map_map)
  qed
  then show "lfu_wf env (lfu_insert env c k v)" "lfu_map env (lfu_insert env c k v) = (lfu_map env c)(k \<mapsto> v)"
    "lfu_weighed env c \<Longrightarrow> lfu_weighed env (lfu_insert env c k v)" by blast+
qed

text \<open>Removing an entry: the pop after the change of priority gets this entry.\<close>

lemma lfu_remove_law:
  assumes "lfu_wf env c"
  shows "\<exists>c'. lfu_remove env c k = Ok (lfu_map env c k, c') \<and> lfu_wf env c' \<and> lfu_map env c' = (lfu_map env c)(k := None) \<and>
    (lfu_weighed env c \<longrightarrow> lfu_weighed env c')"
proof -
  note L = lfu_wfD(1,2) [OF assms]
  let ?P = "le_pq env" and ?p = "Priority True 0"
  obtain r q where cp: "pq_change_priority ?P (lfu_queue c) (cache_key env k) ?p = (r, q)" by fastforce
  define f where "f = (\<lambda>(y :: ('b, 'c) cache_entry, r). (y, if ce_key y = k then ?p else r))"
  have f [simp]: "fst (f z) = fst z" for z by (cases z) (simp add: f_def)
  have r: "r = map_option snd (item_at (lfu_items env c) k)"
    using pq_lawsD(5) [OF L, of "cache_key env k" ?p] cp by (simp add: cache_key_def)
  have q: "mset (pq_iter ?P q) = mset (map f (lfu_items env c))"
    using pq_lawsD(6) [OF L, of "cache_key env k" ?p] cp by (simp add: cache_key_def f_def)
  have d: "distinct (item_keys (map f (lfu_items env c)))" using L(2) by (simp add: item_keys_map)
  note s = same_items [OF q d]
  have at: "item_at (pq_iter ?P q) j = map_option f (item_at (lfu_items env c) j)" for j
    using s(3) by (simp add: item_at_map)
  have w: "items_weight (pq_iter ?P q) = items_weight (lfu_items env c)"
    using s(4) by (simp add: items_weight_def case_prod_beta comp_def)
  have freq: "0 < p_freq p" if "(x, p) \<in> set (pq_iter ?P q)" "ce_key x \<noteq> k" for x p
    using that s(2) lfu_wfD(3) [OF assms] by (auto simp: f_def split: if_splits)
  show ?thesis
  proof (cases "item_at (lfu_items env c) k")
    case None
    have "\<forall>(x, p) \<in> set (pq_iter ?P q). 0 < p_freq p"
      using freq at [of k] None by (force simp: item_at_None item_keys_def)
    then have "lfu_wf env (c\<lparr>lfu_queue := q\<rparr>)" using L(1) s(1) by (simp add: lfu_wf_def)
    moreover have "lfu_map env (c\<lparr>lfu_queue := q\<rparr>) = lfu_map env c"
      by (simp add: lfu_map_def fun_eq_iff at option.map_comp comp_def)
    moreover have "lfu_map env c k = None" using None by (simp add: lfu_map_def)
    ultimately show ?thesis
      using cp r None w by (simp add: lfu_remove_def lfu_weighed_def fun_upd_idem)
  next
    case (Some z)
    then have z: "(fst z, ?p) \<in> set (pq_iter ?P q)" "ce_key (fst z) = k"
      using at [of k] by (auto dest!: item_at_mem simp: f_def split: prod.splits)
    obtain x p q' where pop: "pq_pop ?P q = Some ((x, p), q')"
      using pq_popD(1) [OF L(1) s(1)] z by (cases "pq_pop ?P q") auto
    note pd = pq_popD(2) [OF L(1) s(1) pop]
    have xin: "(x, p) \<in> set (pq_iter ?P q)" using mset_eq_setD [OF pd] by simp
    have "?p \<le> p" using pq_popD(3) [OF L(1) s(1) pop z(1)] .
    then have "p_freq p = 0" by (cases p) auto
    with freq xin have x: "ce_key x = k" by fastforce
    have "(x, p) = (fst z, ?p)"
      using xin z x item_at_Some [OF s(1), of k] by (metis option.inject)
    then have xz: "x = fst z" by simp
    have d': "distinct (item_keys ((x, p) # pq_iter ?P q'))" using same_items(1) [OF pd [symmetric] s(1)] .
    note s' = same_items [OF pd d']
    let ?c = "c\<lparr>lfu_queue := q', lfu_total_weight := lfu_total_weight c - ce_weight x\<rparr>"
    have "0 < p_freq r" if "(y, r) \<in> set (pq_iter ?P q')" for y r
    proof -
      have "ce_key y \<in> set (item_keys (pq_iter ?P q'))" using that by (force simp: item_keys_def)
      then have "ce_key y \<noteq> k" using d' x by auto
      then show ?thesis using that s'(2) freq [of y r] by simp
    qed
    then have "lfu_wf env ?c" using L(1) d' by (auto simp: lfu_wf_def)
    moreover have "lfu_map env ?c = (lfu_map env c)(k := None)"
    proof
      fix j
      have "j \<noteq> k \<Longrightarrow> item_at (pq_iter ?P q') j = map_option f (item_at (lfu_items env c) j)"
        using s'(3) at [of j] x by (metis item_at_simps(2))
      moreover have "item_at (pq_iter ?P q') k = None" using d' x by (simp add: item_at_None)
      ultimately show "lfu_map env ?c j = ((lfu_map env c)(k := None)) j"
        by (simp add: lfu_map_def option.map_comp comp_def)
    qed
    moreover have "lfu_weighed env c \<longrightarrow> lfu_weighed env ?c" using s'(4) w by (simp add: lfu_weighed_def)
    moreover have "lfu_map env c k = Some (ce_value x)" using Some xz by (simp add: lfu_map_def)
    ultimately show ?thesis using cp r Some pop x by (simp add: lfu_remove_def)
  qed
qed

lemma lfu_extend_wf:
  assumes "lfu_wf env c" "lfu_wf env d"
  shows "lfu_wf env (lfu_extend env c (lfu_into_iter env d))"
    "lfu_map env (lfu_extend env c (lfu_into_iter env d)) k = Some v \<Longrightarrow> lfu_map env c k = Some v \<or> lfu_map env d k = Some v"
proof -
  note L = lfu_wfD(1,2) [OF assms(1)]
  let ?q = "pq_extend (le_pq env) (lfu_queue c) (lfu_items env d)"
  have e: "distinct (item_keys (pq_iter (le_pq env) ?q))"
    "fst ` set (pq_iter (le_pq env) ?q) \<subseteq> fst ` (set (lfu_items env c) \<union> set (lfu_items env d))"
    "snd ` set (pq_iter (le_pq env) ?q) \<subseteq> snd ` (set (lfu_items env c) \<union> set (lfu_items env d))"
    using L by (simp_all add: pq_laws_def pq_changes_def)
  have "0 < p_freq (snd z)" if "z \<in> set (pq_iter (le_pq env) ?q)" for z
  proof -
    have "snd z \<in> snd ` (set (lfu_items env c) \<union> set (lfu_items env d))" using subsetD [OF e(3) imageI [OF that]] .
    then obtain y where "y \<in> set (lfu_items env c) \<union> set (lfu_items env d)" "snd z = snd y" by (elim imageE) simp
    then show ?thesis
      using lfu_wfD(3) [OF assms(1), of "fst y" "snd y"] lfu_wfD(3) [OF assms(2), of "fst y" "snd y"] by auto
  qed
  then show "lfu_wf env (lfu_extend env c (lfu_into_iter env d))"
    using L(1) e(1) by (auto simp: lfu_wf_def lfu_extend_def lfu_into_iter_def)
  assume "lfu_map env (lfu_extend env c (lfu_into_iter env d)) k = Some v"
  then obtain z where z: "item_at (pq_iter (le_pq env) ?q) k = Some z" "ce_value (fst z) = v"
    by (auto simp: lfu_map_def lfu_extend_def lfu_into_iter_def)
  then have "fst z \<in> fst ` (set (lfu_items env c) \<union> set (lfu_items env d))" "ce_key (fst z) = k"
    using item_at_mem [OF z(1)] subsetD [OF e(2) imageI] by simp_all
  then obtain p where "(fst z, p) \<in> set (lfu_items env c) \<or> (fst z, p) \<in> set (lfu_items env d)"
    by (elim imageE) (metis Un_iff prod.collapse)
  then have "item_at (lfu_items env c) k = Some (fst z, p) \<or> item_at (lfu_items env d) k = Some (fst z, p)"
    using \<open>ce_key (fst z) = k\<close> by (simp add: item_at_Some lfu_wfD(2) [OF assms(1)] lfu_wfD(2) [OF assms(2)])
  then show "lfu_map env c k = Some v \<or> lfu_map env d k = Some v"
    using z(2) by (auto simp: lfu_map_def)
qed

section \<open>What eviction does\<close>

text \<open>
  \<open>out\<close> are the items that the loop has removed, in this order: none of them has a smaller priority than
  an item that stays, the cache fits afterwards, and it did not before the last one was removed.
\<close>

definition evicted ::
  "('q, 'k, 'v) lfu_env \<Rightarrow> usize \<Rightarrow> usize \<Rightarrow> 'q lfu_cache \<Rightarrow> (('k, 'v) cache_entry \<times> priority) list \<Rightarrow> 'q lfu_cache \<Rightarrow> bool" where
  "evicted env max_weight dead_weight c out c' \<longleftrightarrow>
     lfu_wf env c' \<and> mset (lfu_items env c) = mset (out @ lfu_items env c') \<and>
     lfu_total_weight c' = lfu_total_weight c - items_weight out \<and>
     lfu_total_weight c' + dead_weight \<le> max_weight \<and>
     (\<forall>z \<in> set out. \<forall>y \<in> set (lfu_items env c'). snd y \<le> snd z) \<and>
     (out \<noteq> [] \<longrightarrow> lfu_total_weight c' + ce_weight (fst (last out)) + dead_weight > max_weight)"

lemma evict_loop_law:
  assumes "lfu_wf env c" "lfu_len env c < n"
  shows "(\<exists>out c'. evict_loop n env mx dw (c, ev) = (Some (Ok (c', ev + items_weight out)) :: (_, 'e) outcome option) \<and>
        evicted env mx dw c out c') \<or>
    (evict_loop n env mx dw (c, ev) = (Some (Panic ''empty cache but total_weight > max_weight'') :: (_, 'e) outcome option) \<and>
      lfu_total_weight c - items_weight (lfu_items env c) + dw > mx)"
  using assms
proof (induction n arbitrary: c ev)
  case (Suc n)
  note L = lfu_wfD(1,2) [OF Suc.prems(1)]
  show ?case
  proof (cases "lfu_total_weight c + dw > mx")
    case False
    then have "evicted env mx dw c [] c" using Suc.prems(1) by (simp add: evicted_def not_less)
    with False show ?thesis by (intro disjI1 exI [of _ "[]"] exI [of _ c]) simp
  next
    case over: True
    show ?thesis
    proof (cases "pq_pop (le_pq env) (lfu_queue c)")
      case None
      with over pq_popD(1) [OF L None] show ?thesis by simp
    next
      case (Some r)
      then obtain x p q where pop: "pq_pop (le_pq env) (lfu_queue c) = Some ((x, p), q)" by (cases r) fastforce
      let ?c = "c\<lparr>lfu_queue := q, lfu_total_weight := lfu_total_weight c - ce_weight x\<rparr>"
      note pd = pq_popD(2) [OF L pop]
      have d: "distinct (item_keys ((x, p) # pq_iter (le_pq env) q))" using same_items(1) [OF pd [symmetric] L(2)] .
      note s = same_items [OF pd d]
      have wf: "lfu_wf env ?c" using L(1) d s(2) lfu_wfD(3) [OF Suc.prems(1)] by (auto simp: lfu_wf_def)
      have "lfu_len env ?c < n" using Suc.prems(2) mset_eq_length [OF pd] by (simp add: lfu_len_def)
      from Suc.IH [OF wf this, of "ev + ce_weight x"] show ?thesis
      proof (elim disjE exE conjE)
        fix out c'
        assume r: "evict_loop n env mx dw (?c, ev + ce_weight x) =
            (Some (Ok (c', ev + ce_weight x + items_weight out)) :: (_, 'e) outcome option)"
          and e: "evicted env mx dw ?c out c'"
        have "y \<in> set (lfu_items env c) \<Longrightarrow> snd y \<le> p" for y
          using pq_popD(3) [OF L pop, of "fst y" "snd y"] by simp
        moreover have "mset (lfu_items env c) = mset ((x, p) # out @ lfu_items env c')" using e pd by (simp add: evicted_def)
        from mset_eq_setD [OF this] have "set (lfu_items env c') \<subseteq> set (lfu_items env c)" by auto
        ultimately have "evicted env mx dw c ((x, p) # out) c'"
          using e pd over by (auto simp: evicted_def algebra_simps)
        with r over pop show ?thesis
          by (intro disjI1 exI [of _ "(x, p) # out"] exI [of _ c']) (simp add: algebra_simps)
      next
        assume "evict_loop n env mx dw (?c, ev + ce_weight x) =
            (Some (Panic ''empty cache but total_weight > max_weight'') :: (_, 'e) outcome option)"
          and "lfu_total_weight ?c - items_weight (lfu_items env ?c) + dw > mx"
        with over pop s(4) show ?thesis by (simp add: algebra_simps)
      qed
    qed
  qed
qed simp

lemma stale_update_wf:
  assumes "lfu_wf env c"
  shows "lfu_wf env (stale_update env c n)" "lfu_map env (stale_update env c n) = lfu_map env c"
    "lfu_weighed env c \<Longrightarrow> lfu_weighed env (stale_update env c n)"
    "mset (lfu_items env (stale_update env c n)) =
       mset (if lfu_stale_counter c + 1 = n then map mark_stale (lfu_items env c) else lfu_items env c)"
    "lfu_total_weight (stale_update env c n) = lfu_total_weight c" "lfu_dead_weight (stale_update env c n) = lfu_dead_weight c"
proof -
  note L = lfu_wfD(1,2) [OF assms]
  have f: "fst (mark_stale z) = (fst z)\<lparr>ce_will_stale := True\<rparr>" "p_freq (snd (mark_stale z)) = p_freq (snd z)"
    for z :: "('b, 'c) cache_entry \<times> priority"
    by (cases z, simp add: mark_stale_def)+
  let ?ys = "if lfu_stale_counter c + 1 = n then map mark_stale (lfu_items env c) else lfu_items env c"
  show m: "mset (lfu_items env (stale_update env c n)) = mset ?ys"
    using pq_lawsD(7) [OF L, of mark_stale] f(1) by (simp add: stale_update_def Let_def)
  show t: "lfu_total_weight (stale_update env c n) = lfu_total_weight c" "lfu_dead_weight (stale_update env c n) = lfu_dead_weight c"
    by (simp_all add: stale_update_def Let_def)
  have "distinct (item_keys ?ys)" using L(2) f(1) by (simp add: item_keys_map)
  moreover have "0 < p_freq (snd z)" if "z \<in> set (lfu_items env c)" for z
    using lfu_wfD(3) [OF assms, of "fst z" "snd z"] that by simp
  then have "\<forall>(x, p) \<in> set ?ys. 0 < p_freq p" using f(2) by (auto simp: case_prod_beta)
  ultimately have l: "lfu_wf env (stale_update env c n)"
      "lfu_map env (stale_update env c n) = (\<lambda>k. map_option (\<lambda>z. ce_value (fst z)) (item_at ?ys k))"
      "lfu_weighed env (stale_update env c n) \<longleftrightarrow> lfu_total_weight (stale_update env c n) = items_weight ?ys"
    using lfu_like [OF m L(1)] by blast+
  show "lfu_wf env (stale_update env c n)" by (rule l(1))
  show "lfu_map env (stale_update env c n) = lfu_map env c"
    using f(1) by (simp add: l(2) lfu_map_def [of env c] item_at_map option.map_comp comp_def fun_eq_iff)
  show "lfu_weighed env c \<Longrightarrow> lfu_weighed env (stale_update env c n)"
    using f(1) t(1) by (simp add: l(3) lfu_weighed_def [of env c] items_weight_def comp_def)
qed

text \<open>The weight without wrap-around\<close>

definition nat_weight :: "(('k, 'v) cache_entry \<times> priority) list \<Rightarrow> nat" where
  "nat_weight xs = sum_list (map (\<lambda>z. unat (ce_weight (fst z))) xs)"

lemma nat_weight_simps [simp]:
  "nat_weight [] = 0" "nat_weight (z # xs) = unat (ce_weight (fst z)) + nat_weight xs"
  "nat_weight (xs @ ys) = nat_weight xs + nat_weight ys"
  unfolding nat_weight_def by (simp_all only: list.map map_append sum_list.Nil sum_list.Cons sum_list.append)

lemma nat_weight_mset: "mset xs = mset ys \<Longrightarrow> nat_weight xs = nat_weight ys"
  by (simp add: nat_weight_def flip: sum_mset_sum_list)

lemma unat_usize_add: "unat x + unat y < 2 ^ 64 \<Longrightarrow> unat (x + y) = unat x + unat y" for x y :: usize
  by (rule iffD1 [OF unat_add_lem]) simp

lemma unat_items_weight: "nat_weight xs < 2 ^ 64 \<Longrightarrow> unat (items_weight xs) = nat_weight xs"
proof (induction xs)
  case (Cons z xs)
  then have "unat (items_weight xs) = nat_weight xs" by simp
  with Cons.prems show ?case by (cases z) (simp add: unat_usize_add)
qed simp

lemma nat_weight_mark_stale [simp]: "nat_weight (map mark_stale xs) = nat_weight xs"
  by (simp add: nat_weight_def comp_def mark_stale_def case_prod_beta)

lemma evicted_weight:
  assumes "evicted env mx 0 c out c'" "lfu_weighed env c" "nat_weight (lfu_items env c) < 2 ^ 64"
    "distinct (item_keys (lfu_items env c))"
  shows "lfu_weighed env c'" "unat (lfu_total_weight c') = nat_weight (lfu_items env c')"
    "nat_weight (lfu_items env c') \<le> unat mx"
    "out \<noteq> [] \<Longrightarrow> unat mx < nat_weight (lfu_items env c') + unat (ce_weight (fst (last out)))"
proof -
  have m: "mset (lfu_items env c) = mset (out @ lfu_items env c')" using assms(1) by (simp add: evicted_def)
  have n: "nat_weight out + nat_weight (lfu_items env c') < 2 ^ 64" using assms(3) nat_weight_mset [OF m] by simp
  have "items_weight (lfu_items env c) = items_weight out + items_weight (lfu_items env c')"
    using same_items(4) [OF m [symmetric] assms(4)] by (simp add: items_weight_def)
  then show w: "lfu_weighed env c'" using assms(1,2) by (simp add: evicted_def lfu_weighed_def)
  then show u: "unat (lfu_total_weight c') = nat_weight (lfu_items env c')"
    using n unat_items_weight [of "lfu_items env c'"] by (simp add: lfu_weighed_def)
  show "nat_weight (lfu_items env c') \<le> unat mx" using assms(1) u by (simp add: evicted_def word_le_nat_alt)
  assume out: "out \<noteq> []"
  then have "unat (ce_weight (fst (last out))) \<le> nat_weight out"
    by (cases out rule: rev_cases) simp_all
  then have "unat (lfu_total_weight c' + ce_weight (fst (last out))) = nat_weight (lfu_items env c') + unat (ce_weight (fst (last out)))"
    using n u by (simp add: unat_usize_add)
  with assms(1) out show "unat mx < nat_weight (lfu_items env c') + unat (ce_weight (fst (last out)))"
    by (simp add: evicted_def word_less_nat_alt)
qed

lemma evicted_map_le:
  assumes "evicted env mx dw c out c'" "lfu_wf env c"
  shows "lfu_map env c' \<subseteq>\<^sub>m lfu_map env c"
proof -
  have m: "mset (lfu_items env c) = mset (out @ lfu_items env c')" using assms(1) by (simp add: evicted_def)
  have "lfu_map env c k = Some v" if v: "lfu_map env c' k = Some v" for k v
  proof -
    obtain z where z: "item_at (lfu_items env c') k = Some z" "ce_value (fst z) = v"
      using v by (auto simp: lfu_map_def)
    then have "z \<in> set (lfu_items env c)" "ce_key (fst z) = k"
      using item_at_mem [OF z(1)] mset_eq_setD [OF m] by auto
    then have "item_at (lfu_items env c) k = Some z" using item_at_Some [OF lfu_wfD(2) [OF assms(2)]] by (metis prod.collapse)
    with z(2) show ?thesis by (simp add: lfu_map_def)
  qed
  then show ?thesis by (auto simp: map_le_def dom_def)
qed

text \<open>Whatever the weights, eviction ends, with fewer entries or with the panic.\<close>

lemma evict_and_stats_returns:
  assumes "lfu_wf env c"
  shows "evict_and_stats env c mx = (Some (Panic ''empty cache but total_weight > max_weight'') :: (_, 'e) outcome option) \<or>
    (\<exists>st c'. evict_and_stats env c mx = (Some (Ok (st, c')) :: (_, 'e) outcome option) \<and> lfu_wf env c' \<and>
       lfu_map env c' \<subseteq>\<^sub>m lfu_map env c)"
proof (cases "lfu_total_weight c \<le> mx")
  case True
  then show ?thesis using assms by (simp add: evict_and_stats_def evict_with_period_def and_then_opt_def)
next
  case False
  note s = stale_update_wf [OF assms, of STALE_PERIOD]
  let ?c = "stale_update env c STALE_PERIOD"
  define dw where "dw = (if lfu_dead_weight ?c then word_of_nat (lfu_len env ?c) * (le_entry_size env + 40) else 0)"
  from evict_loop_law [OF s(1) lessI, of mx dw 0, where ?'e = 'e] show ?thesis
  proof (elim disjE exE conjE)
    fix out c'
    assume "evict_loop (Suc (lfu_len env ?c)) env mx dw (?c, 0) =
        (Some (Ok (c', 0 + items_weight out)) :: (_, 'e) outcome option)" "evicted env mx dw ?c out c'"
    moreover from this(2) have "lfu_wf env c'" "lfu_map env c' \<subseteq>\<^sub>m lfu_map env c"
      using evicted_map_le [OF _ s(1)] s(2) by (auto simp: evicted_def)
    ultimately show ?thesis
      using False by (simp add: evict_and_stats_def evict_with_period_def Let_def and_then_opt_def dw_def del: evict_loop.simps)
  qed (use False in \<open>simp add: evict_and_stats_def evict_with_period_def Let_def and_then_opt_def dw_def del: evict_loop.simps\<close>)
qed

section \<open>The cache as a map\<close>

text \<open>What a cache is for a component that uses it: a map that may lose entries only when asked to.\<close>

definition reflects :: "('v \<Rightarrow> 'w \<Rightarrow> bool) \<Rightarrow> ('k \<rightharpoonup> 'v) \<Rightarrow> ('k \<Rightarrow> 'w) \<Rightarrow> bool" where
  "reflects R m st \<longleftrightarrow> (\<forall>k v. m k = Some v \<longrightarrow> R v (st k))"

lemma reflects_upd: "reflects R m st \<Longrightarrow> R v (st k) \<Longrightarrow> reflects R (m(k \<mapsto> v)) st"
  by (simp add: reflects_def)

locale lookup_cache =
  fixes inv :: "'c \<Rightarrow> bool"
    and content :: "'c \<Rightarrow> 'k \<rightharpoonup> 'v"
    and contains :: "'c \<Rightarrow> 'k \<Rightarrow> bool"
    and lookup :: "'c \<Rightarrow> 'k \<Rightarrow> 'v option \<times> 'c"
    and store :: "'c \<Rightarrow> 'k \<Rightarrow> 'v \<Rightarrow> 'c"
    and take_out :: "'c \<Rightarrow> 'k \<Rightarrow> ('v option \<times> 'c, 'e) outcome"
  assumes contains_law: "inv c \<Longrightarrow> contains c k \<longleftrightarrow> content c k \<noteq> None"
    and lookup_law: "inv c \<Longrightarrow> \<exists>c'. lookup c k = (content c k, c') \<and> inv c' \<and> content c' = content c"
    and store_law: "inv c \<Longrightarrow> inv (store c k v) \<and> content (store c k v) = (content c)(k \<mapsto> v)"
    and take_out_law: "inv c \<Longrightarrow> \<exists>c'. take_out c k = Ok (content c k, c') \<and> inv c' \<and> content c' = (content c)(k := None)"
begin

text \<open>Reading through the cache: what is missing comes from the source that the cache reflects.\<close>

lemma read_through:
  assumes "inv c" "reflects R (content c) st" "R v (st k)"
  shows "\<exists>c' r. lookup (if contains c k then c else store c k v) k = (Some r, c') \<and> R r (st k) \<and> inv c' \<and>
    reflects R (content c') st"
proof -
  let ?c = "if contains c k then c else store c k v"
  have c: "inv ?c" "reflects R (content ?c) st" "content ?c k \<noteq> None"
    using assms contains_law [OF assms(1)] store_law [OF assms(1)] by (auto simp: reflects_def)
  then obtain r where "content ?c k = Some r" by blast
  with c lookup_law [OF c(1), of k] show ?thesis by (auto simp: reflects_def)
qed

text \<open>Filling the cache with values that were read together\<close>

lemma fill:
  assumes "inv c" "reflects R (content c) st" "\<forall>(k, v) \<in> set kvs. R v (st k)"
  shows "inv (fold (\<lambda>(k, v) c. store c k v) kvs c)"
    "content (fold (\<lambda>(k, v) c. store c k v) kvs c) = content c ++ map_of (rev kvs)"
    "reflects R (content (fold (\<lambda>(k, v) c. store c k v) kvs c)) st"
proof -
  have "inv (fold (\<lambda>(k, v) c. store c k v) kvs c) \<and>
      content (fold (\<lambda>(k, v) c. store c k v) kvs c) = content c ++ map_of (rev kvs) \<and>
      reflects R (content (fold (\<lambda>(k, v) c. store c k v) kvs c)) st"
    using assms
  proof (induction kvs arbitrary: c)
    case (Cons kv kvs)
    obtain k v where kv: "kv = (k, v)" by (cases kv)
    have s: "inv (store c k v)" "content (store c k v) = (content c)(k \<mapsto> v)" using store_law [OF Cons.prems(1)] by auto
    have r: "reflects R (content (store c k v)) st" unfolding s(2) using Cons.prems(2,3) kv by (intro reflects_upd) simp_all
    have f: "fold (\<lambda>(k, v) c. store c k v) (kv # kvs) c = fold (\<lambda>(k, v) c. store c k v) kvs (store c k v)"
      "content c ++ map_of (rev (kv # kvs)) = content (store c k v) ++ map_of (rev kvs)"
      using kv s(2) by simp_all
    show ?case unfolding f using Cons.prems(3) by (intro Cons.IH s(1) r) simp
  qed simp
  then show "inv (fold (\<lambda>(k, v) c. store c k v) kvs c)"
    "content (fold (\<lambda>(k, v) c. store c k v) kvs c) = content c ++ map_of (rev kvs)"
    "reflects R (content (fold (\<lambda>(k, v) c. store c k v) kvs c)) st" by blast+
qed

text \<open>Replacing one entry follows a change of the source.\<close>

lemma replace:
  assumes "inv c" "reflects R (content c) st"
  obtains c' where "take_out c k = Ok (content c k, c')" "inv c'" "content c' = (content c)(k := None)"
    "reflects R (content c') (st(k := w))"
    "\<And>v. R v w \<Longrightarrow> inv (store c' k v) \<and> reflects R (content (store c' k v)) (st(k := w))"
proof -
  obtain c' where c': "take_out c k = Ok (content c k, c')" "inv c'" "content c' = (content c)(k := None)"
    using take_out_law [OF assms(1)] by blast
  have "reflects R (content c') (st(k := w))" using assms(2) c'(3) by (auto simp: reflects_def)
  moreover from this have "inv (store c' k v) \<and> reflects R (content (store c' k v)) (st(k := w))" if "R v w" for v
    using that store_law [OF c'(2)] reflects_upd [of R "content c'" "st(k := w)" v k] by simp
  ultimately show ?thesis using c' that by blast
qed

end

interpretation lfu: lookup_cache "lfu_wf env" "lfu_map env" "lfu_contains_key env" "lfu_get env" "lfu_insert env" "lfu_remove env"
  for env
proof
  fix c :: "'a lfu_cache" and k v
  assume c: "lfu_wf env c"
  show "lfu_contains_key env c k \<longleftrightarrow> lfu_map env c k \<noteq> None" using c by (rule lfu_contains_key_iff)
  show "\<exists>c'. lfu_get env c k = (lfu_map env c k, c') \<and> lfu_wf env c' \<and> lfu_map env c' = lfu_map env c"
    using lfu_get_law [OF c] by blast
  show "lfu_wf env (lfu_insert env c k v) \<and> lfu_map env (lfu_insert env c k v) = (lfu_map env c)(k \<mapsto> v)"
    using lfu_insert_law [OF c] by blast
  show "\<exists>c'. lfu_remove env c k = Ok (lfu_map env c k, c') \<and> lfu_wf env c' \<and> lfu_map env c' = (lfu_map env c)(k := None)"
    using lfu_remove_law [OF c] by blast
qed

section \<open>Properties\<close>

lemma evict_with_period_law:
  assumes "lfu_wf env c" "lfu_weighed env c" "nat_weight (lfu_items env c) < 2 ^ 64" "\<not> lfu_dead_weight c"
    "mx < lfu_total_weight c"
  obtains out c' st where "evict_with_period env c mx n = (Some (Ok (Some st, c')) :: (_, 'e) outcome option)"
    "evicted env mx 0 (stale_update env c n) out c'" "es_new_weight st = lfu_total_weight c'"
    "es_evicted_weight st = items_weight out" "es_new_count st = lfu_len env c'" "es_evicted_count st = length out"
proof -
  note s = stale_update_wf [OF assms(1), of n]
  let ?c = "stale_update env c n"
  have "items_weight (lfu_items env ?c) = lfu_total_weight ?c"
    using s(3) assms(2) by (simp add: lfu_weighed_def)
  then have "\<not> mx < lfu_total_weight ?c - items_weight (lfu_items env ?c) + 0" by simp
  then obtain out c' where e: "evict_loop (Suc (lfu_len env ?c)) env mx 0 (?c, 0) =
        (Some (Ok (c', 0 + items_weight out)) :: (_, 'e) outcome option)" "evicted env mx 0 ?c out c'"
    using evict_loop_law [OF s(1), of "Suc (lfu_len env ?c)" mx 0 0, where ?'e = 'e] by blast
  have "mset (lfu_items env ?c) = mset (out @ lfu_items env c')" using e(2) by (simp add: evicted_def)
  from mset_eq_length [OF this] have "lfu_len env ?c - lfu_len env c' = length out" by (simp add: lfu_len_def)
  with e assms(4,5) s(6) show ?thesis
    by (intro that [where out = out and c' = c'])
      (auto simp: evict_with_period_def Let_def not_le and_then_opt_def simp del: evict_loop.simps)
qed


text \<open>A cache of weights, with a weight of one for every key\<close>

definition example_lfu :: "(((string, usize) cache_entry \<times> priority) list, string, usize) lfu_env" where
  "example_lfu = \<lparr>le_pq = list_pq, le_key_weight = (\<lambda>_. 1), le_value_weight = (\<lambda>v. v), le_default = 0,
     le_entry_size = 64, le_cache_dead_weight = False\<rparr>"

definition example_animals :: "((string, usize) cache_entry \<times> priority) list lfu_cache" where
  "example_animals = snd (lfu_get example_lfu
     (lfu_insert example_lfu (lfu_insert example_lfu (lfu_new example_lfu) ''panda'' 2) ''cow'' 1) ''cow'')"

lemmas lfu_eval = lfu_new_def lfu_insert_def lfu_get_def lfu_get_mut_def lfu_remove_def lfu_extend_def lfu_into_iter_def
  lfu_len_def entry_weight_def cache_key_def evict_def evict_with_period_def stale_update_def STALE_PERIOD_def
  and_then_opt_def list_pop_def item_keys_def Let_def example_lfu_def

lemma example_animals_eval:
  "example_animals =
     \<lparr>lfu_queue =
        [(\<lparr>ce_weight = 2, ce_key = ''cow'', ce_value = 1, ce_will_stale = False\<rparr>, Priority False 2),
         (\<lparr>ce_weight = 3, ce_key = ''panda'', ce_value = 2, ce_will_stale = False\<rparr>, Priority False 1)],
      lfu_total_weight = 5, lfu_stale_counter = 0, lfu_dead_weight = False, lfu_accesses = 3, lfu_hits = 1\<rparr>"
  by (simp add: example_animals_def lfu_eval)



end
