(* ===== verification/Entity_Cache.thy ===== *)
theory Entity_Cache
  imports Entity_Data Write_Batch Lfu_Cache "HOL-Library.Product_Lexorder"
begin

text \<open>
  The cache of the entities that the handlers of a block read and change,
  \<open>graph/src/components/store/entity_cache.rs\<close>. Changes are collected as operations, in one map for the
  block and one for the handler that is running, on top of a cache of what the store has;
  \<open>as_modifications\<close> turns them into the modifications that are written.
\<close>

section \<open>Operations on one entity\<close>

datatype 'd cache_op = CRemove | CUpdate "'d entity" | COverwrite "'d entity"

definition apply_to :: "'d cache_op \<Rightarrow> 'd entity option \<Rightarrow> ('d entity option, intern_error) outcome" where
  "apply_to op entity =
     (case (op, entity) of
        (CRemove, _) \<Rightarrow> Ok None
      | (COverwrite new, _) \<Rightarrow> Ok (Some new)
      | (CUpdate new, None) \<Rightarrow> Ok (Some new)
      | (CUpdate updates, Some e) \<Rightarrow> map_ok (\<lambda>r. Some (snd r)) (merge_remove_null_fields e updates))"

definition accumulate :: "'d cache_op \<Rightarrow> 'd cache_op \<Rightarrow> ('d cache_op, intern_error) outcome" where
  "accumulate op next_op =
     (case next_op of
        CRemove \<Rightarrow> Ok next_op
      | COverwrite _ \<Rightarrow> Ok next_op
      | CUpdate update \<Rightarrow>
          (case op of
             CRemove \<Rightarrow> Ok (COverwrite update)
           | CUpdate current \<Rightarrow> map_ok CUpdate (entity_merge current update)
           | COverwrite current \<Rightarrow> map_ok COverwrite (entity_merge current update)))"

text \<open>\<open>EntityKey::unknown_attribute\<close>\<close>

definition unknown_attribute :: "entity_key \<Rightarrow> intern_error \<Rightarrow> store_error" where
  "unknown_attribute key e = UnknownAttribute (k_entity_type key) (not_interned e)"

section \<open>The cache\<close>

text \<open>
  The hash maps of operations are lists of pairs with different keys, in the order in which the map
  iterates; the order is not used otherwise.
\<close>

type_synonym 'd cache_ops = "(entity_key \<times> 'd cache_op) list"

record ('q, 'd) entity_cache =
  ec_current :: "'q lfu_cache"
  ec_updates :: "'d cache_ops"
  ec_handler_updates :: "'d cache_ops"
  ec_in_handler :: bool
  ec_seq_gen :: seq_generator

text \<open>
  A query for the entities whose field has a certain id (\<open>DerivedEntityQuery\<close>), and the request for them
  by the field of the other entity (\<open>LoadRelatedRequest\<close>).
\<close>

record derived_entity_query =
  deq_entity_type :: entity_type
  deq_entity_field :: string
  deq_value :: Id
  deq_causality_region :: causality_region

record load_related_request =
  lr_entity_type :: entity_type
  lr_entity_id :: Id
  lr_entity_field :: string
  lr_causality_region :: causality_region

definition query_matches :: "derived_entity_query \<Rightarrow> entity_key \<Rightarrow> 'd entity \<Rightarrow> bool" where
  "query_matches query key e \<longleftrightarrow>
     k_entity_type key = deq_entity_type query \<and> k_causality_region key = deq_causality_region query \<and>
     (case entity_get e (deq_entity_field query) of Some v \<Rightarrow> id_eq_value (deq_value query) v | None \<Rightarrow> False)"

text \<open>
  What the cache is given: the store it reads (\<open>ReadStore\<close>), the schema (the fields and the immutability of
  types, and which field a derived field stands for), the weight of an entity, and the size limit
  \<open>ENV_VARS.mappings.entity_cache_size\<close>.
\<close>

record ('q, 'd) cache_env =
  cn_lfu :: "('q, entity_key, 'd entity option) lfu_env"
  cn_get :: "entity_key \<Rightarrow> ('d entity option, store_error) outcome"
  cn_get_many :: "entity_key list \<Rightarrow> ((entity_key \<times> 'd entity) list, store_error) outcome"
  cn_get_derived :: "derived_entity_query \<Rightarrow> ((entity_key \<times> 'd entity) list, store_error) outcome"
  cn_object_type :: "entity_type \<Rightarrow> field list option"
  cn_is_immutable :: "entity_type \<Rightarrow> bool"
  cn_field_related :: "load_related_request \<Rightarrow> (entity_type \<times> string, string) outcome"
  cn_weight :: "'d entity \<Rightarrow> usize"
  cn_cache_size :: usize

definition cache_with_current :: "'q lfu_cache \<Rightarrow> seq_generator \<Rightarrow> ('q, 'd) entity_cache" where
  "cache_with_current current seq_gen =
     \<lparr>ec_current = current, ec_updates = [], ec_handler_updates = [], ec_in_handler = False, ec_seq_gen = seq_gen\<rparr>"

definition cache_new :: "('q, 'd) cache_env \<Rightarrow> seq_generator \<Rightarrow> ('q, 'd) entity_cache" where
  "cache_new env seq_gen =
     \<lparr>ec_current = lfu_new (cn_lfu env), ec_updates = [], ec_handler_updates = [], ec_in_handler = False, ec_seq_gen = seq_gen\<rparr>"

definition add_op :: "'d cache_ops \<Rightarrow> entity_key \<Rightarrow> 'd cache_op \<Rightarrow> ('d cache_ops, 'err) outcome" where
  "add_op ops key op =
     (case map_of ops key of
        None \<Rightarrow> Ok (ops @ [(key, op)])
      | Some old \<Rightarrow>
          (case accumulate old op of
             Ok new \<Rightarrow> Ok (map (\<lambda>(k, o'). (k, if k = key then new else o')) ops)
           | Err e \<Rightarrow> Panic ''merge does not return errors''
           | Panic s \<Rightarrow> Panic s))"

definition cache_entity_op :: "('q, 'd) entity_cache \<Rightarrow> entity_key \<Rightarrow> 'd cache_op \<Rightarrow> (('q, 'd) entity_cache, 'err) outcome" where
  "cache_entity_op c key op =
     (if ec_in_handler c
      then map_ok (\<lambda>ops. c\<lparr>ec_handler_updates := ops\<rparr>) (add_op (ec_handler_updates c) key op)
      else map_ok (\<lambda>ops. c\<lparr>ec_updates := ops\<rparr>) (add_op (ec_updates c) key op))"

definition cache_enter_handler :: "('q, 'd) entity_cache \<Rightarrow> (('q, 'd) entity_cache, 'err) outcome" where
  "cache_enter_handler c =
     (if ec_in_handler c then Panic ''assertion failed: !self.in_handler'' else Ok (c\<lparr>ec_in_handler := True\<rparr>))"

definition cache_exit_handler :: "('q, 'd) entity_cache \<Rightarrow> (('q, 'd) entity_cache, 'err) outcome" where
  "cache_exit_handler c =
     (if \<not> ec_in_handler c then Panic ''assertion failed: self.in_handler''
      else try_fold (\<lambda>c (key, op). cache_entity_op c key op)
             (c\<lparr>ec_in_handler := False, ec_handler_updates := []\<rparr>) (ec_handler_updates c))"

definition cache_discard_handler :: "('q, 'd) entity_cache \<Rightarrow> (('q, 'd) entity_cache, 'err) outcome" where
  "cache_discard_handler c =
     (if \<not> ec_in_handler c then Panic ''assertion failed: self.in_handler''
      else Ok (c\<lparr>ec_in_handler := False, ec_handler_updates := []\<rparr>))"

section \<open>Reading\<close>

datatype get_scope = ScopeStore | ScopeInBlock

definition apply_ops :: "'d cache_ops \<Rightarrow> entity_key \<Rightarrow> 'd entity option \<Rightarrow> ('d entity option, store_error) outcome" where
  "apply_ops ops key entity =
     (case map_of ops key of
        None \<Rightarrow> Ok entity
      | Some op \<Rightarrow> map_err (unknown_attribute key) (apply_to op entity))"

definition cache_load ::
  "('q, 'd) cache_env \<Rightarrow> ('q, 'd) entity_cache \<Rightarrow> entity_key \<Rightarrow> ('d entity option \<times> ('q, 'd) entity_cache, store_error) outcome" where
  "cache_load env c key =
     and_then
       (if lfu_contains_key (cn_lfu env) (ec_current c) key then Ok (ec_current c)
        else map_ok (lfu_insert (cn_lfu env) (ec_current c) key) (cn_get env key))
       (\<lambda>current.
          case lfu_get (cn_lfu env) current key of
            (None, _) \<Rightarrow> Panic ''called Option::unwrap() on a None value''
          | (Some entity, current') \<Rightarrow> Ok (entity, c\<lparr>ec_current := current'\<rparr>))"

text \<open>An error of \<open>get\<close> leaves the cache as it was, or with the entity loaded when only the updates failed.\<close>

definition cache_get ::
  "('q, 'd) cache_env \<Rightarrow> ('q, 'd) entity_cache \<Rightarrow> entity_key \<Rightarrow> get_scope \<Rightarrow>
     ('q, 'd) entity_cache \<times> ('d entity option, store_error) outcome" where
  "cache_get env c key scope =
     (case (case scope of ScopeStore \<Rightarrow> cache_load env c key | ScopeInBlock \<Rightarrow> Ok (None, c)) of
        Err e \<Rightarrow> (c, Err e)
      | Panic s \<Rightarrow> (c, Panic s)
      | Ok (entity, c') \<Rightarrow>
          (c', and_then (apply_ops (ec_updates c') key entity) (apply_ops (ec_handler_updates c') key)))"

text \<open>
  \<open>load_related\<close>. The candidates are a \<open>BTreeSet\<close>: they are looked at in the order of their keys. Its errors
  are \<open>anyhow\<close> errors.
\<close>

datatype related_error = FieldError string | RelatedStoreError store_error

fun id_rank :: "Id \<Rightarrow> nat \<times> string \<times> nat list \<times> int" where
  "id_rank (StringId s) = (0, s, [], 0)"
| "id_rank (BytesId b) = (1, [], map unat b, 0)"
| "id_rank (Int8Id n) = (2, [], [], sint n)"

definition key_rank :: "entity_key \<Rightarrow> string \<times> (nat \<times> string \<times> nat list \<times> int) \<times> int" where
  "key_rank key = (k_entity_type key, id_rank (k_entity_id key), k_causality_region key)"

definition related_candidates ::
  "('q, 'd) entity_cache \<Rightarrow> derived_entity_query \<Rightarrow> (entity_key \<times> 'd entity) list \<Rightarrow> entity_key list" where
  "related_candidates c query stored =
     sort_key key_rank (remdups (map fst stored @
       filter (\<lambda>key. k_entity_type key = deq_entity_type query \<and> k_causality_region key = deq_causality_region query)
         (map fst (ec_updates c) @ map fst (ec_handler_updates c))))"

definition related_step ::
  "('q, 'd) entity_cache \<Rightarrow> derived_entity_query \<Rightarrow> (entity_key \<times> 'd entity) list \<Rightarrow> 'd entity list \<Rightarrow> entity_key \<Rightarrow>
     ('d entity list, store_error) outcome" where
  "related_step c query stored result key =
     and_then (and_then (apply_ops (ec_updates c) key (map_of stored key)) (apply_ops (ec_handler_updates c) key))
       (\<lambda>entity. Ok (case entity of
          Some e \<Rightarrow> if query_matches query key e then result @ [e] else result
        | None \<Rightarrow> result))"

definition cache_load_related ::
  "('q, 'd) cache_env \<Rightarrow> ('q, 'd) entity_cache \<Rightarrow> load_related_request \<Rightarrow>
     ('q, 'd) entity_cache \<times> ('d entity list, related_error) outcome" where
  "cache_load_related env c eref =
     (case cn_field_related env eref of
        Err e \<Rightarrow> (c, Err (FieldError e))
      | Panic s \<Rightarrow> (c, Panic s)
      | Ok (entity_type, name) \<Rightarrow>
          (let query = \<lparr>deq_entity_type = entity_type, deq_entity_field = name, deq_value = lr_entity_id eref,
                        deq_causality_region = lr_causality_region eref\<rparr>
           in case cn_get_derived env query of
                Err e \<Rightarrow> (c, Err (RelatedStoreError e))
              | Panic s \<Rightarrow> (c, Panic s)
              | Ok stored \<Rightarrow>
                  (let current = fold (\<lambda>(key, e) cur.
                         if lfu_contains_key (cn_lfu env) cur key then cur else lfu_insert (cn_lfu env) cur key (Some e))
                         stored (ec_current c)
                   in (c\<lparr>ec_current := current\<rparr>,
                       map_err RelatedStoreError
                         (try_fold (related_step c query stored) [] (related_candidates c query stored))))))"

section \<open>Changing\<close>

definition cache_remove :: "('q, 'd) entity_cache \<Rightarrow> entity_key \<Rightarrow> (('q, 'd) entity_cache, 'err) outcome" where
  "cache_remove c key = cache_entity_op c key CRemove"

datatype 'd set_error =
    WriteLimitExceeded Id
  | VidAlreadyPresent "'d Value"
  | NotReadBack entity_key
  | SetValidation "'d entity_error"
  | SetStore store_error

text \<open>
  The part of \<open>set\<close> that counts the write against the capacity that remains for the block. The subtraction is
  that of a build without overflow checks.
\<close>

definition take_capacity ::
  "('q, 'd) cache_env \<Rightarrow> ('q, 'd) entity_cache \<Rightarrow> entity_key \<Rightarrow> 'd entity \<Rightarrow> usize option \<Rightarrow> (usize option, 'd set_error) outcome" where
  "take_capacity env c key e capacity =
     (case capacity of
        None \<Rightarrow> Ok None
      | Some remaining \<Rightarrow>
          (if \<not> lfu_contains_key (cn_lfu env) (ec_current c) key \<and> cn_weight env e > remaining
           then Err (WriteLimitExceeded (k_entity_id key))
           else Ok (Some (remaining - cn_weight env e))))"

definition check_read_back ::
  "('q, 'd) cache_env \<Rightarrow> ('q, 'd) entity_cache \<Rightarrow> entity_key \<Rightarrow> ('q, 'd) entity_cache \<times> (unit, 'd set_error) outcome" where
  "check_read_back env c key =
     (case cache_get env c key ScopeStore of
        (c', r) \<Rightarrow>
          (c', and_then (map_err SetStore r) (\<lambda>entity.
             case entity of
               None \<Rightarrow> Err (NotReadBack key)
             | Some e \<Rightarrow> map_err SetValidation (entity_validate (cn_object_type env) e key))))"

definition cache_set ::
  "('q, 'd) cache_env \<Rightarrow> ('q, 'd) entity_cache \<Rightarrow> entity_key \<Rightarrow> 'd entity \<Rightarrow> usize option \<Rightarrow>
     ('q, 'd) entity_cache \<times> usize option \<times> (unit, 'd set_error) outcome" where
  "cache_set env c key e capacity =
     (case take_capacity env c key e capacity of
        Err err \<Rightarrow> (c, capacity, Err err)
      | Panic s \<Rightarrow> (c, capacity, Panic s)
      | Ok capacity' \<Rightarrow>
          (let (vid, gen) = seq_vid (ec_seq_gen c);
               c1 = c\<lparr>ec_seq_gen := gen\<rparr>
           in case entity_set_vid e vid of
                Err _ \<Rightarrow> (c1, capacity', Panic ''the vid should be set'')
              | Panic s \<Rightarrow> (c1, capacity', Panic s)
              | Ok (Some old, _) \<Rightarrow> (c1, capacity', Err (VidAlreadyPresent old))
              | Ok (None, e') \<Rightarrow>
                  (case cache_entity_op c1 key (CUpdate e') of
                     Err err \<Rightarrow> (c1, capacity', Err err)
                   | Panic s \<Rightarrow> (c1, capacity', Panic s)
                   | Ok c2 \<Rightarrow>
                       (if is_ok (entity_validate (cn_object_type env) e key) then (c2, capacity', Ok ())
                        else (case check_read_back env c2 key of (c3, r) \<Rightarrow> (c3, capacity', r))))))"

datatype 'd entity_operation = OpSet entity_key "'d entity" | OpRemove entity_key

definition cache_append :: "('q, 'd) entity_cache \<Rightarrow> 'd entity_operation list \<Rightarrow> (('q, 'd) entity_cache, 'err) outcome" where
  "cache_append c operations =
     (if ec_in_handler c then Panic ''assertion failed: !self.in_handler''
      else try_fold (\<lambda>c operation.
             case operation of
               OpSet key e \<Rightarrow> cache_entity_op c key (CUpdate e)
             | OpRemove key \<Rightarrow> cache_entity_op c key CRemove) c operations)"

definition cache_extend ::
  "('q, 'd) cache_env \<Rightarrow> ('q, 'd) entity_cache \<Rightarrow> ('q, 'd) entity_cache \<Rightarrow> (('q, 'd) entity_cache, 'err) outcome" where
  "cache_extend env c other =
     (if ec_in_handler other then Panic ''assertion failed: !other.in_handler''
      else try_fold (\<lambda>c (key, op). cache_entity_op c key op)
             (c\<lparr>ec_current := lfu_extend (cn_lfu env) (ec_current c) (lfu_into_iter (cn_lfu env) (ec_current other))\<rparr>)
             (ec_updates other))"

section \<open>The modifications of a block\<close>

text \<open>
  One round of the loop of \<open>as_modifications\<close>: the entry of the key is taken out of the cache of the store
  and put back as it will be once the modification is written. \<open>remove_null_fields\<close> and the comparison
  of entities return no errors in the code; a panic in them stays one.
\<close>

definition as_modification ::
  "('q, 'd) cache_env \<Rightarrow> block_number \<Rightarrow> 'q lfu_cache \<times> 'd entity entity_modification list \<Rightarrow> entity_key \<times> 'd cache_op \<Rightarrow>
     ('q lfu_cache \<times> 'd entity entity_modification list, store_error) outcome" where
  "as_modification env block = (\<lambda>(cur, mods) (key, update).
     and_then (lfu_remove (cn_lfu env) cur key) (\<lambda>(old, cur1).
       let insert = (\<lambda>u. and_then (map_err (unknown_attribute key) (remove_null_fields u)) (\<lambda>data.
             Ok (lfu_insert (cn_lfu env) cur1 key (Some data), mods @ [Insert key data block None])))
       in case (case old of Some (Some e) \<Rightarrow> Some e | _ \<Rightarrow> None, update) of
            (None, CUpdate u) \<Rightarrow> insert u
          | (None, COverwrite u) \<Rightarrow> insert u
          | (Some current, CUpdate u) \<Rightarrow>
              and_then (map_err (unknown_attribute key) (merge_remove_null_fields current u)) (\<lambda>(changed, data).
                Ok (lfu_insert (cn_lfu env) cur1 key (Some data),
                    if changed then mods @ [Overwrite key data block None] else mods))
          | (Some current, COverwrite data) \<Rightarrow>
              and_then (map_err (unknown_attribute key) (entity_eq current data)) (\<lambda>same.
                Ok (lfu_insert (cn_lfu env) cur1 key (Some data),
                    if \<not> same then mods @ [Overwrite key data block None] else mods))
          | (Some _, CRemove) \<Rightarrow> Ok (lfu_insert (cn_lfu env) cur1 key None, mods @ [Remove key block])
          | (None, CRemove) \<Rightarrow> Ok (cur1, mods)))"

text \<open>\<open>ModificationsAndCache\<close> is the triple of the modifications, the cache and the statistics.\<close>

definition as_modifications ::
  "('q, 'd) cache_env \<Rightarrow> ('q, 'd) entity_cache \<Rightarrow> block_number \<Rightarrow>
     ('d entity entity_modification list \<times> 'q lfu_cache \<times> evict_stats, store_error) outcome option" where
  "as_modifications env c block =
     (if ec_in_handler c then Some (Panic ''assertion failed: !self.in_handler'')
      else
        let missing = filter (\<lambda>key. \<not> cn_is_immutable env (k_entity_type key))
              (filter (\<lambda>key. \<not> lfu_contains_key (cn_lfu env) (ec_current c) key) (map fst (ec_updates c)))
        in and_then_opt (Some (cn_get_many env missing)) (\<lambda>found.
             let current = fold (\<lambda>(key, v) cur. lfu_insert (cn_lfu env) cur key v)
                   (map (\<lambda>(key, e). (key, Some e)) found) (ec_current c)
             in and_then_opt (Some (try_fold (as_modification env block) (current, []) (ec_updates c))) (\<lambda>(cur, mods).
                  and_then_opt (evict_and_stats (cn_lfu env) cur (cn_cache_size env)) (\<lambda>(stats, cur').
                    Some (Ok (mods, cur', stats))))))"

end
