(* ===== verification/Entity_Cache_Laws.thy ===== *)
theory Entity_Cache_Laws
  imports Entity_Cache
begin

text \<open>
  What the entity cache shows. An entity counts by its visible attributes without the nulls
  (\<open>value_view\<close>); an operation is a function on such views, and a cache with its pending operations
  is a change of what the store has. All entities of a deployment are made from the pool of its schema.
\<close>

section \<open>Views\<close>

type_synonym 'd attrs = "string \<rightharpoonup> 'd Value"

definition value_view :: "'d entity \<Rightarrow> 'd attrs" where
  "value_view e = apply_changes Map.empty (entity_get e)"

definition in_pool :: "atom_pool arc \<Rightarrow> 'd entity \<Rightarrow> bool" where
  "in_pool pl e \<longleftrightarrow> obj_wf e \<and> obj_pool e = pl"

definition shown :: "atom_pool arc \<Rightarrow> 'd entity option \<Rightarrow> 'd attrs option \<Rightarrow> bool" where
  "shown pl v w \<longleftrightarrow> (\<forall>e. v = Some e \<longrightarrow> in_pool pl e) \<and> map_option value_view v = w"

fun op_view :: "'d cache_op \<Rightarrow> 'd attrs option \<Rightarrow> 'd attrs option" where
  "op_view CRemove base = None"
| "op_view (COverwrite e) base = Some (value_view e)"
| "op_view (CUpdate e) base = Some (apply_changes (case base of None \<Rightarrow> Map.empty | Some m \<Rightarrow> m) (entity_get e))"

fun op_in_pool :: "atom_pool arc \<Rightarrow> 'd cache_op \<Rightarrow> bool" where
  "op_in_pool pl CRemove = True"
| "op_in_pool pl (CUpdate e) = in_pool pl e"
| "op_in_pool pl (COverwrite e) = in_pool pl e"

lemma in_pool_known: "in_pool pl e \<Longrightarrow> in_pool pl u \<Longrightarrow> obj_get u k = Some v \<Longrightarrow> known e k"
  by (auto simp: in_pool_def known_def obj_get_def split: option.splits)

lemma entity_get_changes:
  "obj_get e' = apply_changes (obj_get e) (obj_get u) \<Longrightarrow> entity_get e' = apply_changes (entity_get e) (entity_get u)"
  by (auto simp: entity_get_upd apply_changes_def fun_eq_iff split: option.split)

lemma clean_changes: "apply_changes Map.empty (apply_changes m u) = apply_changes (apply_changes Map.empty m) u"
  by (auto simp: apply_changes_def fun_eq_iff split: option.split)

lemma merge_in_pool:
  assumes "in_pool pl e" "in_pool pl u"
  obtains e' where "merge_remove_null_fields e u = Ok (entity_get e' \<noteq> entity_get e, e')" "in_pool pl e'"
    "value_view e' = apply_changes (value_view e) (entity_get u)"
proof -
  obtain e' where e': "merge_remove_null_fields e u = Ok (entity_get e' \<noteq> entity_get e, e')" "obj_wf e'"
    "obj_pool e' = obj_pool e" "obj_get e' = apply_changes (obj_get e) (obj_get u)"
    using merge_remove_null_fields_law [of e u] in_pool_known [OF assms] assms by (auto simp: in_pool_def)
  moreover have "value_view e' = apply_changes (value_view e) (entity_get u)"
    using entity_get_changes [OF e'(4)] by (simp add: value_view_def clean_changes)
  ultimately show ?thesis using that assms by (auto simp: in_pool_def)
qed

lemma plain_merge_in_pool:
  assumes "in_pool pl e" "in_pool pl u"
  obtains e' where "entity_merge e u = Ok e'" "in_pool pl e'" "entity_get e' = entity_get e ++ entity_get u"
proof -
  have "dom (obj_get u) \<subseteq> {k. known e k}" using in_pool_known [OF assms] by auto
  then obtain e' where e': "obj_merge e u = Ok e'" "obj_wf e'" "obj_pool e' = obj_pool e" "obj_get e' = obj_get e ++ obj_get u"
    using obj_merge_law [of e u] assms by (auto simp: in_pool_def coherent_def)
  then have "entity_get e' = entity_get e ++ entity_get u"
    by (auto simp: entity_get_upd map_add_def fun_eq_iff split: option.split)
  with e' that assms show ?thesis by (simp add: in_pool_def entity_merge_def)
qed

lemma remove_null_in_pool:
  assumes "in_pool pl e"
  obtains e' where "remove_null_fields e = Ok e'" "in_pool pl e'" "value_view e' = value_view e"
proof -
  obtain e' where e': "remove_null_fields e = Ok e'" "obj_wf e'" "obj_pool e' = obj_pool e"
    "obj_get e' = apply_changes Map.empty (obj_get e)"
    using remove_null_fields_law assms by (auto simp: in_pool_def)
  have "entity_get e' = apply_changes Map.empty (entity_get e)"
    using e'(4) by (auto simp: entity_get_upd apply_changes_def fun_eq_iff)
  then have "value_view e' = value_view e" by (simp add: value_view_def clean_changes)
  with e' that assms show ?thesis by (auto simp: in_pool_def)
qed

lemma entity_eq_in_pool:
  "in_pool pl a \<Longrightarrow> in_pool pl b \<Longrightarrow> entity_eq a b = Ok (entity_get a = entity_get b)"
  using obj_eq_ignore_key_law [of a b VID_FIELD] by (simp add: in_pool_def coherent_def entity_eq_def entity_get_upd)

lemma apply_to_view:
  assumes "op_in_pool pl op" "shown pl v w"
  shows "\<exists>r. apply_to op v = Ok r \<and> shown pl r (op_view op w)"
proof (cases op)
  case (CUpdate u)
  show ?thesis
  proof (cases v)
    case None
    with CUpdate assms show ?thesis by (auto simp: apply_to_def shown_def value_view_def)
  next
    case (Some e)
    then have e: "in_pool pl e" "in_pool pl u" "w = Some (value_view e)" using assms CUpdate by (auto simp: shown_def)
    obtain e' where "merge_remove_null_fields e u = Ok (entity_get e' \<noteq> entity_get e, e')" "in_pool pl e'"
      "value_view e' = apply_changes (value_view e) (entity_get u)"
      using e(1,2) by (rule merge_in_pool)
    with Some CUpdate e(3) show ?thesis by (simp add: apply_to_def shown_def)
  qed
qed (use assms in \<open>auto simp: apply_to_def shown_def\<close>)

lemma accumulate_view:
  assumes "op_in_pool pl a" "op_in_pool pl b"
  shows "\<exists>c. accumulate a b = Ok c \<and> op_in_pool pl c \<and> (\<forall>w. op_view c w = op_view b (op_view a w))"
proof (cases b)
  case (CUpdate u)
  then have u: "in_pool pl u" using assms by simp
  show ?thesis
  proof (cases a)
    case CRemove
    with CUpdate u show ?thesis by (auto simp: accumulate_def value_view_def)
  next
    case (CUpdate e)
    then have "in_pool pl e" using assms by simp
    then obtain e' where "entity_merge e u = Ok e'" "in_pool pl e'" "entity_get e' = entity_get e ++ entity_get u"
      using u by (rule plain_merge_in_pool)
    with CUpdate \<open>b = CUpdate u\<close> show ?thesis by (auto simp: accumulate_def apply_changes_add)
  next
    case (COverwrite e)
    then have "in_pool pl e" using assms by simp
    then obtain e' where "entity_merge e u = Ok e'" "in_pool pl e'" "entity_get e' = entity_get e ++ entity_get u"
      using u by (rule plain_merge_in_pool)
    with COverwrite CUpdate show ?thesis by (auto simp: accumulate_def value_view_def apply_changes_add)
  qed
qed (use assms in \<open>auto simp: accumulate_def\<close>)

section \<open>Maps of operations\<close>

definition ops_ok :: "atom_pool arc \<Rightarrow> 'd cache_ops \<Rightarrow> bool" where
  "ops_ok pl ops \<longleftrightarrow> distinct (map fst ops) \<and> (\<forall>(k, op) \<in> set ops. op_in_pool pl op)"

definition ops_view :: "'d cache_ops \<Rightarrow> (entity_key \<Rightarrow> 'd attrs option) \<Rightarrow> entity_key \<Rightarrow> 'd attrs option" where
  "ops_view ops st k = (case map_of ops k of None \<Rightarrow> st k | Some op \<Rightarrow> op_view op (st k))"

lemma ops_okD: "ops_ok pl ops \<Longrightarrow> map_of ops k = Some op \<Longrightarrow> op_in_pool pl op"
  by (auto simp: ops_ok_def dest: map_of_SomeD)

lemma ops_view_Nil [simp]: "ops_view [] st = st"
  by (simp add: ops_view_def fun_eq_iff)

lemma map_of_change: "map_of (map (\<lambda>(k, o'). (k, if k = key then new else o')) ops) k =
    (if k = key then map_option (\<lambda>_. new) (map_of ops k) else map_of ops k)"
  by (induction ops) auto

lemma add_op_view:
  assumes "ops_ok pl ops" "op_in_pool pl op"
  shows "\<exists>ops'. add_op ops key op = Ok ops' \<and> ops_ok pl ops' \<and>
    (\<forall>st. ops_view ops' st = (ops_view ops st)(key := op_view op (ops_view ops st key)))"
proof (cases "map_of ops key")
  case None
  then have "ops_ok pl (ops @ [(key, op)])"
    using assms by (auto simp: ops_ok_def map_of_eq_None_iff)
  moreover have "ops_view (ops @ [(key, op)]) st = (ops_view ops st)(key := op_view op (ops_view ops st key))" for st
    using None by (auto simp: ops_view_def map_add_def fun_eq_iff split: option.split)
  ultimately show ?thesis using None by (simp add: add_op_def)
next
  case (Some old)
  obtain new where new: "accumulate old op = Ok new" "op_in_pool pl new" "\<forall>w. op_view new w = op_view op (op_view old w)"
    using accumulate_view [OF ops_okD [OF assms(1) Some] assms(2)] by blast
  let ?ops = "map (\<lambda>(k, o'). (k, if k = key then new else o')) ops"
  have d: "map fst ?ops = map fst ops" by (induction ops) auto
  have "\<forall>(k, o') \<in> set ?ops. op_in_pool pl o'" using assms(1) new(2) by (auto simp: ops_ok_def)
  then have "ops_ok pl ?ops" using assms(1) unfolding ops_ok_def d by blast
  moreover have "ops_view ?ops st = (ops_view ops st)(key := op_view op (ops_view ops st key))" for st
    using Some new(3) by (auto simp: ops_view_def map_of_change fun_eq_iff)
  ultimately show ?thesis using Some new(1) by (simp add: add_op_def)
qed

lemma apply_ops_view:
  assumes "ops_ok pl ops" "shown pl v (st k)"
  shows "\<exists>r. apply_ops ops k v = Ok r \<and> shown pl r (ops_view ops st k)"
proof (cases "map_of ops k")
  case None
  with assms(2) show ?thesis by (simp add: apply_ops_def ops_view_def)
next
  case (Some op)
  with apply_to_view [OF ops_okD [OF assms(1) Some] assms(2)] show ?thesis
    by (auto simp: apply_ops_def ops_view_def)
qed

section \<open>The invariant of a cache\<close>

text \<open>
  \<open>st\<close> is what the store has at the start of the block. The cache of the store shows nothing else, and
  there are operations of a handler only while one is running. \<open>cache_view\<close> is what the handlers see.
\<close>

definition cache_inv ::
  "('q, 'd) cache_env \<Rightarrow> atom_pool arc \<Rightarrow> (entity_key \<Rightarrow> 'd attrs option) \<Rightarrow> ('q, 'd) entity_cache \<Rightarrow> bool" where
  "cache_inv env pl st c \<longleftrightarrow>
     lfu_wf (cn_lfu env) (ec_current c) \<and> reflects (shown pl) (lfu_map (cn_lfu env) (ec_current c)) st \<and>
     ops_ok pl (ec_updates c) \<and> ops_ok pl (ec_handler_updates c) \<and>
     (\<not> ec_in_handler c \<longrightarrow> ec_handler_updates c = [])"

definition cache_view :: "('q, 'd) entity_cache \<Rightarrow> (entity_key \<Rightarrow> 'd attrs option) \<Rightarrow> entity_key \<Rightarrow> 'd attrs option" where
  "cache_view c st = ops_view (ec_handler_updates c) (ops_view (ec_updates c) st)"

text \<open>The store answers, with what it has.\<close>

definition store_reads :: "('q, 'd) cache_env \<Rightarrow> atom_pool arc \<Rightarrow> (entity_key \<Rightarrow> 'd attrs option) \<Rightarrow> bool" where
  "store_reads env pl st \<longleftrightarrow>
     (\<forall>k. \<exists>v. cn_get env k = Ok v \<and> shown pl v (st k)) \<and>
     (\<forall>ks. \<exists>kvs. cn_get_many env ks = Ok kvs \<and>
        (\<forall>(k, e) \<in> set kvs. k \<in> set ks \<and> shown pl (Some e) (st k)) \<and>
        (\<forall>k \<in> set ks. k \<in> fst ` set kvs \<or> st k = None))"

lemma store_reads_many:
  assumes "store_reads env pl st"
  shows "\<exists>kvs. cn_get_many env ks = Ok kvs \<and> (\<forall>(k, e) \<in> set kvs. shown pl (Some e) (st k)) \<and>
    (\<forall>k \<in> set ks. k \<in> fst ` set kvs \<or> st k = None)"
proof -
  obtain kvs where "cn_get_many env ks = Ok kvs" "\<forall>(k, e) \<in> set kvs. k \<in> set ks \<and> shown pl (Some e) (st k)"
    "\<forall>k \<in> set ks. k \<in> fst ` set kvs \<or> st k = None"
    using assms [unfolded store_reads_def, THEN conjunct2, THEN spec, of ks] by (elim exE conjE)
  then show ?thesis by (intro exI [of _ kvs]) auto
qed

lemma cache_new_inv:
  assumes "pq_laws (le_pq (cn_lfu env))"
  shows "cache_inv env pl st (cache_new env gen)" "cache_view (cache_new env gen) st = st"
  using assms by (simp_all add: cache_inv_def cache_new_def cache_view_def ops_ok_def lfu_fresh reflects_def)

lemma with_current_inv:
  assumes "lfu_wf (cn_lfu env) cur" "reflects (shown pl) (lfu_map (cn_lfu env) cur) st"
  shows "cache_inv env pl st (cache_with_current cur gen)" "cache_view (cache_with_current cur gen) st = st"
  using assms by (simp_all add: cache_inv_def cache_with_current_def cache_view_def ops_ok_def)

lemma cache_entity_op_view:
  assumes "cache_inv env pl st c" "op_in_pool pl op"
  shows "\<exists>c'. cache_entity_op c key op = (Ok c' :: (_, 'err) outcome) \<and> cache_inv env pl st c' \<and> ec_in_handler c' = ec_in_handler c \<and>
    (ec_in_handler c \<longrightarrow> ec_updates c' = ec_updates c) \<and>
    cache_view c' st = (cache_view c st)(key := op_view op (cache_view c st key))"
proof (cases "ec_in_handler c")
  case True
  from assms have "ops_ok pl (ec_handler_updates c)" by (simp add: cache_inv_def)
  with add_op_view [OF this assms(2)] obtain ops where
    "add_op (ec_handler_updates c) key op = (Ok ops :: (_, 'err) outcome)" "ops_ok pl ops"
    "\<And>st. ops_view ops st = (ops_view (ec_handler_updates c) st)(key := op_view op (ops_view (ec_handler_updates c) st key))"
    by blast
  with True assms(1) show ?thesis by (simp add: cache_entity_op_def cache_inv_def cache_view_def)
next
  case False
  from assms have "ops_ok pl (ec_updates c)" "ec_handler_updates c = []" using False by (simp_all add: cache_inv_def)
  with add_op_view [OF this(1) assms(2)] obtain ops where
    "add_op (ec_updates c) key op = (Ok ops :: (_, 'err) outcome)" "ops_ok pl ops"
    "\<And>st. ops_view ops st = (ops_view (ec_updates c) st)(key := op_view op (ops_view (ec_updates c) st key))"
    by blast
  with False assms(1) \<open>ec_handler_updates c = []\<close> show ?thesis by (simp add: cache_entity_op_def cache_inv_def cache_view_def)
qed

text \<open>Many operations, as when a handler ends: the later map of operations on top of the earlier one\<close>

lemma entity_ops_view:
  assumes "cache_inv env pl st c" "ops_ok pl ops" "\<not> ec_in_handler c"
  shows "\<exists>c'. try_fold (\<lambda>c (key, op). cache_entity_op c key op) c ops = (Ok c' :: (_, 'err) outcome) \<and> cache_inv env pl st c' \<and>
    \<not> ec_in_handler c' \<and> cache_view c' st = ops_view ops (cache_view c st)"
  using assms
proof (induction ops arbitrary: c)
  case (Cons kop ops)
  obtain k op where kop: "kop = (k, op)" by (cases kop)
  have op: "op_in_pool pl op" "ops_ok pl ops" "map_of ops k = None"
    using Cons.prems(2) kop by (auto simp: ops_ok_def map_of_eq_None_iff)
  obtain c1 where c1: "cache_entity_op c k op = (Ok c1 :: (_, 'err) outcome)" "cache_inv env pl st c1" "\<not> ec_in_handler c1"
    "cache_view c1 st = (cache_view c st)(k := op_view op (cache_view c st k))"
    using cache_entity_op_view [OF Cons.prems(1) op(1), of k] Cons.prems(3) by blast
  obtain c2 where c2: "try_fold (\<lambda>c (key, op). cache_entity_op c key op) c1 ops = (Ok c2 :: (_, 'err) outcome)" "cache_inv env pl st c2"
    "\<not> ec_in_handler c2" "cache_view c2 st = ops_view ops (cache_view c1 st)"
    using Cons.IH [OF c1(2) op(2) c1(3)] by blast
  have "ops_view ops (cache_view c1 st) = ops_view (kop # ops) (cache_view c st)"
    using op(3) kop by (auto simp: c1(4) ops_view_def fun_eq_iff split: option.split)
  with c1(1) c2 kop show ?case by simp
qed simp

lemma cache_exit_handler_view:
  assumes "cache_inv env pl st c" "ec_in_handler c"
  shows "\<exists>c'. cache_exit_handler c = (Ok c' :: (_, 'err) outcome) \<and> cache_inv env pl st c' \<and> \<not> ec_in_handler c' \<and> cache_view c' st = cache_view c st"
proof -
  let ?c = "c\<lparr>ec_in_handler := False, ec_handler_updates := []\<rparr>"
  have "cache_inv env pl st ?c" "ops_ok pl (ec_handler_updates c)" "\<not> ec_in_handler ?c"
    using assms by (simp_all add: cache_inv_def ops_ok_def)
  from entity_ops_view [OF this] show ?thesis using assms(2) by (simp add: cache_exit_handler_def cache_view_def)
qed

lemma cache_load_view:
  assumes "cache_inv env pl st c" "store_reads env pl st"
  shows "\<exists>v c'. cache_load env c key = Ok (v, c') \<and> shown pl v (st key) \<and> cache_inv env pl st c' \<and>
    ec_updates c' = ec_updates c \<and> ec_handler_updates c' = ec_handler_updates c \<and> ec_in_handler c' = ec_in_handler c"
proof -
  obtain v where v: "cn_get env key = Ok v" "shown pl v (st key)"
    using assms(2) unfolding store_reads_def by blast
  let ?cur = "if lfu_contains_key (cn_lfu env) (ec_current c) key then ec_current c
      else lfu_insert (cn_lfu env) (ec_current c) key v"
  have cur: "(if lfu_contains_key (cn_lfu env) (ec_current c) key then Ok (ec_current c)
      else map_ok (lfu_insert (cn_lfu env) (ec_current c) key) (cn_get env key)) = Ok ?cur"
    using v(1) by simp
  have inv: "lfu_wf (cn_lfu env) (ec_current c)" "reflects (shown pl) (lfu_map (cn_lfu env) (ec_current c)) st"
    using assms(1) by (simp_all add: cache_inv_def)
  obtain cur' r where r: "lfu_get (cn_lfu env) ?cur key = (Some r, cur')" "shown pl r (st key)"
    "lfu_wf (cn_lfu env) cur'" "reflects (shown pl) (lfu_map (cn_lfu env) cur') st"
    using lfu.read_through [OF inv, of v key, OF v(2)] by blast
  then show ?thesis
    unfolding cache_load_def cur using assms(1) by (simp add: cache_inv_def)
qed

lemma cache_get_view:
  assumes "cache_inv env pl st c" "store_reads env pl st"
  shows "\<exists>v c'. cache_get env c key ScopeStore = (c', Ok v) \<and> shown pl v (cache_view c st key) \<and> cache_inv env pl st c' \<and>
    ec_updates c' = ec_updates c \<and> ec_handler_updates c' = ec_handler_updates c \<and> ec_in_handler c' = ec_in_handler c"
proof -
  obtain v c' where l: "cache_load env c key = Ok (v, c')" "shown pl v (st key)" "cache_inv env pl st c'"
    "ec_updates c' = ec_updates c" "ec_handler_updates c' = ec_handler_updates c" "ec_in_handler c' = ec_in_handler c"
    using cache_load_view [OF assms] by blast
  have ok: "ops_ok pl (ec_updates c)" "ops_ok pl (ec_handler_updates c)" using assms(1) by (simp_all add: cache_inv_def)
  obtain w where w: "apply_ops (ec_updates c) key v = Ok w" "shown pl w (ops_view (ec_updates c) st key)"
    using apply_ops_view [OF ok(1), of v st key] l(2) by blast
  obtain x where "apply_ops (ec_handler_updates c) key w = Ok x" "shown pl x (cache_view c st key)"
    using apply_ops_view [OF ok(2), of w "ops_view (ec_updates c) st" key] w(2) by (auto simp: cache_view_def)
  with l w show ?thesis by (simp add: cache_get_def)
qed

lemma set_vid_in_pool:
  assumes "in_pool pl e" "pool_lookup (arc_get pl) VID_FIELD \<noteq> None"
  obtains old e' where "entity_set_vid e vid = Ok (old, e')" "in_pool pl e'" "entity_get e' = entity_get e"
proof -
  obtain e' where "obj_insert e VID_FIELD (Int8V vid) = Ok (obj_get e VID_FIELD, e')" "obj_wf e'" "obj_pool e' = obj_pool e"
    "obj_get e' = (obj_get e)(VID_FIELD \<mapsto> Int8V vid)"
    using obj_insert_known [of e VID_FIELD "Int8V vid"] assms by (auto simp: in_pool_def known_def)
  with that assms(1) show ?thesis by (simp add: entity_set_vid_def in_pool_def entity_get_upd)
qed

lemma validate_returns: "entity_validate object_type e key = Ok () \<or> (\<exists>err. entity_validate object_type e key = Err err)"
proof -
  have "validate_field e key f \<noteq> Panic s" for f s
    by (cases "is_derived f") (auto simp: validate_field_def Let_def split: option.splits prod.splits if_splits)
  then have "try_fold (\<lambda>_ f. validate_field e key f) () fs \<noteq> Panic s" for fs s
  proof (induction fs)
    case (Cons f fs)
    then show ?case by (cases "validate_field e key f") auto
  qed simp
  then show ?thesis
    by (cases "entity_validate object_type e key") (auto simp: entity_validate_def split: if_splits option.splits)
qed

text \<open>What \<open>set\<close> does when it succeeds and what it may leave behind when it fails\<close>

lemma cache_set_view:
  fixes env :: "('q, 'd) cache_env" and key :: entity_key
  assumes "cache_inv env pl st c" "store_reads env pl st" "in_pool pl e" "pool_lookup (arc_get pl) VID_FIELD \<noteq> None"
  defines "changed \<equiv> (cache_view c st)(key := op_view (CUpdate e) (cache_view c st key))"
  shows "\<exists>c' capacity' r. cache_set env c key e capacity = (c', capacity', r) \<and> cache_inv env pl st c' \<and>
    ec_in_handler c' = ec_in_handler c \<and> (ec_in_handler c \<longrightarrow> ec_updates c' = ec_updates c) \<and>
    (r = Ok () \<and> cache_view c' st = changed \<or>
     (\<exists>err. r = Err err) \<and> (cache_view c' st = cache_view c st \<or> cache_view c' st = changed))"
proof (cases "take_capacity env c key e capacity")
  case (Ok capacity')
  obtain vid gen where gen: "seq_vid (ec_seq_gen c) = (vid, gen)" by fastforce
  let ?c1 = "c\<lparr>ec_seq_gen := gen\<rparr>"
  have inv1: "cache_inv env pl st ?c1" "cache_view ?c1 st = cache_view c st"
    using assms(1) by (simp_all add: cache_inv_def cache_view_def)
  obtain old e' where e': "entity_set_vid e vid = Ok (old, e')" "in_pool pl e'" "entity_get e' = entity_get e"
    using assms(3,4) by (rule set_vid_in_pool)
  show ?thesis
  proof (cases old)
    case (Some v)
    with Ok gen e' inv1 show ?thesis by (simp add: cache_set_def Let_def)
  next
    case None
    obtain c2 where c2: "cache_entity_op ?c1 key (CUpdate e') = (Ok c2 :: (_, 'd set_error) outcome)" "cache_inv env pl st c2"
      "ec_in_handler c2 = ec_in_handler c" "ec_in_handler c \<longrightarrow> ec_updates c2 = ec_updates c" "cache_view c2 st = changed"
      using cache_entity_op_view [OF inv1(1), of "CUpdate e'" key, where ?'err = "'d set_error"] e'(2,3) inv1(2)
      by (auto simp: changed_def)
    obtain v c3 where c3: "cache_get env c2 key ScopeStore = (c3, Ok v)" "cache_inv env pl st c3"
      "ec_updates c3 = ec_updates c2" "ec_handler_updates c3 = ec_handler_updates c2" "ec_in_handler c3 = ec_in_handler c2"
      using cache_get_view [OF c2(2) assms(2)] by blast
    have v3: "cache_view c3 st = changed" using c2(5) c3(3,4) by (simp add: cache_view_def)
    obtain r where r: "check_read_back env c2 key = (c3, r)" by (simp add: check_read_back_def c3(1))
    then have "r = Ok () \<or> (\<exists>err. r = Err err)"
      using c3(1) validate_returns [of "cn_object_type env" "the v" key] by (cases v) (auto simp: check_read_back_def)
    show ?thesis
      using Ok gen e'(1) None c2 c3(2,3,5) r v3 \<open>r = Ok () \<or> (\<exists>err. r = Err err)\<close> by (auto simp: cache_set_def Let_def)
  qed
qed (use assms(1) in \<open>auto simp: cache_set_def take_capacity_def split: option.splits if_splits\<close>)

section \<open>A map with a savepoint\<close>

text \<open>
  The calls that the runtime makes while the handlers of a block run, and what they return. A call that
  fails ends the handler, whose changes are then discarded.
\<close>

datatype 'd cache_call =
    CallGet entity_key
  | CallSet entity_key "'d entity" "usize option"
  | CallRemove entity_key
  | CallEnter
  | CallExit
  | CallDiscard

datatype 'd call_result = Returned "'d entity option" | Done | Rejected

inductive cache_step :: "('q, 'd) cache_env \<Rightarrow> ('q, 'd) entity_cache \<Rightarrow> 'd cache_call \<Rightarrow> 'd call_result \<Rightarrow> ('q, 'd) entity_cache \<Rightarrow> bool"
  for env where
  step_get: "cache_get env c k ScopeStore = (c', Ok v) \<Longrightarrow> cache_step env c (CallGet k) (Returned v) c'"
| step_get_err: "cache_get env c k ScopeStore = (c', Err err) \<Longrightarrow> cache_step env c (CallGet k) Rejected c'"
| step_set: "cache_set env c k e w = (c', w', Ok ()) \<Longrightarrow> cache_step env c (CallSet k e w) Done c'"
| step_set_err: "cache_set env c k e w = (c', w', Err err) \<Longrightarrow> cache_step env c (CallSet k e w) Rejected c'"
| step_remove: "cache_remove c k = (Ok c' :: (_, unit) outcome) \<Longrightarrow> cache_step env c (CallRemove k) Done c'"
| step_enter: "cache_enter_handler c = (Ok c' :: (_, unit) outcome) \<Longrightarrow> cache_step env c CallEnter Done c'"
| step_exit: "cache_exit_handler c = (Ok c' :: (_, unit) outcome) \<Longrightarrow> cache_step env c CallExit Done c'"
| step_discard: "cache_discard_handler c = (Ok c' :: (_, unit) outcome) \<Longrightarrow> cache_step env c CallDiscard Done c'"

inductive cache_run ::
  "('q, 'd) cache_env \<Rightarrow> ('q, 'd) entity_cache \<Rightarrow> ('d cache_call \<times> 'd call_result) list \<Rightarrow> ('q, 'd) entity_cache \<Rightarrow> bool"
  for env where
  run_refl: "cache_run env c [] c"
| run_step: "cache_run env c tr c' \<Longrightarrow> cache_step env c' call r c'' \<Longrightarrow> cache_run env c (tr @ [(call, r)]) c''"

text \<open>
  What these calls mean: a map of entities that can be saved when a handler starts and restored when it
  fails. A call to \<open>set\<close> that is rejected may or may not have changed the map.
\<close>

record 'd savepoint_map =
  sm_now :: "entity_key \<Rightarrow> 'd attrs option"
  sm_saved :: "(entity_key \<Rightarrow> 'd attrs option) option"

definition sm_set :: "'d savepoint_map \<Rightarrow> entity_key \<Rightarrow> 'd entity \<Rightarrow> 'd savepoint_map" where
  "sm_set m k e = m\<lparr>sm_now := (sm_now m)(k := op_view (CUpdate e) (sm_now m k))\<rparr>"

inductive map_step :: "'d savepoint_map \<Rightarrow> 'd cache_call \<Rightarrow> 'd call_result \<Rightarrow> 'd savepoint_map \<Rightarrow> bool" where
  map_get: "map_option value_view v = sm_now m k \<Longrightarrow> map_step m (CallGet k) (Returned v) m"
| map_set: "map_step m (CallSet k e w) Done (sm_set m k e)"
| map_set_err: "m' = m \<or> m' = sm_set m k e \<Longrightarrow> map_step m (CallSet k e w) Rejected m'"
| map_remove: "map_step m (CallRemove k) Done (m\<lparr>sm_now := (sm_now m)(k := None)\<rparr>)"
| map_enter: "sm_saved m = None \<Longrightarrow> map_step m CallEnter Done (m\<lparr>sm_saved := Some (sm_now m)\<rparr>)"
| map_exit: "sm_saved m = Some s \<Longrightarrow> map_step m CallExit Done (m\<lparr>sm_saved := None\<rparr>)"
| map_discard: "sm_saved m = Some s \<Longrightarrow> map_step m CallDiscard Done \<lparr>sm_now = s, sm_saved = None\<rparr>"

inductive map_run :: "'d savepoint_map \<Rightarrow> ('d cache_call \<times> 'd call_result) list \<Rightarrow> 'd savepoint_map \<Rightarrow> bool" where
  map_refl: "map_run m [] m"
| map_more: "map_run m tr m' \<Longrightarrow> map_step m' call r m'' \<Longrightarrow> map_run m (tr @ [(call, r)]) m''"

definition cache_abs :: "(entity_key \<Rightarrow> 'd attrs option) \<Rightarrow> ('q, 'd) entity_cache \<Rightarrow> 'd savepoint_map" where
  "cache_abs st c = \<lparr>sm_now = cache_view c st, sm_saved = if ec_in_handler c then Some (ops_view (ec_updates c) st) else None\<rparr>"

fun call_in_pool :: "atom_pool arc \<Rightarrow> 'd cache_call \<Rightarrow> bool" where
  "call_in_pool pl (CallSet k e w) = in_pool pl e"
| "call_in_pool pl _ = True"

lemma cache_abs_same:
  "ec_updates c' = ec_updates c \<Longrightarrow> ec_handler_updates c' = ec_handler_updates c \<Longrightarrow> ec_in_handler c' = ec_in_handler c \<Longrightarrow>
     cache_abs st c' = cache_abs st c"
  by (simp add: cache_abs_def cache_view_def)

lemma cache_abs_saved:
  assumes "ec_in_handler c' = ec_in_handler c" "ec_in_handler c \<longrightarrow> ec_updates c' = ec_updates c"
  shows "cache_abs st c' = (cache_abs st c)\<lparr>sm_now := cache_view c' st\<rparr>"
  using assms by (simp add: cache_abs_def)

lemma cache_step_refines:
  assumes "cache_step env c call r c'" "cache_inv env pl st c" "store_reads env pl st" "call_in_pool pl call"
    "pool_lookup (arc_get pl) VID_FIELD \<noteq> None"
  shows "cache_inv env pl st c' \<and> map_step (cache_abs st c) call r (cache_abs st c')"
  using assms(1)
proof cases
  case (step_get k v)
  with cache_get_view [OF assms(2,3), of k] have "cache_inv env pl st c'" "shown pl v (cache_view c st k)"
    "cache_abs st c' = cache_abs st c" by (auto intro: cache_abs_same)
  with step_get show ?thesis by (auto simp: shown_def cache_abs_def intro!: map_get)
next
  case (step_get_err k err)
  with cache_get_view [OF assms(2,3), of k] show ?thesis by auto
next
  case (step_set k e w w')
  with assms(4) cache_set_view [OF assms(2,3) _ assms(5), of e k w]
  have "cache_inv env pl st c'" "ec_in_handler c' = ec_in_handler c" "ec_in_handler c \<longrightarrow> ec_updates c' = ec_updates c"
    "cache_view c' st = (cache_view c st)(k := op_view (CUpdate e) (cache_view c st k))" by auto
  then have "cache_inv env pl st c'" "cache_abs st c' = sm_set (cache_abs st c) k e"
    using cache_abs_saved [of c' c st] by (simp_all add: sm_set_def) (simp add: cache_abs_def)
  with step_set show ?thesis by (simp add: map_set)
next
  case (step_set_err k e w w' err)
  with assms(4) cache_set_view [OF assms(2,3) _ assms(5), of e k w]
  have "cache_inv env pl st c'" "ec_in_handler c' = ec_in_handler c" "ec_in_handler c \<longrightarrow> ec_updates c' = ec_updates c"
    "cache_view c' st = cache_view c st \<or>
     cache_view c' st = (cache_view c st)(k := op_view (CUpdate e) (cache_view c st k))" by auto
  then have "cache_inv env pl st c'" "cache_abs st c' = cache_abs st c \<or> cache_abs st c' = sm_set (cache_abs st c) k e"
    using cache_abs_saved [of c' c st] by (auto simp: sm_set_def cache_abs_def)
  with step_set_err show ?thesis by (simp add: map_set_err)
next
  case (step_remove k)
  with cache_entity_op_view [OF assms(2), of CRemove k, where ?'err = unit]
  have c': "cache_inv env pl st c'" "ec_in_handler c' = ec_in_handler c" "ec_in_handler c \<longrightarrow> ec_updates c' = ec_updates c"
    "cache_view c' st = (cache_view c st)(k := None)" by (auto simp: cache_remove_def)
  then have "cache_abs st c' = (cache_abs st c)\<lparr>sm_now := (sm_now (cache_abs st c))(k := None)\<rparr>"
    using cache_abs_saved [of c' c st] by (simp add: cache_abs_def)
  with step_remove c'(1) show ?thesis by (simp add: map_remove)
next
  case step_enter
  then have "cache_inv env pl st c'" "\<not> ec_in_handler c" "c' = c\<lparr>ec_in_handler := True\<rparr>" "ec_handler_updates c = []"
    using assms(2) by (auto simp: cache_enter_handler_def cache_inv_def split: if_splits)
  then have "cache_inv env pl st c'" "sm_saved (cache_abs st c) = None"
    "cache_abs st c' = (cache_abs st c)\<lparr>sm_saved := Some (sm_now (cache_abs st c))\<rparr>"
    by (simp_all add: cache_abs_def cache_view_def)
  with step_enter show ?thesis by (simp add: map_enter)
next
  case step_exit
  then have "ec_in_handler c" by (auto simp: cache_exit_handler_def split: if_splits)
  with step_exit cache_exit_handler_view [OF assms(2), where ?'err = unit]
  have "cache_inv env pl st c'" "cache_abs st c' = (cache_abs st c)\<lparr>sm_saved := None\<rparr>"
    "sm_saved (cache_abs st c) = Some (ops_view (ec_updates c) st)"
    by (auto simp: cache_abs_def)
  with step_exit show ?thesis by (simp add: map_exit)
next
  case step_discard
  then have "ec_in_handler c" "c' = c\<lparr>ec_in_handler := False, ec_handler_updates := []\<rparr>"
    by (auto simp: cache_discard_handler_def split: if_splits)
  then have "cache_inv env pl st c'" "cache_abs st c' = \<lparr>sm_now = ops_view (ec_updates c) st, sm_saved = None\<rparr>"
    "sm_saved (cache_abs st c) = Some (ops_view (ec_updates c) st)"
    using assms(2) by (auto simp: cache_abs_def cache_inv_def ops_ok_def cache_view_def)
  with step_discard show ?thesis by (simp add: map_discard)
qed

section \<open>Properties\<close>

text \<open>
  C4 (what handlers see). Whatever calls the handlers of a block make, the cache behaves as a plain
  map of entities that starts with what the store has, is saved when a handler starts and is restored
  when the changes of the handler are discarded: every \<open>get\<close> returns what this map has, merged with
  the updates, and in the end every entity can still be read.
\<close>

theorem entity_cache_refines:
  assumes "cache_run env c tr c'" "cache_inv env pl st c" "store_reads env pl st"
    and "\<forall>(call, r) \<in> set tr. call_in_pool pl call" "pool_lookup (arc_get pl) VID_FIELD \<noteq> None"
  shows "map_run (cache_abs st c) tr (cache_abs st c') \<and> cache_inv env pl st c' \<and>
    (\<forall>k. \<exists>v c''. cache_get env c' k ScopeStore = (c'', Ok v) \<and> map_option value_view v = sm_now (cache_abs st c') k)"
proof -
  have "cache_inv env pl st c' \<and> map_run (cache_abs st c) tr (cache_abs st c')"
    using assms(1,2,4)
  proof (induction rule: cache_run.induct)
    case (run_step c tr c' call r c'')
    then have "cache_inv env pl st c'" "map_run (cache_abs st c) tr (cache_abs st c')" by auto
    moreover from run_step have "call_in_pool pl call" by auto
    ultimately show ?case
      using cache_step_refines [OF run_step(2) _ assms(3) _ assms(5)] by (blast intro: map_more)
  qed (simp add: map_refl)
  moreover from this have "\<exists>v c''. cache_get env c' k ScopeStore = (c'', Ok v) \<and>
      map_option value_view v = sm_now (cache_abs st c') k" for k
    using cache_get_view [of env pl st c' k] assms(3) by (simp add: shown_def cache_abs_def) blast
  ultimately show ?thesis by blast
qed

text \<open>An empty store, a schema without fields, and an entity with a name\<close>

definition example_cache_env :: "(((entity_key, nat entity option) cache_entry \<times> priority) list, nat) cache_env" where
  "example_cache_env =
     \<lparr>cn_lfu = \<lparr>le_pq = list_pq, le_key_weight = (\<lambda>_. 1), le_value_weight = (\<lambda>_. 0), le_default = None, le_entry_size = 64,
                le_cache_dead_weight = False\<rparr>,
      cn_get = (\<lambda>_. Ok None), cn_get_many = (\<lambda>_. Ok []), cn_get_derived = (\<lambda>_. Ok []), cn_object_type = (\<lambda>_. Some []),
      cn_is_immutable = (\<lambda>_. False), cn_field_related = (\<lambda>_. Err ''unknown field''), cn_weight = (\<lambda>_. 10), cn_cache_size = 1000\<rparr>"

definition example_named :: "nat entity" where
  "example_named = \<lparr>obj_pool = Arc 0 example_pool,
     obj_entries = [\<lparr>e_key = 0, e_val = StringV ''a''\<rparr>, \<lparr>e_key = 1, e_val = StringV ''panda''\<rparr>]\<rparr>"

abbreviation "example_named_key \<equiv> example_key ''a'' 0"

lemma example_store_reads: "store_reads example_cache_env (Arc 0 example_pool) (\<lambda>_. None)"
  by (simp add: store_reads_def example_cache_env_def shown_def)

lemma example_named_in_pool: "in_pool (Arc 0 example_pool) example_named"
proof -
  have "pool_get example_pool 0 = Some ''id''" "pool_get example_pool 1 = Some ''name''" by code_simp+
  then show ?thesis
    by (simp add: in_pool_def example_named_def obj_wf_def example_pool_wf obj_atoms_def TOMBSTONE_KEY_def)
qed

lemma example_eval:
  "entity_set_vid example_named vid = Ok (None, \<lparr>obj_pool = Arc 0 example_pool, obj_entries = obj_entries example_named @ [\<lparr>e_key = 2, e_val = Int8V vid\<rparr>]\<rparr>)"
  by (simp add: entity_set_vid_def obj_insert_def example_named_def example_lookup VID_FIELD_def obj_insert_atom_def TOMBSTONE_KEY_def)

lemma entity_cache_refines_witness:
  "\<exists>c1 c2 v. cache_run example_cache_env (cache_new example_cache_env (seq_new 5))
      [(CallEnter, Done), (CallSet example_named_key example_named None, Done)] c1 \<and>
    cache_step example_cache_env c1 (CallGet example_named_key) (Returned v) c2 \<and>
    map_option value_view v = Some [''id'' \<mapsto> StringV ''a'', ''name'' \<mapsto> StringV ''panda'']"
proof -
  let ?env = example_cache_env and ?k = example_named_key
  let ?c0 = "cache_new ?env (seq_new 5)"
  let ?c1 = "?c0\<lparr>ec_in_handler := True\<rparr>"
  obtain vid gen where gen: "seq_vid (seq_new 5) = (vid, gen)" by fastforce
  let ?e = "\<lparr>obj_pool = Arc 0 example_pool, obj_entries = obj_entries example_named @ [\<lparr>e_key = 2, e_val = Int8V vid\<rparr>]\<rparr>"
  let ?c2 = "?c1\<lparr>ec_seq_gen := gen, ec_handler_updates := [(?k, CUpdate ?e)]\<rparr>"
  have "cache_step ?env ?c0 CallEnter Done ?c1"
    by (rule step_enter) (simp add: cache_enter_handler_def cache_new_def)
  moreover have "cache_set ?env ?c1 ?k example_named None = (?c2, None, Ok ())"
    using gen by (simp add: cache_set_def take_capacity_def cache_new_def example_eval cache_entity_op_def add_op_def
        entity_validate_def example_cache_env_def)
  then have "cache_step ?env ?c1 (CallSet ?k example_named None) Done ?c2" by (rule step_set)
  ultimately have run: "cache_run ?env ?c0 [(CallEnter, Done), (CallSet ?k example_named None, Done)] ?c2"
    using run_step [OF run_step [OF run_refl]] by simp
  have inv: "cache_inv ?env (Arc 0 example_pool) (\<lambda>_. None) ?c0"
    by (rule cache_new_inv) (simp add: example_cache_env_def list_pq_laws)
  have pool: "\<forall>(call, r) \<in> set [(CallEnter, Done), (CallSet ?k example_named None, Done)]. call_in_pool (Arc 0 example_pool) call"
    "pool_lookup (arc_get (Arc 0 example_pool)) VID_FIELD \<noteq> None"
    by (simp_all add: example_named_in_pool example_lookup VID_FIELD_def)
  obtain v c3 where v: "cache_get ?env ?c2 ?k ScopeStore = (c3, Ok v)"
    "map_option value_view v = sm_now (cache_abs (\<lambda>_. None) ?c2) ?k"
    using entity_cache_refines [OF run inv example_store_reads pool, THEN conjunct2, THEN conjunct2, THEN spec, of ?k] by blast
  have "sm_now (cache_abs (\<lambda>_. None) ?c2) ?k = Some [''id'' \<mapsto> StringV ''a'', ''name'' \<mapsto> StringV ''panda'']"
    by (auto simp: cache_abs_def cache_view_def cache_new_def ops_view_def apply_changes_def entity_get_def obj_get_def
        example_lookup example_named_def VID_FIELD_def fun_eq_iff)
  with run v step_get [OF v(1)] show ?thesis by metis
qed

end
