(* ===== verification/Block_Commit.thy ===== *)
theory Block_Commit
  imports Entity_Cache_Laws Batch_Writes
begin

text \<open>
  From the entity cache to the tables: the modifications that \<open>as_modifications\<close> makes of the changes of
  a block, the batch that is made of them, and what a lookup finds once the batch is written.
\<close>

section \<open>What modifications do\<close>

fun mod_view :: "'d entity entity_modification \<Rightarrow> 'd attrs option" where
  "mod_view (Insert k d b e) = Some (value_view d)"
| "mod_view (Overwrite k d b e) = Some (value_view d)"
| "mod_view (Remove k b) = None"

definition mods_view ::
  "'d entity entity_modification list \<Rightarrow> (entity_key \<Rightarrow> 'd attrs option) \<Rightarrow> entity_key \<Rightarrow> 'd attrs option" where
  "mods_view mods st k = (case find (\<lambda>m. em_key m = k) mods of None \<Rightarrow> st k | Some m \<Rightarrow> mod_view m)"

text \<open>A modification that fits what the store has: new entities are inserted, the others exist.\<close>

fun mod_fits :: "atom_pool arc \<Rightarrow> block_number \<Rightarrow> (entity_key \<Rightarrow> 'd attrs option) \<Rightarrow> 'd entity entity_modification \<Rightarrow> bool" where
  "mod_fits pl block st (Insert k d b e) \<longleftrightarrow> st k = None \<and> in_pool pl d \<and> b = block \<and> e = None"
| "mod_fits pl block st (Overwrite k d b e) \<longleftrightarrow> st k \<noteq> None \<and> in_pool pl d \<and> b = block \<and> e = None"
| "mod_fits pl block st (Remove k b) \<longleftrightarrow> st k \<noteq> None \<and> b = block"

lemma mod_fits_cong: "st (em_key m) = st' (em_key m) \<Longrightarrow> mod_fits pl block st m = mod_fits pl block st' m"
  by (cases m) simp_all

section \<open>One operation\<close>

text \<open>The entity that the cache has for a key, or none\<close>

definition cached :: "'d entity option option \<Rightarrow> 'd entity option" where
  "cached old = (case old of Some (Some e) \<Rightarrow> Some e | _ \<Rightarrow> None)"

lemma cached_shown:
  assumes "reflects (shown pl) m st" "m k = None \<longrightarrow> st k = None"
  shows "shown pl (cached (m k)) (st k)"
proof (cases "m k")
  case (Some v)
  with assms(1) have "shown pl v (st k)" by (simp add: reflects_def)
  with Some show ?thesis by (cases v) (simp_all add: cached_def shown_def)
qed (use assms(2) in \<open>simp add: cached_def shown_def\<close>)

lemma as_modification_law:
  assumes "lfu_wf (cn_lfu env) cur" "reflects (shown pl) (lfu_map (cn_lfu env) cur) st"
    and "lfu_map (cn_lfu env) cur k = None \<longrightarrow> st k = None" "op_in_pool pl op"
  shows "\<exists>cur' ms. as_modification env block (cur, mods) (k, op) = Ok (cur', mods @ ms) \<and>
    lfu_wf (cn_lfu env) cur' \<and> reflects (shown pl) (lfu_map (cn_lfu env) cur') (st(k := op_view op (st k))) \<and>
    (\<forall>j. j \<noteq> k \<longrightarrow> lfu_map (cn_lfu env) cur' j = lfu_map (cn_lfu env) cur j) \<and>
    (ms = [] \<and> op_view op (st k) = st k \<or>
     (\<exists>m. ms = [m] \<and> em_key m = k \<and> mod_fits pl block st m \<and> mod_view m = op_view op (st k)))"
proof -
  let ?L = "cn_lfu env" and ?w = "op_view op (st k)"
  obtain cur1 where c1: "lfu_remove ?L cur k = (Ok (lfu_map ?L cur k, cur1) :: (_, store_error) outcome)" "lfu_wf ?L cur1"
    "lfu_map ?L cur1 = (lfu_map ?L cur)(k := None)" "reflects (shown pl) (lfu_map ?L cur1) (st(k := ?w))"
    "\<And>v. shown pl v ?w \<Longrightarrow> lfu_wf ?L (lfu_insert ?L cur1 k v) \<and>
       reflects (shown pl) (lfu_map ?L (lfu_insert ?L cur1 k v)) (st(k := ?w))"
    using lfu.replace [OF assms(1,2), of k ?w] by blast
  have ins: "lfu_map ?L (lfu_insert ?L cur1 k v) j = lfu_map ?L cur j" if "j \<noteq> k" for v j
    using that c1(3) lfu_insert_law(2) [OF c1(2)] by simp
  have old: "shown pl (cached (lfu_map ?L cur k)) (st k)" using assms(2,3) by (rule cached_shown)
  note step = as_modification_def c1(1) cached_def [symmetric] Let_def
  show ?thesis
  proof (cases "cached (lfu_map ?L cur k)")
    case None
    then have st: "st k = None" using old by (simp add: shown_def)
    show ?thesis
    proof (cases "op = CRemove")
      case True
      with None st c1(2,3,4) show ?thesis by (intro exI [of _ cur1] exI [of _ "[]"]) (simp add: step)
    next
      case False
      then obtain u where u: "op = CUpdate u \<or> op = COverwrite u" by (cases op) auto
      then have "in_pool pl u" "?w = Some (value_view u)" using assms(4) st by (auto simp: value_view_def)
      moreover obtain d where d: "remove_null_fields u = Ok d" "in_pool pl d" "value_view d = value_view u"
        using \<open>in_pool pl u\<close> by (rule remove_null_in_pool)
      ultimately have "shown pl (Some d) ?w" by (simp add: shown_def)
      with None st u d c1(5) [OF this] ins show ?thesis
        by (intro exI [of _ "lfu_insert ?L cur1 k (Some d)"] exI [of _ "[Insert k d block None]"])
          (auto simp: step value_view_def)
    qed
  next
    case (Some e)
    then have e: "in_pool pl e" "st k = Some (value_view e)" using old by (auto simp: shown_def)
    show ?thesis
    proof (cases op)
      case CRemove
      then have "shown pl None ?w" by (simp add: shown_def)
      with Some CRemove e c1(5) [OF this] ins show ?thesis
        by (intro exI [of _ "lfu_insert ?L cur1 k None"] exI [of _ "[Remove k block]"]) (simp add: step)
    next
      case (CUpdate u)
      obtain d where d: "merge_remove_null_fields e u = Ok (entity_get d \<noteq> entity_get e, d)" "in_pool pl d"
        "value_view d = apply_changes (value_view e) (entity_get u)"
        using merge_in_pool [OF e(1)] assms(4) CUpdate by auto
      then have "shown pl (Some d) ?w" using CUpdate e(2) by (simp add: shown_def)
      moreover have "entity_get d = entity_get e \<Longrightarrow> value_view d = value_view e" by (simp add: value_view_def)
      ultimately show ?thesis
        using Some CUpdate e d c1(5) ins
        by (intro exI [of _ "lfu_insert ?L cur1 k (Some d)"]
            exI [of _ "if entity_get d \<noteq> entity_get e then [Overwrite k d block None] else []"]) (auto simp: step)
    next
      case (COverwrite d)
      then have d: "in_pool pl d" "shown pl (Some d) ?w" using assms(4) by (simp_all add: shown_def)
      moreover have "entity_get e = entity_get d \<Longrightarrow> value_view d = value_view e" by (simp add: value_view_def)
      ultimately show ?thesis
        using Some COverwrite e c1(5) ins
        by (intro exI [of _ "lfu_insert ?L cur1 k (Some d)"]
            exI [of _ "if entity_get e \<noteq> entity_get d then [Overwrite k d block None] else []"])
          (auto simp: step entity_eq_in_pool)
    qed
  qed
qed

section \<open>All operations of a block\<close>

definition mods_ok ::
  "atom_pool arc \<Rightarrow> block_number \<Rightarrow> (entity_key \<Rightarrow> 'd attrs option) \<Rightarrow> 'd cache_ops \<Rightarrow> 'd entity entity_modification list \<Rightarrow> bool" where
  "mods_ok pl block st ops ms \<longleftrightarrow>
     distinct (map em_key ms) \<and> em_key ` set ms \<subseteq> fst ` set ops \<and> (\<forall>m \<in> set ms. mod_fits pl block st m) \<and>
     mods_view ms st = ops_view ops st"

lemma mods_ok_Cons:
  assumes "mods_ok pl block (st(k := op_view op (st k))) ops ms" "k \<notin> fst ` set ops"
    and "ms1 = [] \<and> op_view op (st k) = st k \<or>
      (\<exists>m. ms1 = [m] \<and> em_key m = k \<and> mod_fits pl block st m \<and> mod_view m = op_view op (st k))"
  shows "mods_ok pl block st ((k, op) # ops) (ms1 @ ms)"
proof -
  let ?st = "st(k := op_view op (st k))"
  have ms: "distinct (map em_key ms)" "em_key ` set ms \<subseteq> fst ` set ops" "\<forall>m \<in> set ms. mod_fits pl block ?st m"
    "mods_view ms ?st = ops_view ops ?st"
    using assms(1) by (simp_all add: mods_ok_def)
  have k: "k \<notin> em_key ` set ms" using ms(2) assms(2) by auto
  have "mod_fits pl block st m" if "m \<in> set ms" for m
    using that ms(3) k mod_fits_cong [of ?st m st] by (metis fun_upd_other image_eqI)
  moreover have "mods_view (ms1 @ ms) st j = ops_view ((k, op) # ops) st j" for j
  proof (cases "j = k")
    case True
    have "find (\<lambda>m. em_key m = k) ms = None" using k by (auto simp: find_None_iff)
    with True assms(3) show ?thesis by (auto simp: mods_view_def ops_view_def)
  next
    case False
    have "find (\<lambda>m. em_key m = j) (ms1 @ ms) = find (\<lambda>m. em_key m = j) ms" using False assms(3) by auto
    moreover have "mods_view ms ?st j = ops_view ops ?st j" using ms(4) by simp
    ultimately show ?thesis using False by (simp add: mods_view_def ops_view_def split: option.splits)
  qed
  ultimately show ?thesis using ms(1,2) k assms(3) by (auto simp: mods_ok_def)
qed

lemma as_modification_all:
  assumes "lfu_wf (cn_lfu env) cur" "reflects (shown pl) (lfu_map (cn_lfu env) cur) st" "ops_ok pl ops"
    and "\<forall>k \<in> fst ` set ops. lfu_map (cn_lfu env) cur k = None \<longrightarrow> st k = None"
  shows "\<exists>cur' ms. try_fold (as_modification env block) (cur, mods) ops = Ok (cur', mods @ ms) \<and>
    lfu_wf (cn_lfu env) cur' \<and> reflects (shown pl) (lfu_map (cn_lfu env) cur') (ops_view ops st) \<and> mods_ok pl block st ops ms"
  using assms
proof (induction ops arbitrary: cur st mods)
  case Nil
  then show ?case by (auto simp: mods_ok_def mods_view_def fun_eq_iff)
next
  case (Cons kop ops)
  obtain k op where kop: "kop = (k, op)" by (cases kop)
  have op: "op_in_pool pl op" "ops_ok pl ops" "k \<notin> fst ` set ops" using Cons.prems(3) kop by (auto simp: ops_ok_def)
  let ?st = "st(k := op_view op (st k))"
  obtain cur1 ms1 where s1: "as_modification env block (cur, mods) (k, op) = Ok (cur1, mods @ ms1)" "lfu_wf (cn_lfu env) cur1"
    "reflects (shown pl) (lfu_map (cn_lfu env) cur1) ?st"
    "\<forall>j. j \<noteq> k \<longrightarrow> lfu_map (cn_lfu env) cur1 j = lfu_map (cn_lfu env) cur j"
    "ms1 = [] \<and> op_view op (st k) = st k \<or>
      (\<exists>m. ms1 = [m] \<and> em_key m = k \<and> mod_fits pl block st m \<and> mod_view m = op_view op (st k))"
    using as_modification_law [OF Cons.prems(1,2) _ op(1), of k block mods] Cons.prems(4) kop by auto
  have "\<forall>j \<in> fst ` set ops. lfu_map (cn_lfu env) cur1 j = None \<longrightarrow> ?st j = None"
    using Cons.prems(4) s1(4) op(3) kop by auto
  from Cons.IH [OF s1(2,3) op(2) this] obtain cur' ms where s2:
    "try_fold (as_modification env block) (cur1, mods @ ms1) ops = Ok (cur', (mods @ ms1) @ ms)" "lfu_wf (cn_lfu env) cur'"
    "reflects (shown pl) (lfu_map (cn_lfu env) cur') (ops_view ops ?st)" "mods_ok pl block ?st ops ms"
    by blast
  have "map_of ops k = None" using op(3) by (simp add: map_of_eq_None_iff)
  then have "ops_view ops ?st = ops_view (kop # ops) st" using kop by (auto simp: ops_view_def fun_eq_iff split: option.split)
  with s1(1) s2 mods_ok_Cons [OF s2(4) op(3) s1(5)] kop show ?case
    by (intro exI [of _ cur'] exI [of _ "ms1 @ ms"]) simp
qed

lemma as_modifications_law:
  assumes "cache_inv env pl st c" "store_reads env pl st" "\<not> ec_in_handler c"
    and "\<forall>k \<in> fst ` set (ec_updates c). cn_is_immutable env (k_entity_type k) \<longrightarrow>
      lfu_contains_key (cn_lfu env) (ec_current c) k \<or> st k = None"
  shows "as_modifications env c block = Some (Panic ''empty cache but total_weight > max_weight'') \<or>
    (\<exists>mods cur stats. as_modifications env c block = Some (Ok (mods, cur, stats)) \<and>
       distinct (map em_key mods) \<and> em_key ` set mods \<subseteq> fst ` set (ec_updates c) \<and>
       (\<forall>m \<in> set mods. mod_fits pl block st m) \<and> mods_view mods st = cache_view c st \<and>
       lfu_wf (cn_lfu env) cur \<and> reflects (shown pl) (lfu_map (cn_lfu env) cur) (cache_view c st))"
proof -
  let ?L = "cn_lfu env"
  have c: "lfu_wf ?L (ec_current c)" "reflects (shown pl) (lfu_map ?L (ec_current c)) st" "ops_ok pl (ec_updates c)"
    "cache_view c st = ops_view (ec_updates c) st"
    using assms(1,3) by (simp_all add: cache_inv_def cache_view_def)
  let ?missing = "filter (\<lambda>key. \<not> cn_is_immutable env (k_entity_type key))
      (filter (\<lambda>key. \<not> lfu_contains_key ?L (ec_current c) key) (map fst (ec_updates c)))"
  obtain found where f: "cn_get_many env ?missing = Ok found" "\<forall>(k, e) \<in> set found. shown pl (Some e) (st k)"
    "\<forall>k \<in> set ?missing. k \<in> fst ` set found \<or> st k = None"
    using store_reads_many [OF assms(2), of ?missing] by blast
  let ?kvs = "map (\<lambda>(key, e). (key, Some e)) found"
  let ?cur = "fold (\<lambda>(key, v) cur. lfu_insert ?L cur key v) ?kvs (ec_current c)"
  have "\<forall>(k, v) \<in> set ?kvs. shown pl v (st k)" using f(2) by auto
  note fill = lfu.fill [OF c(1,2) this]
  have new: "\<forall>k \<in> fst ` set (ec_updates c). lfu_map ?L ?cur k = None \<longrightarrow> st k = None"
  proof (intro ballI impI)
    fix k
    assume k: "k \<in> fst ` set (ec_updates c)" "lfu_map ?L ?cur k = None"
    then have "lfu_map ?L (ec_current c) k = None" "k \<notin> fst ` set found"
      unfolding fill(2) by (auto simp: map_add_None map_of_eq_None_iff rev_map [symmetric] image_image case_prod_beta)
    then have "\<not> lfu_contains_key ?L (ec_current c) k" by (simp add: lfu_contains_key_iff [OF c(1)])
    with k(1) \<open>k \<notin> fst ` set found\<close> assms(4) f(3) show "st k = None" by auto
  qed
  obtain cur mods where m: "try_fold (as_modification env block) (?cur, []) (ec_updates c) = Ok (cur, mods)"
    "lfu_wf ?L cur" "reflects (shown pl) (lfu_map ?L cur) (cache_view c st)" "mods_ok pl block st (ec_updates c) mods"
    using as_modification_all [OF fill(1,3) c(3) new, of block "[]"] c(4) by auto
  have as: "as_modifications env c block =
      and_then_opt (evict_and_stats ?L cur (cn_cache_size env)) (\<lambda>(stats, cur'). Some (Ok (mods, cur', stats)))"
    using assms(3) f(1) m(1) by (simp add: as_modifications_def Let_def and_then_opt_def)
  show ?thesis
    using evict_and_stats_returns [OF m(2), of "cn_cache_size env", where ?'e = store_error]
  proof (elim disjE exE conjE)
    fix stats cur'
    assume e: "evict_and_stats ?L cur (cn_cache_size env) = (Some (Ok (stats, cur')) :: (_, store_error) outcome option)"
      "lfu_wf ?L cur'" "lfu_map ?L cur' \<subseteq>\<^sub>m lfu_map ?L cur"
    then have "reflects (shown pl) (lfu_map ?L cur') (cache_view c st)"
      using m(3) by (auto simp: reflects_def map_le_def dom_def)
    with e m(4) c(4) show ?thesis by (simp add: as and_then_opt_def mods_ok_def)
  qed (simp add: as and_then_opt_def)
qed

text \<open>
  C11 (the modifications of a block). When all handlers have run, \<open>as_modifications\<close> returns at most one
  modification for an entity, each of them for an entity that was changed and of the kind that the
  store can apply: new entities are inserted, existing ones overwritten or removed. Applied to what
  the store has, they give what the handlers saw last, and the cache that is kept for the next block
  reflects that, too. The one way to fail is the panic of the eviction from the cache. Entities of
  immutable types that the cache does not have are taken to be new.
\<close>

theorem as_modifications_correct:
  assumes "cache_inv env pl st c" "store_reads env pl st" "\<not> ec_in_handler c"
    and "\<forall>k \<in> fst ` set (ec_updates c). cn_is_immutable env (k_entity_type k) \<longrightarrow>
      lfu_contains_key (cn_lfu env) (ec_current c) k \<or> st k = None"
  shows "as_modifications env c block = Some (Panic ''empty cache but total_weight > max_weight'') \<or>
    (\<exists>mods cur stats. as_modifications env c block = Some (Ok (mods, cur, stats)) \<and>
       distinct (map em_key mods) \<and> em_key ` set mods \<subseteq> fst ` set (ec_updates c) \<and>
       (\<forall>m \<in> set mods. mod_fits pl block st m) \<and> mods_view mods st = cache_view c st \<and>
       lfu_wf (cn_lfu env) cur \<and> reflects (shown pl) (lfu_map (cn_lfu env) cur) (cache_view c st))"
  using as_modifications_law [OF assms, of block] .

text \<open>A block that creates one entity\<close>

definition example_block_cache :: "(((entity_key, nat entity option) cache_entry \<times> priority) list, nat) entity_cache" where
  "example_block_cache = (cache_new example_cache_env (seq_new 5))\<lparr>ec_updates := [(example_named_key, CUpdate example_named)]\<rparr>"

lemma example_block_cache_inv:
  "cache_inv example_cache_env (Arc 0 example_pool) (\<lambda>_. None) example_block_cache" "\<not> ec_in_handler example_block_cache"
  using cache_new_inv(1) [of example_cache_env "Arc 0 example_pool" "\<lambda>_. None" "seq_new 5"] example_named_in_pool
  by (simp_all add: cache_inv_def example_block_cache_def ops_ok_def list_pq_laws cache_new_def)
    (simp add: example_cache_env_def list_pq_laws)

lemma example_modifications:
  assumes "remove_null_fields example_named = Ok d"
  obtains cur stats where "as_modifications example_cache_env example_block_cache 5 =
    Some (Ok ([Insert example_named_key d 5 None], cur, stats))"
  using assms
  by (simp add: as_modifications_def example_block_cache_def cache_new_def example_cache_env_def as_modification_def
      lfu_eval lfu_contains_key_def evict_and_stats_def)

lemma example_block_view:
  "cache_view example_block_cache (\<lambda>_. None) example_named_key = Some [''id'' \<mapsto> StringV ''a'', ''name'' \<mapsto> StringV ''panda'']"
  by (auto simp: cache_view_def example_block_cache_def cache_new_def ops_view_def apply_changes_def entity_get_def obj_get_def
      example_lookup example_named_def VID_FIELD_def fun_eq_iff)

lemma as_modifications_correct_witness:
  "\<exists>mods cur stats. as_modifications example_cache_env example_block_cache 5 = Some (Ok (mods, cur, stats)) \<and>
     mods_view mods (\<lambda>_. None) example_named_key = Some [''id'' \<mapsto> StringV ''a'', ''name'' \<mapsto> StringV ''panda''] \<and>
     (\<forall>m \<in> set mods. mod_fits (Arc 0 example_pool) 5 (\<lambda>_. None) m)"
proof -
  obtain d where d: "remove_null_fields example_named = Ok d" using remove_null_in_pool [OF example_named_in_pool] by blast
  obtain cur stats where "as_modifications example_cache_env example_block_cache 5 =
      Some (Ok ([Insert example_named_key d 5 None], cur, stats))"
    using d by (rule example_modifications)
  then show ?thesis
    using as_modifications_correct [OF example_block_cache_inv(1) example_store_reads example_block_cache_inv(2), of 5]
      example_block_view
    by (auto simp: example_cache_env_def)
qed

section \<open>The batch of a block\<close>

definition rows_of :: "'e row_groups \<Rightarrow> entity_type \<Rightarrow> 'e entity_modification list" where
  "rows_of gs t = (case rgs_group gs t of None \<Rightarrow> [] | Some g \<Rightarrow> rg_rows g)"

lemma rows_of_group:
  "distinct (map rg_entity_type gs) \<Longrightarrow> g \<in> set gs \<Longrightarrow> rows_of gs (rg_entity_type g) = rg_rows g"
  by (induction gs) (auto simp: rows_of_def rgs_group_def rev_image_eqI)

lemma update_group_rows:
  assumes "update_group f t gs = (gs', Ok ())"
    and "\<And>g g'. g \<in> insert (row_group_new t) (set gs) \<Longrightarrow> rg_entity_type g = t \<Longrightarrow> f g = (g', Ok ()) \<Longrightarrow>
      rg_entity_type g' = t \<and> rg_rows g' = rg_rows g @ [m]"
  shows "rows_of gs' t' = (if t' = t then rows_of gs t @ [m] else rows_of gs t')"
  using assms
proof (induction gs arbitrary: gs')
  case Nil
  then obtain g' where "f (row_group_new t) = (g', Ok ())" "gs' = [g']" by (auto split: prod.splits)
  with Nil.prems(2) [of "row_group_new t" g'] show ?case by (simp add: rows_of_def rgs_group_def row_group_new_def)
next
  case (Cons g gs)
  show ?case
  proof (cases "rg_entity_type g = t")
    case True
    then obtain g' where "f g = (g', Ok ())" "gs' = g' # gs" using Cons.prems(1) by (auto split: prod.splits)
    with Cons.prems(2) [of g g'] True show ?thesis by (simp add: rows_of_def rgs_group_def)
  next
    case False
    then obtain hs where u: "update_group f t gs = (hs, Ok ())" "gs' = g # hs" using Cons.prems(1) by (auto split: prod.splits)
    have "rows_of hs t' = (if t' = t then rows_of gs t @ [m] else rows_of gs t')"
      by (rule Cons.IH [OF u(1)], rule Cons.prems(2)) auto
    with False u(2) show ?thesis by (auto simp: rows_of_def rgs_group_def)
  qed
qed

text \<open>A modification for an id that the group does not have yet is added at the end.\<close>

lemma push_new_id:
  assumes "rg_push fl memo g m block = (g', Ok ())" "last_mod_ok memo g" "em_id m \<notin> em_id ` set (rg_rows g)"
    and "\<not> (tf_is_immutable fl (rg_entity_type g) \<and> tf_skip_duplicates fl (rg_entity_type g))"
  shows "g' = push_row memo g m"
proof -
  have ap: "append_row fl memo g m = (g', Ok ())" using assms(1) by (auto simp: rg_push_def Let_def split: if_splits)
  show ?thesis
  proof (cases "tf_is_immutable fl (rg_entity_type g)")
    case True
    with ap assms(4) show ?thesis
      by (auto simp: append_row_def append_immutable_def split: entity_modification.splits option.splits if_splits)
  next
    case False
    from append_row_cases [OF ap False assms(2)] show ?thesis
      using assms(3) by cases (auto simp: image_iff)
  qed
qed

abbreviation id_of :: "'e entity_modification \<Rightarrow> entity_type \<times> Id" where
  "id_of m \<equiv> (k_entity_type (em_key m), em_id m)"

lemma batch_mods_rows:
  assumes "batch_mods fl memo block ms = (gs, Ok ())" "\<forall>m \<in> set ms. fresh_mod block m" "distinct (map id_of ms)"
    and "\<forall>t. \<not> (tf_is_immutable fl t \<and> tf_skip_duplicates fl t)"
  shows "rows_of gs t = filter (\<lambda>m. k_entity_type (em_key m) = t) ms"
  using assms(1-3)
proof (induction ms arbitrary: gs t rule: rev_induct)
  case Nil
  then show ?case by (simp add: batch_mods_def rows_of_def rgs_group_def)
next
  case (snoc m ms)
  let ?t = "k_entity_type (em_key m)"
  obtain hs where h: "batch_mods fl memo block ms = (hs, Ok ())"
    "update_group (\<lambda>g. rg_push fl memo g m block) ?t hs = (gs, Ok ())"
    using snoc.prems(1) by (auto simp: batch_mods_def mut_fold_append split: prod.splits outcome.splits)
  note IH = snoc.IH [OF h(1)]
  have rows: "\<And>t. rows_of hs t = filter (\<lambda>m. k_entity_type (em_key m) = t) ms"
    using IH snoc.prems(2,3) by simp
  have new: "\<forall>x \<in> set ms. k_entity_type (em_key x) = ?t \<longrightarrow> em_id x \<noteq> em_id m"
  proof (intro ballI impI notI)
    fix x
    assume "x \<in> set ms" "k_entity_type (em_key x) = ?t" "em_id x = em_id m"
    then have "id_of m \<in> id_of ` set ms" by (intro image_eqI [of _ _ x]) simp_all
    with snoc.prems(3) show False by simp
  qed
  have inv: "groups_inv fl memo block block hs" using batch_mods_inv [OF h(1)] snoc.prems(2) by simp
  have "rows_of gs t = (if t = ?t then rows_of hs ?t @ [m] else rows_of hs t)"
  proof (rule update_group_rows [OF h(2)])
    fix g g'
    assume g: "g \<in> insert (row_group_new ?t) (set hs)" "rg_entity_type g = ?t" "rg_push fl memo g m block = (g', Ok ())"
    have "rg_rows g = rows_of hs ?t \<or> rg_rows g = []"
      using g(1,2) inv rows_of_group [of hs g] by (auto simp: groups_inv_def row_group_new_def)
    then have "em_id m \<notin> em_id ` set (rg_rows g)" using new rows [of ?t] by auto
    moreover have "last_mod_ok memo g"
      using g(1) inv group_inv_new [of fl memo block block ?t]
      by (auto simp: groups_inv_def group_inv_def rg_inv_def split: if_splits)
    ultimately have "g' = push_row memo g m" using push_new_id [OF g(3)] assms(4) by blast
    with g(2) show "rg_entity_type g' = ?t \<and> rg_rows g' = rg_rows g @ [m]" by simp
  qed
  with rows show ?case by auto
qed

text \<open>The last operation of the batch of one block for an entity is the modification for it.\<close>

lemma find_key_unique:
  assumes "distinct (map em_key ms)"
  shows "find (\<lambda>m. em_key m = k) ms = Some m \<longleftrightarrow> m \<in> set ms \<and> em_key m = k"
  using assms by (induction ms) (auto simp: image_iff)

lemma block_batch_last_op:
  assumes "unstable_sort mod_kind srt" "\<forall>m \<in> set mods. fresh_mod (bp_number ptr) m" "distinct (map id_of mods)"
    and "\<forall>t. \<not> (tf_is_immutable fl t \<and> tf_skip_duplicates fl t)"
    and "batch_new fl memo srt weigh ptr time cursor mods dss errs offchain nonfatal = Ok b" "bp_number ptr \<le> x"
  shows "batch_last_op False b key x = map_option (\<lambda>m. as_entity_op m x) (find (\<lambda>m. em_key m = key) mods)"
proof -
  have srt: "mset (srt mods) = mset mods" "set (srt mods) = set mods"
    using assms(1) by (metis unstable_sort_def, metis unstable_sort_def set_mset_mset)
  have ids: "distinct (map id_of (srt mods))"
    using assms(3) srt(1) by (metis mset_map mset_eq_imp_distinct_iff)
  have keys: "distinct (map em_key mods)"
    using assms(3) by (auto simp: distinct_map inj_on_def em_id_def)
  obtain gs where gs: "batch_mods fl memo (bp_number ptr) (srt mods) = (gs, Ok ())" "b_mods b = gs"
    using assms(5) by (auto simp: batch_new_def split: prod.splits outcome.splits)
  have rows: "rows_of gs (k_entity_type key) = filter (\<lambda>m. k_entity_type (em_key m) = k_entity_type key) (srt mods)"
    using batch_mods_rows [OF gs(1) _ ids assms(4)] assms(2) srt(2) by simp
  let ?P = "\<lambda>m. em_key m = key \<and> em_block m \<le> x"
  have "batch_last_op False b key x = map_option (\<lambda>m. as_entity_op m x) (rfind ?P (rows_of gs (k_entity_type key)))"
    by (simp add: batch_last_op_def gs(2) rows_of_def rg_last_op_scan split: option.split)
  also have "rfind ?P (rows_of gs (k_entity_type key)) = find (\<lambda>m. em_key m = key) mods"
  proof (cases "find (\<lambda>m. em_key m = key) mods")
    case None
    then have "rfind ?P (rows_of gs (k_entity_type key)) = None"
      using srt(2) by (auto simp: rows rfind_None_iff find_None_iff)
    with None show ?thesis by simp
  next
    case (Some m)
    then have m: "m \<in> set mods" "em_key m = key" by (simp_all add: find_key_unique [OF keys])
    then have "?P m" using assms(2,6) by (auto simp: fresh_mod_def)
    with m srt(2) have "rfind ?P (rows_of gs (k_entity_type key)) \<noteq> None" by (auto simp: rows rfind_None_iff)
    then obtain m' where m': "rfind ?P (rows_of gs (k_entity_type key)) = Some m'" by blast
    then have "m' \<in> set mods" "em_key m' = key" using rfind_Some_D [OF m'] srt(2) by (auto simp: rows)
    then have "find (\<lambda>m. em_key m = key) mods = Some m'" by (simp add: find_key_unique [OF keys])
    with m' show ?thesis by simp
  qed
  finally show ?thesis .
qed

lemma mod_fits_fresh: "mod_fits pl block st m \<Longrightarrow> fresh_mod block m"
  by (cases m) (auto simp: fresh_mod_def)

lemma mod_fits_view: "mod_fits pl block st m \<Longrightarrow> map_option value_view (op_value (as_entity_op m x)) = mod_view m"
  by (cases m) auto

text \<open>
  C1 (a block from the handlers to the tables). The handlers of a block run on an entity cache over
  tables that are in order up to an earlier block; the modifications that the cache makes of their
  changes become a batch, and the batch is written. A lookup at the block then finds exactly what the
  handlers saw last, for every entity that does not share its id with one of another causality region.
\<close>

theorem block_commit:
  assumes "cache_inv env pl st c" "store_reads env pl st" "\<not> ec_in_handler c"
    and "\<forall>k \<in> fst ` set (ec_updates c). cn_is_immutable env (k_entity_type k) \<longrightarrow>
      lfu_contains_key (cn_lfu env) (ec_current c) k \<or> st k = None"
    and "as_modifications env c (bp_number ptr) = Some (Ok (mods, cur, stats))"
    and "unstable_sort mod_kind srt" "distinct (map id_of mods)"
    and "\<forall>t. \<not> (tf_is_immutable fl t \<and> tf_skip_duplicates fl t)"
    and "batch_new fl memo srt weigh ptr time cursor mods dss errs offchain nonfatal = Ok b"
    and "apply_entity_modifications show_id senv l (b_mods b) = Some (Ok (l', n))"
    and "layout_inv fl senv h l" "h < bp_number ptr" "bp_number ptr \<le> BLOCK_NUMBER_MAX"
    and "\<forall>e. \<not> env_too_large senv e" "groups_fit l (b_mods b)"
    and "\<forall>g \<in> set (b_mods b). same_key key g"
    and "layout_find l key (bp_number ptr) = Ok v" "shown pl v (st key)"
  shows "\<exists>v'. layout_find l' key (bp_number ptr) = Ok v' \<and> map_option value_view v' = cache_view c st key"
proof -
  let ?b = "bp_number ptr"
  have m: "\<forall>m \<in> set mods. mod_fits pl ?b st m" "mods_view mods st = cache_view c st"
    using as_modifications_law [OF assms(1-4), of ?b] assms(5) by auto
  then have fresh: "\<forall>m \<in> set mods. fresh_mod ?b m" using mod_fits_fresh by blast
  note bn = batch_new_inv [OF assms(6) fresh assms(9)]
  have op: "batch_last_op False b key ?b = map_option (\<lambda>m. as_entity_op m ?b) (find (\<lambda>m. em_key m = key) mods)"
    by (rule block_batch_last_op [OF assms(6) fresh assms(7,8,9) order_refl])
  have "layout_find l' key ?b = (case batch_last_op False b key ?b of Some op \<Rightarrow> Ok (op_value op) | None \<Rightarrow> layout_find l key ?b)"
    using layout_write_law [OF assms(10,11,14) _ _ _ _ assms(15), of memo ?b ?b key ?b] bn assms(12,13,16)
    by (simp add: batch_last_op_def groups_last_op_def)
  moreover have "mods_view mods st key = cache_view c st key" using m(2) by simp
  ultimately show ?thesis
    using op assms(17,18) m(1) mod_fits_view [of pl ?b st _ ?b]
    by (cases "find (\<lambda>m. em_key m = key) mods") (auto simp: mods_view_def shown_def dest: find_Some_mem)
qed

text \<open>The block of the example written into an empty table\<close>

definition animal_env :: "nat entity store_env" where
  "animal_env = \<lparr>env_prep = (\<lambda>_ _ _. Ok ()), env_too_large = (\<lambda>_. False), env_insert_extra_cols = 0, env_share_interfaces = (\<lambda>_. [])\<rparr>"

definition animal_layout :: "nat entity version list \<Rightarrow> nat entity layout" where
  "animal_layout rows = [(''Account'', \<lparr>t_meta = example_meta, t_rows = rows\<rparr>)]"

lemma animal_meta_ok: "meta_ok example_flags animal_env ''Account'' example_meta"
  using example_meta_ok by (simp add: meta_ok_def animal_env_def example_env_def)

lemma animal_write:
  defines "g \<equiv> \<lambda>d. \<lparr>rg_entity_type = ''Account'', rg_rows = [Insert example_named_key d 5 None], rg_last_mod = [StringId ''a'' \<mapsto> 0]\<rparr>"
  shows "\<exists>rows n. apply_entity_modifications show_id animal_env (animal_layout []) [g d] = Some (Ok (animal_layout rows, n))"
proof -
  have "0 < insert_chunk_size (env_insert_extra_cols animal_env) example_meta" using animal_meta_ok by (simp add: meta_ok_def)
  then have "\<exists>rows. env_write_group animal_env \<lparr>t_meta = example_meta, t_rows = []\<rparr> (g d) = Some (Ok rows)"
    using write_group_mutable [of example_meta "[]" "g d"]
    by (simp add: g_def preps_ok_def animal_env_def range_rows_def typed_ids_def row_chains_def end_ok_def em_id_def
        clamp_fits_def clamp_map_def)
  then obtain rows where "env_write_group animal_env \<lparr>t_meta = example_meta, t_rows = []\<rparr> (g d) = Some (Ok rows)" by blast
  moreover have "distinct (map fst (animal_layout []))" "set_rows ''Account'' rows (animal_layout []) = animal_layout rows"
    by (simp_all add: animal_layout_def set_rows_def)
  ultimately show ?thesis
    using apply_group_succeeds [of "animal_layout []" "g d" "\<lparr>t_meta = example_meta, t_rows = []\<rparr>" animal_env _ show_id 0]
    by (auto simp: apply_entity_modifications_def g_def animal_env_def animal_layout_def and_then_opt_def)
qed

lemma block_commit_witness:
  "\<exists>mods cur stats b rows n v. as_modifications example_cache_env example_block_cache 5 = Some (Ok (mods, cur, stats)) \<and>
     batch_new example_flags True (sort_key mod_kind) (\<lambda>_. 0) (example_ptr 5) 0 None mods [] [] [] False =
       Ok (b :: (nat entity, nat, nat) batch) \<and>
     apply_entity_modifications (\<lambda>_. []) animal_env (animal_layout []) (b_mods b) = Some (Ok (animal_layout rows, n)) \<and>
     layout_find (animal_layout rows) example_named_key 5 = Ok v \<and>
     map_option value_view v = Some [''id'' \<mapsto> StringV ''a'', ''name'' \<mapsto> StringV ''panda'']"
proof -
  obtain d where d: "remove_null_fields example_named = Ok d" using remove_null_in_pool [OF example_named_in_pool] by blast
  let ?mods = "[Insert example_named_key d 5 None]"
  let ?g = "\<lparr>rg_entity_type = ''Account'', rg_rows = ?mods, rg_last_mod = [StringId ''a'' \<mapsto> 0]\<rparr>"
  obtain cur stats where m: "as_modifications example_cache_env example_block_cache 5 = Some (Ok (?mods, cur, stats))"
    using d by (rule example_modifications)
  obtain b :: "(nat entity, nat, nat) batch" where
    b: "batch_new example_flags True (sort_key mod_kind) (\<lambda>_. 0) (example_ptr 5) 0 None ?mods [] [] [] False = Ok b" "b_mods b = [?g]"
    by (simp add: batch_eval)
  obtain rows n where w: "apply_entity_modifications (\<lambda>_. []) animal_env (animal_layout []) (b_mods b) = Some (Ok (animal_layout rows, n))"
    unfolding b(2) using animal_write [of "\<lambda>_. []" d] by blast
  have inv: "layout_inv example_flags animal_env 4 (animal_layout [])"
    using animal_meta_ok by (simp add: layout_inv_def animal_layout_def table_inv_def)
  have fits: "groups_fit (animal_layout []) (b_mods b)"
    by (simp add: b(2) groups_fit_def group_fits_def typed_ids_def em_id_def animal_layout_def no_open_def)
  have "\<exists>v. layout_find (animal_layout rows) example_named_key (bp_number (example_ptr 5)) = Ok v \<and>
      map_option value_view v = cache_view example_block_cache (\<lambda>_. None) example_named_key"
    by (rule block_commit [OF example_block_cache_inv(1) example_store_reads example_block_cache_inv(2) _ _ _ _ _ b(1) w inv _ _ _ fits,
          where v = None])
      (use m b(2) in \<open>simp_all add: sort_key_unstable animal_env_def BLOCK_NUMBER_MAX_def same_key_def shown_def layout_find_def
        table_for_entity_def animal_layout_def table_find_def example_cache_env_def example_flags_def\<close>)
  then show ?thesis using m b(1) w example_block_view by fastforce
qed

end
