(* ===== verification/Related_Entities.thy ===== *)
theory Related_Entities
  imports Entity_Cache_Laws
begin

text \<open>
  What \<open>EntityCache::load_related\<close> answers: the entities of a block that refer to a given entity, whether
  they come from the store or from the changes of the block.
\<close>

section \<open>The query on attributes\<close>

definition view_matches :: "derived_entity_query \<Rightarrow> entity_key \<Rightarrow> 'd attrs \<Rightarrow> bool" where
  "view_matches query key a \<longleftrightarrow>
     k_entity_type key = deq_entity_type query \<and> k_causality_region key = deq_causality_region query \<and>
     (case a (deq_entity_field query) of Some v \<Rightarrow> id_eq_value (deq_value query) v | None \<Rightarrow> False)"

lemma value_from_id_not_null: "NullV \<noteq> value_from_id i"
  by (cases i) simp_all

lemma query_matches_view: "query_matches query key e \<longleftrightarrow> view_matches query key (value_view e)"
  by (auto simp: id_eq_value_iff value_from_id_not_null query_matches_def view_matches_def value_view_def apply_changes_def split: option.split)

text \<open>
  The store answers a query with distinct entities as it has them, and with every entity that matches.
\<close>

definition derived_answer :: "atom_pool arc \<Rightarrow> (entity_key \<Rightarrow> 'd attrs option) \<Rightarrow> derived_entity_query \<Rightarrow> (entity_key \<times> 'd entity) list \<Rightarrow> bool" where
  "derived_answer pl st query stored \<longleftrightarrow>
     distinct (map fst stored) \<and> (\<forall>(k, e) \<in> set stored. shown pl (Some e) (st k)) \<and>
     (\<forall>k a. st k = Some a \<and> view_matches query k a \<longrightarrow> k \<in> fst ` set stored)"

definition derived_base :: "(entity_key \<Rightarrow> 'd attrs option) \<Rightarrow> (entity_key \<times> 'd entity) list \<Rightarrow> entity_key \<Rightarrow> 'd attrs option" where
  "derived_base st stored k = (if k \<in> fst ` set stored then st k else None)"

lemma derived_base_shown:
  assumes "derived_answer pl st query stored"
  shows "shown pl (map_of stored k) (derived_base st stored k)"
proof (cases "map_of stored k")
  case None
  then have "k \<notin> fst ` set stored" by (simp add: map_of_eq_None_iff)
  with None show ?thesis by (simp add: shown_def derived_base_def)
next
  case (Some e)
  then have "(k, e) \<in> set stored" by (rule map_of_SomeD)
  moreover from this have "k \<in> fst ` set stored" by (force intro: rev_image_eqI)
  ultimately show ?thesis using assms Some by (auto simp: derived_answer_def derived_base_def)
qed

section \<open>The candidates\<close>

lemma related_one:
  assumes "cache_inv env pl st c" "derived_answer pl st query stored"
  shows "\<exists>r. and_then (apply_ops (ec_updates c) k (map_of stored k)) (apply_ops (ec_handler_updates c) k) = Ok r \<and>
    shown pl r (cache_view c (derived_base st stored) k)"
proof -
  have ok: "ops_ok pl (ec_updates c)" "ops_ok pl (ec_handler_updates c)" using assms(1) by (simp_all add: cache_inv_def)
  obtain w where w: "apply_ops (ec_updates c) k (map_of stored k) = Ok w"
    "shown pl w (ops_view (ec_updates c) (derived_base st stored) k)"
    using apply_ops_view [OF ok(1), of "map_of stored k" "derived_base st stored" k] derived_base_shown [OF assms(2)] by blast
  obtain x where "apply_ops (ec_handler_updates c) k w = Ok x" "shown pl x (cache_view c (derived_base st stored) k)"
    using apply_ops_view [OF ok(2), of w "ops_view (ec_updates c) (derived_base st stored)" k] w(2) by (auto simp: cache_view_def)
  with w(1) show ?thesis by simp
qed

definition view_hit :: "derived_entity_query \<Rightarrow> (entity_key \<Rightarrow> 'd attrs option) \<Rightarrow> entity_key \<Rightarrow> bool" where
  "view_hit query view k \<longleftrightarrow> (\<exists>a. view k = Some a \<and> view_matches query k a)"

lemma related_fold:
  assumes "cache_inv env pl st c" "derived_answer pl st query stored"
  shows "\<exists>es. try_fold (related_step c query stored) acc ks = Ok (acc @ es) \<and>
    map value_view es = map (\<lambda>k. the (cache_view c (derived_base st stored) k))
      (filter (view_hit query (cache_view c (derived_base st stored))) ks)"
proof (induction ks arbitrary: acc)
  case (Cons k ks)
  let ?view = "cache_view c (derived_base st stored)"
  obtain r where r: "and_then (apply_ops (ec_updates c) k (map_of stored k)) (apply_ops (ec_handler_updates c) k) = Ok r"
    "shown pl r (?view k)" using related_one [OF assms] by blast
  define new where "new = (case r of Some e \<Rightarrow> if query_matches query k e then [e] else [] | None \<Rightarrow> [])"
  have step: "related_step c query stored acc k = Ok (acc @ new)"
    by (simp add: related_step_def r(1) new_def split: option.split)
  have new: "map value_view new = map (\<lambda>k. the (?view k)) (filter (view_hit query ?view) [k])"
    using r(2) by (cases r; cases "?view k") (simp_all add: new_def shown_def view_hit_def query_matches_view)
  obtain es where es: "try_fold (related_step c query stored) (acc @ new) ks = Ok ((acc @ new) @ es)"
    "map value_view es = map (\<lambda>k. the (?view k)) (filter (view_hit query ?view) ks)"
    using Cons.IH by blast
  have "try_fold (related_step c query stored) acc (k # ks) = Ok (acc @ (new @ es))" using step es(1) by simp
  moreover have "map value_view (new @ es) = map (\<lambda>k. the (?view k)) (filter (view_hit query ?view) (k # ks))"
    using new es(2) by (simp split: if_splits)
  ultimately show ?case by blast
qed simp

lemma related_candidates_set:
  "set (related_candidates c query stored) = fst ` set stored \<union>
     {k \<in> fst ` set (ec_updates c) \<union> fst ` set (ec_handler_updates c).
        k_entity_type k = deq_entity_type query \<and> k_causality_region k = deq_causality_region query}"
  by (auto simp: related_candidates_def)

lemma view_unchanged:
  "k \<notin> fst ` set (ec_updates c) \<Longrightarrow> k \<notin> fst ` set (ec_handler_updates c) \<Longrightarrow> cache_view c st k = st k"
  by (simp add: cache_view_def ops_view_def map_of_eq_None_iff [THEN iffD2])

lemma cache_view_local: "st k = st' k \<Longrightarrow> cache_view c st k = cache_view c st' k"
  by (simp add: cache_view_def ops_view_def split: option.split)

text \<open>Every entity that matches after the changes of the block is a candidate.\<close>

lemma hits_are_candidates:
  assumes "derived_answer pl st query stored" "view_hit query (cache_view c st) k"
  shows "k \<in> set (related_candidates c query stored)"
proof (cases "k \<in> fst ` set (ec_updates c) \<or> k \<in> fst ` set (ec_handler_updates c)")
  case True
  with assms(2) show ?thesis by (auto simp: related_candidates_set view_hit_def view_matches_def)
next
  case False
  with assms have "k \<in> fst ` set stored" by (auto simp: view_hit_def derived_answer_def view_unchanged)
  then show ?thesis by (simp add: related_candidates_set)
qed

section \<open>Filling the cache\<close>

context lookup_cache
begin

lemma fill_missing:
  assumes "inv c" "reflects R (content c) st" "\<forall>(k, e) \<in> set kvs. R (f e) (st k)"
  shows "inv (fold (\<lambda>(k, e) c. if contains c k then c else store c k (f e)) kvs c) \<and>
    reflects R (content (fold (\<lambda>(k, e) c. if contains c k then c else store c k (f e)) kvs c)) st"
  using assms
proof (induction kvs arbitrary: c)
  case (Cons kv kvs)
  obtain k e where kv: "kv = (k, e)" by (cases kv)
  have "inv (store c k (f e))" "reflects R (content (store c k (f e))) st"
    using store_law [OF Cons.prems(1), of k "f e"] Cons.prems(2,3) kv by (auto intro: reflects_upd)
  then show ?case using Cons.IH Cons.prems kv by simp
qed simp

end

lemma load_related_law:
  assumes "cache_inv env pl st c" "cn_field_related env eref = Ok (ty, name)"
    and "query = \<lparr>deq_entity_type = ty, deq_entity_field = name, deq_value = lr_entity_id eref,
           deq_causality_region = lr_causality_region eref\<rparr>"
    and "cn_get_derived env query = Ok stored" "derived_answer pl st query stored"
  defines "view \<equiv> cache_view c (derived_base st stored)"
  shows "\<exists>cur es. cache_load_related env c eref = (c\<lparr>ec_current := cur\<rparr>, Ok es) \<and> cache_inv env pl st (c\<lparr>ec_current := cur\<rparr>) \<and>
    map value_view es = map (\<lambda>k. the (view k)) (filter (view_hit query view) (related_candidates c query stored))"
proof -
  obtain es where es: "try_fold (related_step c query stored) [] (related_candidates c query stored) = Ok es"
    "map value_view es = map (\<lambda>k. the (view k)) (filter (view_hit query view) (related_candidates c query stored))"
    using related_fold [OF assms(1,5), of "[]" "related_candidates c query stored"] by (auto simp: view_def)
  let ?cur = "fold (\<lambda>(key, e) cur. if lfu_contains_key (cn_lfu env) cur key then cur else lfu_insert (cn_lfu env) cur key (Some e))
      stored (ec_current c)"
  have "\<forall>(k, e) \<in> set stored. shown pl (Some e) (st k)" using assms(5) by (simp add: derived_answer_def)
  then have "lfu_wf (cn_lfu env) ?cur \<and> reflects (shown pl) (lfu_map (cn_lfu env) ?cur) st"
    using assms(1) by (intro lfu.fill_missing) (simp_all add: cache_inv_def)
  then have "cache_inv env pl st (c\<lparr>ec_current := ?cur\<rparr>)" using assms(1) by (simp add: cache_inv_def)
  moreover have "cache_load_related env c eref = (c\<lparr>ec_current := ?cur\<rparr>, Ok es)"
    using assms(2-4) es(1) by (simp add: cache_load_related_def Let_def)
  ultimately show ?thesis using es(2) by blast
qed

section \<open>Properties\<close>

definition related_query :: "load_related_request \<Rightarrow> entity_type \<Rightarrow> string \<Rightarrow> derived_entity_query" where
  "related_query eref ty name = \<lparr>deq_entity_type = ty, deq_entity_field = name, deq_value = lr_entity_id eref,
     deq_causality_region = lr_causality_region eref\<rparr>"

text \<open>
  C12 (related entities). Let the store answer the query of \<open>load_related\<close>, and let every entity of the
  queried type that the block has changed be either in that answer or not in the store at all. Then \<open>load_related\<close>
  returns, in the order of their keys and each once, exactly the entities that match the query after the changes of the
  block, with the attributes that handlers see, and leaves what handlers see as it was.
\<close>

theorem load_related_correct:
  assumes "cache_inv env pl st c" "cn_field_related env eref = Ok (ty, name)"
    and "cn_get_derived env (related_query eref ty name) = Ok stored" "derived_answer pl st (related_query eref ty name) stored"
    and "\<forall>k \<in> set (related_candidates c (related_query eref ty name) stored). k \<in> fst ` set stored \<or> st k = None"
  shows "\<exists>c' es ks. cache_load_related env c eref = (c', Ok es) \<and> cache_inv env pl st c' \<and> cache_view c' st = cache_view c st \<and>
    distinct ks \<and> sorted (map key_rank ks) \<and>
    (\<forall>k. k \<in> set ks \<longleftrightarrow> (\<exists>a. cache_view c st k = Some a \<and> view_matches (related_query eref ty name) k a)) \<and>
    map (\<lambda>e. Some (value_view e)) es = map (cache_view c st) ks"
proof -
  let ?q = "related_query eref ty name" and ?view = "cache_view c (derived_base st stored)"
  let ?cands = "related_candidates c ?q stored" and ?ks = "filter (view_hit ?q (cache_view c st)) (related_candidates c ?q stored)"
  obtain cur es where l: "cache_load_related env c eref = (c\<lparr>ec_current := cur\<rparr>, Ok es)" "cache_inv env pl st (c\<lparr>ec_current := cur\<rparr>)"
    "map value_view es = map (\<lambda>k. the (?view k)) (filter (view_hit ?q ?view) ?cands)"
    using load_related_law [OF assms(1,2) related_query_def assms(3,4)] by blast
  have same: "?view k = cache_view c st k" if "k \<in> set ?cands" for k
    using assms(5) that by (intro cache_view_local) (auto simp: derived_base_def)
  have "filter (view_hit ?q ?view) ?cands = ?ks" by (rule filter_cong) (simp_all add: view_hit_def same)
  then have "map value_view es = map (\<lambda>k. the (cache_view c st k)) ?ks" using l(3) same by simp
  moreover have "map Some (map (\<lambda>k. the (cache_view c st k)) ?ks) = map (cache_view c st) ?ks"
    by (auto simp: view_hit_def)
  ultimately have es: "map (\<lambda>e. Some (value_view e)) es = map (cache_view c st) ?ks"
    by (metis (no_types, lifting) list.map_comp comp_def map_eq_conv)
  have cands: "distinct ?cands" "sorted (map key_rank ?cands)"
    by (simp_all add: related_candidates_def)
  have "distinct ?ks" "sorted (map key_rank ?ks)" using cands by (simp_all add: sorted_filter)
  moreover have "k \<in> set ?ks \<longleftrightarrow> (\<exists>a. cache_view c st k = Some a \<and> view_matches ?q k a)" for k
    using hits_are_candidates [OF assms(4), of c k] by (auto simp: view_hit_def)
  moreover have "cache_view (c\<lparr>ec_current := cur\<rparr>) st = cache_view c st" by (simp add: cache_view_def)
  ultimately show ?thesis using l(1,2) es by blast
qed


text \<open>A store with the account \<open>a\<close> whose name is \<open>panda\<close>\<close>

definition example_account :: "string \<Rightarrow> string \<Rightarrow> nat entity" where
  "example_account i n = \<lparr>obj_pool = Arc 0 example_pool,
     obj_entries = [\<lparr>e_key = 0, e_val = StringV i\<rparr>, \<lparr>e_key = 1, e_val = StringV n\<rparr>]\<rparr>"

definition example_rename :: "string \<Rightarrow> nat entity" where
  "example_rename n = \<lparr>obj_pool = Arc 0 example_pool, obj_entries = [\<lparr>e_key = 1, e_val = StringV n\<rparr>]\<rparr>"

definition example_related_env :: "(((entity_key, nat entity option) cache_entry \<times> priority) list, nat) cache_env" where
  "example_related_env = example_cache_env
     \<lparr>cn_get := (\<lambda>k. Ok (map_of [(example_named_key, example_named)] k)),
      cn_get_many := (\<lambda>ks. Ok (filter (\<lambda>(k, e). k \<in> set ks) [(example_named_key, example_named)])),
      cn_get_derived := (\<lambda>q. Ok (filter (\<lambda>(k, e). query_matches q k e) [(example_named_key, example_named)])),
      cn_field_related := (\<lambda>_. Ok (''Account'', ''name''))\<rparr>"

definition example_stored :: "entity_key \<Rightarrow> nat attrs option" where
  "example_stored k = map_option value_view (map_of [(example_named_key, example_named)] k)"

definition example_request :: "string \<Rightarrow> load_related_request" where
  "example_request n = \<lparr>lr_entity_type = ''Name'', lr_entity_id = StringId n, lr_entity_field = ''accounts'', lr_causality_region = 0\<rparr>"

definition example_related_cache where
  "example_related_cache ops = (cache_new example_related_env (seq_new 5))\<lparr>ec_updates := ops\<rparr>"

lemma example_accounts_in_pool:
  "in_pool (Arc 0 example_pool) (example_account i n)" "in_pool (Arc 0 example_pool) (example_rename n)"
proof -
  have "pool_get example_pool 0 = Some ''id''" "pool_get example_pool 1 = Some ''name''" by code_simp+
  then show "in_pool (Arc 0 example_pool) (example_account i n)" "in_pool (Arc 0 example_pool) (example_rename n)"
    by (simp_all add: in_pool_def example_account_def example_rename_def obj_wf_def example_pool_wf obj_atoms_def TOMBSTONE_KEY_def)
qed

lemma example_views:
  "value_view (example_account i n) = [''id'' \<mapsto> StringV i, ''name'' \<mapsto> StringV n]"
  "value_view (example_rename n) = [''name'' \<mapsto> StringV n]"
  "value_view example_named = [''id'' \<mapsto> StringV ''a'', ''name'' \<mapsto> StringV ''panda'']"
  by (auto simp: value_view_def apply_changes_def entity_get_def obj_get_def example_lookup example_account_def example_rename_def
      example_named_def VID_FIELD_def fun_eq_iff)

lemma example_related_reads: "store_reads example_related_env (Arc 0 example_pool) example_stored"
  by (auto simp: store_reads_def example_related_env_def example_stored_def shown_def example_named_in_pool)

lemma example_derived_answer:
  "derived_answer (Arc 0 example_pool) example_stored q (filter (\<lambda>(k, e). query_matches q k e) [(example_named_key, example_named)])"
  by (auto simp: derived_answer_def example_stored_def shown_def example_named_in_pool query_matches_view split: if_splits)

lemma example_related_inv:
  "ops_ok (Arc 0 example_pool) ops \<Longrightarrow> cache_inv example_related_env (Arc 0 example_pool) st (example_related_cache ops)"
  using cache_new_inv(1) [of example_related_env "Arc 0 example_pool" st "seq_new 5"]
  by (simp add: example_related_cache_def cache_inv_def cache_new_def example_related_env_def example_cache_env_def list_pq_laws)

lemma load_related_correct_witness:
  "\<exists>c' es. cache_load_related example_related_env
      (example_related_cache [(example_key ''b'' 0, CUpdate (example_account ''b'' ''panda''))]) (example_request ''panda'') = (c', Ok es) \<and>
    (\<forall>i. [''id'' \<mapsto> StringV i, ''name'' \<mapsto> StringV ''panda''] \<in> value_view ` set es \<longleftrightarrow> i = ''a'' \<or> i = ''b'')"
proof -
  let ?c = "example_related_cache [(example_key ''b'' 0, CUpdate (example_account ''b'' ''panda''))]"
  let ?r = "example_request ''panda''" and ?st = example_stored
  let ?q = "related_query ?r ''Account'' ''name''"
  let ?stored = "filter (\<lambda>(k, e). query_matches ?q k e) [(example_named_key, example_named)]"
  have inv: "cache_inv example_related_env (Arc 0 example_pool) ?st ?c"
    by (rule example_related_inv) (simp add: ops_ok_def example_accounts_in_pool)
  have hit: "query_matches ?q example_named_key example_named"
    by (simp add: query_matches_view view_matches_def example_views related_query_def example_request_def id_eq_value_def)
  have view: "cache_view ?c ?st k = (if k = example_named_key then Some (value_view example_named)
      else if k = example_key ''b'' 0 then Some (value_view (example_account ''b'' ''panda'')) else None)" for k
    by (auto simp: cache_view_def ops_view_def example_related_cache_def cache_new_def example_stored_def value_view_def)
  have rel: "cn_field_related example_related_env ?r = Ok (''Account'', ''name'')"
    "cn_get_derived example_related_env ?q = Ok ?stored"
    "\<forall>k \<in> set (related_candidates ?c ?q ?stored). k \<in> fst ` set ?stored \<or> ?st k = None"
    using hit by (auto simp: example_related_env_def related_candidates_set example_related_cache_def cache_new_def example_stored_def)
  obtain c' es ks where l: "cache_load_related example_related_env ?c ?r = (c', Ok es)"
    "\<forall>k. k \<in> set ks \<longleftrightarrow> (\<exists>a. cache_view ?c ?st k = Some a \<and> view_matches ?q k a)"
    "map (\<lambda>e. Some (value_view e)) es = map (cache_view ?c ?st) ks"
    using load_related_correct [OF inv rel(1,2) example_derived_answer rel(3)] by blast
  have "view_matches ?q (example_key i 0) (value_view (example_account i ''panda''))" for i
    by (simp add: view_matches_def example_views related_query_def example_request_def id_eq_value_def)
  then have "k \<in> set ks \<longleftrightarrow> k \<in> {example_named_key, example_key ''b'' 0}" for k
    using spec [OF l(2), of k] hit by (simp add: view query_matches_view)
  then have "set ks = {example_named_key, example_key ''b'' 0}" by (rule set_eqI)
  then have "(\<lambda>e. Some (value_view e)) ` set es = {Some (value_view example_named), Some (value_view (example_account ''b'' ''panda''))}"
    using arg_cong [OF l(3), of set] by (simp add: view insert_commute)
  then have "Some ` value_view ` set es = Some ` {value_view example_named, value_view (example_account ''b'' ''panda'')}"
    by (simp add: image_image)
  then have "value_view ` set es = {value_view example_named, value_view (example_account ''b'' ''panda'')}"
    by (simp only: inj_image_eq_iff [OF inj_Some])
  then have "[''id'' \<mapsto> StringV i, ''name'' \<mapsto> StringV ''panda''] \<in> value_view ` set es \<longleftrightarrow> i = ''a'' \<or> i = ''b''" for i
    by (auto simp: example_views fun_upd_def fun_eq_iff split: if_splits)
  with l(1) show ?thesis by blast
qed


end
