(* ===== verification/Block_State.thy ===== *)
theory Block_State
  imports Related_Entities
begin

text \<open>
  The state of a block while its handlers run, \<open>BlockState\<close> in \<open>graph/src/components/subgraph/instance.rs\<close>:
  the entity cache, the data sources that handlers create, the errors of handlers that were caught,
  and the capacity that is left for writes. Metrics are left out.
\<close>

section \<open>The state\<close>

text \<open>
  The two kinds of template of a data source. What a template holds, and the context of a data
  source, is not looked into here.
\<close>

datatype ('n, 'f) InstanceDSTemplate = Onchain 'n | Offchain 'f

fun is_onchain :: "('n, 'f) InstanceDSTemplate \<Rightarrow> bool" where
  "is_onchain (Onchain ds) = True"
| "is_onchain (Offchain ds) = False"

record ('n, 'f, 'x) ds_template_info =
  dst_template :: "('n, 'f) InstanceDSTemplate"
  dst_params :: "string list"
  dst_context :: "'x option"
  dst_creation_block :: block_number

record ('q, 'd, 't, 'ds, 'se) block_state =
  bs_entity_cache :: "('q, 'd) entity_cache"
  bs_deterministic_errors :: "'se list"
  bs_created_data_sources :: "'t list"
  bs_persisted_data_sources :: "'ds list"
  bs_handler_created_data_sources :: "'t list"
  bs_processed_data_sources :: "'ds list"
  bs_in_handler :: bool
  bs_write_capacity_remaining :: usize

text \<open>\<open>capacity\<close> is \<open>ENV_VARS.block_write_capacity\<close>.\<close>

definition block_state_new :: "'q lfu_cache \<Rightarrow> seq_generator \<Rightarrow> usize \<Rightarrow> ('q, 'd, 't, 'ds, 'se) block_state" where
  "block_state_new lfu gen capacity =
     \<lparr>bs_entity_cache = cache_with_current lfu gen, bs_deterministic_errors = [], bs_created_data_sources = [],
      bs_persisted_data_sources = [], bs_handler_created_data_sources = [], bs_processed_data_sources = [],
      bs_in_handler = False, bs_write_capacity_remaining = capacity\<rparr>"

definition saturating_sub :: "usize \<Rightarrow> usize \<Rightarrow> usize" where
  "saturating_sub a b = (if a < b then 0 else a - b)"

definition block_state_extend ::
  "('q, 'd) cache_env \<Rightarrow> ('q, 'd, 't, 'ds, 'se) block_state \<Rightarrow> ('q, 'd, 't, 'ds, 'se) block_state \<Rightarrow>
     (('q, 'd, 't, 'ds, 'se) block_state, 'err) outcome" where
  "block_state_extend env s other =
     (if bs_in_handler other then Panic ''assertion failed: !other.in_handler''
      else
        let s1 = (if bs_in_handler s
              then s\<lparr>bs_handler_created_data_sources := bs_handler_created_data_sources s @ bs_created_data_sources other\<rparr>
              else s\<lparr>bs_created_data_sources := bs_created_data_sources s @ bs_created_data_sources other\<rparr>)
        in map_ok (\<lambda>cache. s1\<lparr>bs_deterministic_errors := bs_deterministic_errors s @ bs_deterministic_errors other,
             bs_entity_cache := cache,
             bs_processed_data_sources := bs_processed_data_sources s @ bs_processed_data_sources other,
             bs_persisted_data_sources := bs_persisted_data_sources s @ bs_persisted_data_sources other,
             bs_write_capacity_remaining :=
               saturating_sub (bs_write_capacity_remaining s) (bs_write_capacity_remaining other)\<rparr>)
           (cache_extend env (bs_entity_cache s) (bs_entity_cache other)))"

definition has_created_data_sources :: "('q, 'd, 't, 'ds, 'se) block_state \<Rightarrow> (bool, 'err) outcome" where
  "has_created_data_sources s =
     (if bs_in_handler s then Panic ''assertion failed: !self.in_handler'' else Ok (bs_created_data_sources s \<noteq> []))"

definition has_created_on_chain_data_sources ::
  "('q, 'd, ('n, 'f, 'x) ds_template_info, 'ds, 'se) block_state \<Rightarrow> (bool, 'err) outcome" where
  "has_created_on_chain_data_sources s =
     (if bs_in_handler s then Panic ''assertion failed: !self.in_handler''
      else Ok (list_ex (\<lambda>ds. is_onchain (dst_template ds)) (bs_created_data_sources s)))"

definition drain_created_data_sources ::
  "('q, 'd, 't, 'ds, 'se) block_state \<Rightarrow> ('t list \<times> ('q, 'd, 't, 'ds, 'se) block_state, 'err) outcome" where
  "drain_created_data_sources s =
     (if bs_in_handler s then Panic ''assertion failed: !self.in_handler''
      else Ok (bs_created_data_sources s, s\<lparr>bs_created_data_sources := []\<rparr>))"

definition bs_enter_handler :: "('q, 'd, 't, 'ds, 'se) block_state \<Rightarrow> (('q, 'd, 't, 'ds, 'se) block_state, 'err) outcome" where
  "bs_enter_handler s =
     (if bs_in_handler s then Panic ''assertion failed: !self.in_handler''
      else map_ok (\<lambda>c. s\<lparr>bs_in_handler := True, bs_entity_cache := c\<rparr>) (cache_enter_handler (bs_entity_cache s)))"

definition bs_exit_handler :: "('q, 'd, 't, 'ds, 'se) block_state \<Rightarrow> (('q, 'd, 't, 'ds, 'se) block_state, 'err) outcome" where
  "bs_exit_handler s =
     (if \<not> bs_in_handler s then Panic ''assertion failed: self.in_handler''
      else map_ok (\<lambda>c. s\<lparr>bs_in_handler := False,
                        bs_created_data_sources := bs_created_data_sources s @ bs_handler_created_data_sources s,
                        bs_handler_created_data_sources := [], bs_entity_cache := c\<rparr>)
             (cache_exit_handler (bs_entity_cache s)))"

definition bs_discard_handler ::
  "('q, 'd, 't, 'ds, 'se) block_state \<Rightarrow> 'se \<Rightarrow> (('q, 'd, 't, 'ds, 'se) block_state, 'err) outcome" where
  "bs_discard_handler s e =
     (if \<not> bs_in_handler s then Panic ''assertion failed: self.in_handler''
      else map_ok (\<lambda>c. s\<lparr>bs_in_handler := False, bs_handler_created_data_sources := [], bs_entity_cache := c,
                        bs_deterministic_errors := bs_deterministic_errors s @ [e]\<rparr>)
             (cache_discard_handler (bs_entity_cache s)))"

definition push_created_data_source ::
  "('q, 'd, 't, 'ds, 'se) block_state \<Rightarrow> 't \<Rightarrow> (('q, 'd, 't, 'ds, 'se) block_state, 'err) outcome" where
  "push_created_data_source s ds =
     (if \<not> bs_in_handler s then Panic ''assertion failed: self.in_handler''
      else Ok (s\<lparr>bs_handler_created_data_sources := bs_handler_created_data_sources s @ [ds]\<rparr>))"

definition persist_data_source :: "('q, 'd, 't, 'ds, 'se) block_state \<Rightarrow> 'ds \<Rightarrow> ('q, 'd, 't, 'ds, 'se) block_state" where
  "persist_data_source s ds = s\<lparr>bs_persisted_data_sources := bs_persisted_data_sources s @ [ds]\<rparr>"

record block_state_checkpoint =
  cp_created :: nat
  cp_persisted :: nat
  cp_processed :: nat
  cp_errors :: nat

definition bs_checkpoint :: "('q, 'd, 't, 'ds, 'se) block_state \<Rightarrow> (block_state_checkpoint, 'err) outcome" where
  "bs_checkpoint s =
     (if bs_in_handler s then Panic ''assertion failed: !self.in_handler''
      else Ok \<lparr>cp_created = length (bs_created_data_sources s), cp_persisted = length (bs_persisted_data_sources s),
               cp_processed = length (bs_processed_data_sources s), cp_errors = length (bs_deterministic_errors s)\<rparr>)"

definition bs_restore ::
  "('q, 'd, 't, 'ds, 'se) block_state \<Rightarrow> block_state_checkpoint \<Rightarrow> (('q, 'd, 't, 'ds, 'se) block_state, 'err) outcome" where
  "bs_restore s cp =
     (if bs_in_handler s then Panic ''assertion failed: !self.in_handler''
      else Ok (s\<lparr>bs_created_data_sources := take (cp_created cp) (bs_created_data_sources s),
                 bs_persisted_data_sources := take (cp_persisted cp) (bs_persisted_data_sources s),
                 bs_processed_data_sources := take (cp_processed cp) (bs_processed_data_sources s),
                 bs_deterministic_errors := take (cp_errors cp) (bs_deterministic_errors s)\<rparr>))"

section \<open>What a handler does\<close>

text \<open>
  What a handler can do to the state of its block, in any order and number: read an entity in either scope,
  load related entities, set and remove entities, whether the call succeeds or not, and create data sources. A
  \<open>set\<close> is counted against the write capacity of the block. Left out is \<open>ipfs.map\<close>, which extends
  the state with the states of its callbacks (\<open>block_state_extend\<close>).
\<close>

inductive handler_step ::
  "('q, 'd) cache_env \<Rightarrow> atom_pool arc \<Rightarrow> ('q, 'd, 't, 'ds, 'se) block_state \<Rightarrow> ('q, 'd, 't, 'ds, 'se) block_state \<Rightarrow> bool"
  for env pl where
  handler_get: "cache_get env (bs_entity_cache s) k scope = (c, r) \<Longrightarrow> handler_step env pl s (s\<lparr>bs_entity_cache := c\<rparr>)"
| handler_load_related: "cache_load_related env (bs_entity_cache s) eref = (c, r) \<Longrightarrow>
    handler_step env pl s (s\<lparr>bs_entity_cache := c\<rparr>)"
| handler_set: "in_pool pl e \<Longrightarrow>
    cache_set env (bs_entity_cache s) k e (Some (bs_write_capacity_remaining s)) = (c, Some w, r) \<Longrightarrow>
    handler_step env pl s (s\<lparr>bs_entity_cache := c, bs_write_capacity_remaining := w\<rparr>)"
| handler_remove: "cache_remove (bs_entity_cache s) k = (Ok c :: (_, unit) outcome) \<Longrightarrow>
    handler_step env pl s (s\<lparr>bs_entity_cache := c\<rparr>)"
| handler_create: "push_created_data_source s ds = (Ok s' :: (_, unit) outcome) \<Longrightarrow> handler_step env pl s s'"

text \<open>Two states that agree on everything that outlives a handler that fails\<close>

definition bs_agree :: "(entity_key \<Rightarrow> 'd attrs option) \<Rightarrow> ('q, 'd, 't, 'ds, 'se) block_state \<Rightarrow> ('q, 'd, 't, 'ds, 'se) block_state \<Rightarrow> bool" where
  "bs_agree st s s' \<longleftrightarrow>
     ops_view (ec_updates (bs_entity_cache s')) st = ops_view (ec_updates (bs_entity_cache s)) st \<and>
     bs_created_data_sources s' = bs_created_data_sources s \<and> bs_persisted_data_sources s' = bs_persisted_data_sources s \<and>
     bs_processed_data_sources s' = bs_processed_data_sources s \<and> bs_deterministic_errors s' = bs_deterministic_errors s"

definition bs_running :: "('q, 'd) cache_env \<Rightarrow> atom_pool arc \<Rightarrow> (entity_key \<Rightarrow> 'd attrs option) \<Rightarrow> ('q, 'd, 't, 'ds, 'se) block_state \<Rightarrow> bool" where
  "bs_running env pl st s \<longleftrightarrow>
     cache_inv env pl st (bs_entity_cache s) \<and> bs_in_handler s \<and> ec_in_handler (bs_entity_cache s)"

text \<open>The store answers queries for related entities with what it has.\<close>

definition derived_reads :: "('q, 'd) cache_env \<Rightarrow> atom_pool arc \<Rightarrow> (entity_key \<Rightarrow> 'd attrs option) \<Rightarrow> bool" where
  "derived_reads env pl st \<longleftrightarrow> (\<forall>q. \<exists>stored. cn_get_derived env q = Ok stored \<and> derived_answer pl st q stored)"

lemma cache_get_keeps:
  assumes "cache_get env c k scope = (c', r)" "cache_inv env pl st c" "store_reads env pl st"
  shows "cache_inv env pl st c' \<and> ec_updates c' = ec_updates c \<and> ec_in_handler c' = ec_in_handler c"
proof (cases scope)
  case ScopeStore
  then show ?thesis using cache_get_view [OF assms(2,3), of k] assms(1) by auto
next
  case ScopeInBlock
  then show ?thesis using assms(1,2) by (auto simp: cache_get_def)
qed

lemma cache_load_related_keeps:
  assumes "cache_load_related env c eref = (c', r)" "cache_inv env pl st c" "derived_reads env pl st"
  shows "cache_inv env pl st c' \<and> ec_updates c' = ec_updates c \<and> ec_in_handler c' = ec_in_handler c"
proof (cases "cn_field_related env eref")
  case (Ok r')
  obtain ty name where r': "r' = (ty, name)" by fastforce
  obtain stored where s: "cn_get_derived env (related_query eref ty name) = Ok stored"
    "derived_answer pl st (related_query eref ty name) stored"
    using assms(3) unfolding derived_reads_def by blast
  show ?thesis
    using load_related_law [OF assms(2) Ok [unfolded r'] related_query_def s] assms(1) by auto
qed (use assms in \<open>auto simp: cache_load_related_def\<close>)

lemma handler_step_keeps:
  assumes "handler_step env pl s s'" "bs_running env pl st s" "store_reads env pl st" "derived_reads env pl st"
    "pool_lookup (arc_get pl) VID_FIELD \<noteq> None"
  shows "bs_running env pl st s' \<and> bs_agree st s s'"
  using assms(1)
proof cases
  case (handler_get k scope c r)
  with cache_get_keeps [OF handler_get(2) _ assms(3)] assms(2) show ?thesis by (auto simp: bs_running_def bs_agree_def)
next
  case (handler_load_related eref c r)
  with cache_load_related_keeps [OF handler_load_related(2) _ assms(4)] assms(2) show ?thesis
    by (auto simp: bs_running_def bs_agree_def)
next
  case (handler_set e k c w r)
  with cache_set_view [of env pl st "bs_entity_cache s" e k "Some (bs_write_capacity_remaining s)"] assms(2,3,5) show ?thesis
    by (auto simp: bs_running_def bs_agree_def)
next
  case (handler_remove k c)
  with cache_entity_op_view [of env pl st "bs_entity_cache s" CRemove k, where ?'err = unit] assms(2) show ?thesis
    by (auto simp: bs_running_def bs_agree_def cache_remove_def)
next
  case (handler_create ds)
  with assms(2) show ?thesis by (auto simp: push_created_data_source_def bs_running_def bs_agree_def)
qed

lemma handler_steps_keep:
  assumes "(handler_step env pl)\<^sup>*\<^sup>* s s'" "bs_running env pl st s" "store_reads env pl st" "derived_reads env pl st"
    "pool_lookup (arc_get pl) VID_FIELD \<noteq> None"
  shows "bs_running env pl st s' \<and> bs_agree st s s'"
  using assms(1)
proof (induction rule: rtranclp_induct)
  case base
  then show ?case using assms(2) by (simp add: bs_agree_def)
next
  case (step y z)
  then show ?case using handler_step_keeps [OF step(2) _ assms(3-5)] by (auto simp: bs_agree_def)
qed

section \<open>Properties\<close>

text \<open>A block between handlers\<close>

definition bs_idle :: "('q, 'd) cache_env \<Rightarrow> atom_pool arc \<Rightarrow> (entity_key \<Rightarrow> 'd attrs option) \<Rightarrow> ('q, 'd, 't, 'ds, 'se) block_state \<Rightarrow> bool" where
  "bs_idle env pl st s \<longleftrightarrow>
     cache_inv env pl st (bs_entity_cache s) \<and> \<not> bs_in_handler s \<and> \<not> ec_in_handler (bs_entity_cache s) \<and>
     bs_handler_created_data_sources s = []"

lemma enter_running:
  assumes "bs_idle env pl st s"
  obtains s' where "bs_enter_handler s = (Ok s' :: (_, 'err) outcome)" "bs_running env pl st s'" "bs_agree st s s'"
    "bs_handler_created_data_sources s' = []"
proof -
  have "cache_enter_handler (bs_entity_cache s) = (Ok ((bs_entity_cache s)\<lparr>ec_in_handler := True\<rparr>) :: (_, 'err) outcome)"
    using assms by (simp add: cache_enter_handler_def bs_idle_def)
  then show thesis
    using assms that by (auto simp: bs_enter_handler_def bs_idle_def bs_running_def bs_agree_def cache_inv_def ops_ok_def)
qed

text \<open>
  C10 (a failed handler is isolated). Whatever a handler read, changed and created before it failed, discarding it gives a block
  between handlers in which handlers see the entities they saw before it ran, and in which the created, persisted
  and processed data sources are those from before, and the error is recorded after the errors from before. Neither entering nor
  discarding panics.
\<close>

theorem failed_handler_isolated:
  fixes s :: "('q, 'd, 't, 'ds, 'se) block_state"
  assumes "bs_idle env pl st s" "store_reads env pl st" "derived_reads env pl st" "pool_lookup (arc_get pl) VID_FIELD \<noteq> None"
  shows "\<exists>s1. bs_enter_handler s = (Ok s1 :: (_, 'err) outcome) \<and>
    (\<forall>s2. (handler_step env pl)\<^sup>*\<^sup>* s1 s2 \<longrightarrow>
      (\<exists>s3. bs_discard_handler s2 e = (Ok s3 :: (_, 'err) outcome) \<and> bs_idle env pl st s3 \<and>
        cache_view (bs_entity_cache s3) st = cache_view (bs_entity_cache s) st \<and>
        bs_created_data_sources s3 = bs_created_data_sources s \<and> bs_persisted_data_sources s3 = bs_persisted_data_sources s \<and>
        bs_processed_data_sources s3 = bs_processed_data_sources s \<and>
        bs_deterministic_errors s3 = bs_deterministic_errors s @ [e]))"
proof -
  obtain s1 where s1: "bs_enter_handler s = (Ok s1 :: (_, 'err) outcome)" "bs_running env pl st s1" "bs_agree st s s1"
    by (rule enter_running [OF assms(1)])
  have "\<exists>s3. bs_discard_handler s2 e = (Ok s3 :: (_, 'err) outcome) \<and> bs_idle env pl st s3 \<and>
        cache_view (bs_entity_cache s3) st = cache_view (bs_entity_cache s) st \<and>
        bs_created_data_sources s3 = bs_created_data_sources s \<and> bs_persisted_data_sources s3 = bs_persisted_data_sources s \<and>
        bs_processed_data_sources s3 = bs_processed_data_sources s \<and>
        bs_deterministic_errors s3 = bs_deterministic_errors s @ [e]"
    if steps: "(handler_step env pl)\<^sup>*\<^sup>* s1 s2" for s2
  proof -
    have s2: "bs_running env pl st s2" "bs_agree st s1 s2" using handler_steps_keep [OF steps s1(2) assms(2-4)] by simp_all
    have "cache_view (bs_entity_cache s) st = ops_view (ec_updates (bs_entity_cache s)) st"
      using assms(1) by (simp add: cache_view_def bs_idle_def cache_inv_def)
    with s1(3) s2 show ?thesis
      by (simp add: bs_discard_handler_def cache_discard_handler_def bs_running_def bs_agree_def bs_idle_def cache_inv_def
          cache_view_def ops_ok_def)
  qed
  with s1(1) show ?thesis by blast
qed

text \<open>
  C37 (capacity after merging). Extending the state of a block with the state of a callback takes away the capacity that the
  callback has left, not the one it used. After a callback that wrote nothing the capacity of a block is \<open>0\<close>, and
  setting an entity that is not cached and has a weight fails, although the block may not have written anything.
\<close>

theorem extend_takes_unused_capacity:
  fixes s :: "('q, 'd, 't, 'ds, 'se) block_state"
  assumes "bs_write_capacity_remaining s \<le> capacity"
    and "block_state_extend env s (block_state_new lfu gen capacity) = (Ok s' :: (_, 'err) outcome)"
    and "\<not> lfu_contains_key (cn_lfu env) (ec_current (bs_entity_cache s')) k" "cn_weight env e > 0"
  shows "bs_write_capacity_remaining s' = 0 \<and>
    cache_set env (bs_entity_cache s') k e (Some (bs_write_capacity_remaining s')) =
      (bs_entity_cache s', Some 0, Err (WriteLimitExceeded (k_entity_id k)))"
proof -
  have "bs_write_capacity_remaining s' = 0"
    using assms(1,2) by (auto simp: block_state_extend_def block_state_new_def saturating_sub_def map_ok_eq_Ok Let_def)
  with assms(3,4) show ?thesis by (simp add: cache_set_def take_capacity_def)
qed

text \<open>A block on the store with the account \<open>a\<close>\<close>

definition example_block ::
  "(((entity_key, nat entity option) cache_entry \<times> priority) list, nat, (unit, unit, unit) ds_template_info, unit, string) block_state" where
  "example_block = block_state_new (lfu_new (cn_lfu example_related_env)) (seq_new 5) 100"

lemma example_block_idle: "bs_idle example_related_env (Arc 0 example_pool) example_stored example_block"
proof -
  have "cache_with_current (lfu_new (cn_lfu example_related_env)) (seq_new 5) = cache_new example_related_env (seq_new 5)"
    by (simp add: cache_with_current_def cache_new_def)
  then have "bs_entity_cache example_block = cache_new example_related_env (seq_new 5)"
    by (simp add: example_block_def block_state_new_def)
  moreover have "pq_laws (le_pq (cn_lfu example_related_env))"
    by (simp add: example_related_env_def example_cache_env_def list_pq_laws)
  ultimately show ?thesis
    by (simp add: bs_idle_def cache_new_inv) (simp add: cache_new_def example_block_def block_state_new_def)
qed

lemma failed_handler_isolated_witness:
  "\<exists>s1 s2 s3. bs_enter_handler example_block = (Ok s1 :: (_, unit) outcome) \<and> (handler_step example_related_env (Arc 0 example_pool))\<^sup>*\<^sup>* s1 s2 \<and>
    cache_view (bs_entity_cache s2) example_stored example_named_key = None \<and>
    bs_discard_handler s2 ''failed'' = (Ok s3 :: (_, unit) outcome) \<and>
    cache_view (bs_entity_cache s3) example_stored example_named_key = Some [''id'' \<mapsto> StringV ''a'', ''name'' \<mapsto> StringV ''panda''] \<and>
    bs_deterministic_errors s3 = [''failed'']"
proof -
  let ?env = example_related_env and ?pl = "Arc 0 example_pool" and ?st = example_stored
  have reads: "derived_reads ?env ?pl ?st" "pool_lookup (arc_get ?pl) VID_FIELD \<noteq> None"
    using example_derived_answer by (simp_all add: derived_reads_def example_related_env_def example_lookup VID_FIELD_def)
  obtain s1 where s1: "bs_enter_handler example_block = (Ok s1 :: (_, unit) outcome)"
    and all: "\<forall>s2. (handler_step ?env ?pl)\<^sup>*\<^sup>* s1 s2 \<longrightarrow>
      (\<exists>s3. bs_discard_handler s2 ''failed'' = (Ok s3 :: (_, unit) outcome) \<and> bs_idle ?env ?pl ?st s3 \<and>
        cache_view (bs_entity_cache s3) ?st = cache_view (bs_entity_cache example_block) ?st \<and>
        bs_created_data_sources s3 = bs_created_data_sources example_block \<and> bs_persisted_data_sources s3 = bs_persisted_data_sources example_block \<and>
        bs_processed_data_sources s3 = bs_processed_data_sources example_block \<and>
        bs_deterministic_errors s3 = bs_deterministic_errors example_block @ [''failed''])"
    using failed_handler_isolated [OF example_block_idle example_related_reads reads, of "''failed''", where ?'err = unit] by blast
  let ?c2 = "(bs_entity_cache s1)\<lparr>ec_handler_updates := [(example_named_key, CRemove)]\<rparr>"
  have e1: "bs_entity_cache s1 = (bs_entity_cache example_block)\<lparr>ec_in_handler := True\<rparr>"
    using s1 by (auto simp: bs_enter_handler_def cache_enter_handler_def example_block_def block_state_new_def cache_with_current_def)
  have "cache_remove (bs_entity_cache s1) example_named_key = (Ok ?c2 :: (_, unit) outcome)"
    by (simp add: e1 cache_remove_def cache_entity_op_def add_op_def example_block_def block_state_new_def cache_with_current_def)
  then have step: "(handler_step ?env ?pl)\<^sup>*\<^sup>* s1 (s1\<lparr>bs_entity_cache := ?c2\<rparr>)" by (intro r_into_rtranclp handler_remove)
  have gone: "cache_view ?c2 ?st example_named_key = None" by (simp add: cache_view_def ops_view_def)
  have before: "cache_view (bs_entity_cache example_block) ?st example_named_key = Some [''id'' \<mapsto> StringV ''a'', ''name'' \<mapsto> StringV ''panda'']"
    "bs_deterministic_errors example_block = []"
    by (simp_all add: cache_view_def ops_view_def example_block_def block_state_new_def cache_with_current_def example_stored_def example_views)
  obtain s3 where s3: "bs_discard_handler (s1\<lparr>bs_entity_cache := ?c2\<rparr>) ''failed'' = (Ok s3 :: (_, unit) outcome)"
    "cache_view (bs_entity_cache s3) ?st = cache_view (bs_entity_cache example_block) ?st"
    "bs_deterministic_errors s3 = bs_deterministic_errors example_block @ [''failed'']"
    using all [THEN spec, THEN mp, OF step] by blast
  show ?thesis
    using s1 step gone s3 before by (intro exI [of _ s1] exI [of _ "s1\<lparr>bs_entity_cache := ?c2\<rparr>"] exI [of _ s3]) simp
qed

lemma extend_takes_unused_capacity_witness:
  "\<exists>s'. block_state_extend example_related_env example_block example_block = (Ok s' :: (_, unit) outcome) \<and>
    cache_set example_related_env (bs_entity_cache s') example_named_key example_named (Some (bs_write_capacity_remaining s')) =
      (bs_entity_cache s', Some 0, Err (WriteLimitExceeded (StringId ''a'')))"
proof -
  let ?env = example_related_env
  let ?cur = "lfu_extend (cn_lfu ?env) (lfu_new (cn_lfu ?env)) (lfu_into_iter (cn_lfu ?env) (lfu_new (cn_lfu ?env)))"
  have "\<not> lfu_contains_key (cn_lfu ?env) ?cur example_named_key"
    by (simp add: lfu_contains_key_def lfu_extend_def lfu_into_iter_def lfu_new_def example_related_env_def example_cache_env_def list_pq_def)
  moreover obtain s' where s': "block_state_extend ?env example_block example_block = (Ok s' :: (_, unit) outcome)"
    "ec_current (bs_entity_cache s') = ?cur"
    by (simp add: block_state_extend_def cache_extend_def example_block_def block_state_new_def cache_with_current_def)
  moreover have "bs_write_capacity_remaining example_block \<le> 100" "cn_weight ?env example_named > 0"
    by (simp_all add: example_block_def block_state_new_def example_related_env_def example_cache_env_def)
  ultimately show ?thesis
    using extend_takes_unused_capacity [OF _ s'(1) [unfolded example_block_def], of example_named_key example_named]
    by (auto simp: example_block_def)
qed

end
