(* ===== verification/Spec2Isabelle.thy ===== *)
theory Spec2Isabelle
  imports Queue_Properties Block_Commit Block_State
begin

text \<open>
  \<^bold>\<open>The write path of graph-node.\<close> A graph-node indexes subgraphs: for every block of a chain it runs the handlers
  of a subgraph, which read and change entities, and stores the entities so that they can be queried as of any block.
  This development models the way of a change from a handler to the tables of a deployment and proves that
  it arrives there, that reads see it on the way, and that it can be reverted.

  \<^bold>\<open>The parts and how they interact.\<close> While a block is processed, handlers read and change entities through
  an entity cache, which is part of the state of the block. At the end of the block the changes in the cache become
  modifications of entities, and these become a batch. Batches wait in a bounded queue, where the batches of
  several blocks can be combined, until a background writer writes them to the store of the deployment, retrying when the database
  is not available. Reads look into the queue and then into the store, at a block for which the
  two fit together. A chain reorganization puts a revert into the same queue. The store keeps versions of entities with the
  range of blocks for which they are valid.

  \<^bold>\<open>Conventions.\<close> \<open>Prelude\<close> has the result type \<open>outcome\<close>: \<open>Ok\<close> and \<open>Err\<close> are those of
  Rust's \<open>Result\<close>, \<open>Panic\<close> is a panic with its message. A loop that may not end has the type \<open>outcome option\<close>, and
  \<open>None\<close> is that it does not end. A method on \<open>&mut self\<close> returns the new state with its outcome, so that the state
  after an error is visible. Machine integers for which overflow matters are words (atoms are 16 bits, vids, weights
  and capacities 64 bits); block numbers are integers. Entity data is a type variable in the store and the queue; \<open>Block_Commit\<close>
  instantiates it with the entities of \<open>Entity_Data\<close>. Environment variables, the schema, the clock and third-party code are
  fields of records that are passed to the definitions.

  \<^bold>\<open>Data.\<close>
  \<^item> \<open>Interner\<close> (\<open>graph/src/util/intern.rs\<close>): pools of interned strings and objects whose keys are atoms. Lookup and
    reading are inverse; objects behave as maps from strings, which is the locale \<open>attribute_map\<close>, and are compared as such,
    also across pools and with tombstones.
  \<^item> \<open>Values\<close>, \<open>Entity_Id\<close>, \<open>Entity_Data\<close> (\<open>graph/src/data/store/mod.rs\<close>, \<open>id.rs\<close>,
    \<open>graph/src/schema/entity_key.rs\<close>): values, ids and generated ids, vids, and entities with merging, validation and
    comparison.
  \<^item> \<open>Store_Errors\<close> (\<open>graph/src/components/store/err.rs\<close>): the errors and which of them are retried or
    deterministic.

  \<^bold>\<open>A block.\<close>
  \<^item> \<open>Lfu_Cache\<close> (\<open>graph/src/util/lfu_cache.rs\<close>): the cache with its eviction. The priority queue is a crate and thus a parameter
    with laws (\<open>pq_laws\<close>; \<open>list_pq\<close> has them). The locale \<open>lookup_cache\<close> is what the entity cache relies on.
    Eviction returns a cache that fits and removes the least used entries; when the weights do not add up it panics.
  \<^item> \<open>Entity_Cache\<close>, \<open>Entity_Cache_Laws\<close> (\<open>graph/src/components/store/entity_cache.rs\<close>): the cache of a block.
    It refines a map with one savepoint: what handlers see is the store changed by their operations, and discarding a handler
    goes back to the savepoint.
  \<^item> \<open>Related_Entities\<close> (\<open>load_related\<close> of the same file): it answers with the entities that match after the changes
    of the block, provided that no stored entity was moved into the match by an update; otherwise it returns partial entities.
  \<^item> \<open>Block_State\<close> (\<open>BlockState\<close> in \<open>graph/src/components/subgraph/instance.rs\<close>): a failed handler leaves
    nothing behind but its error; merging states takes the wrong capacity.
  \<^item> \<open>Block_Commit\<close>: the modifications of a block (\<open>as_modifications\<close>) change the store into what the handlers saw, and a
    lookup after writing them finds exactly that.

  \<^bold>\<open>Batches and tables.\<close>
  \<^item> \<open>Write_Batch\<close> (\<open>graph/src/components/store/write.rs\<close>): modifications, row groups and batches, their invariant,
    appending, lookups in a batch, and the iterators for clamps and chunks.
  \<^item> \<open>Row_Store\<close>, \<open>Row_Laws\<close> (\<open>store/postgres/src/block_range.rs\<close>, \<open>relational_queries.rs\<close>,
    \<open>relational.rs\<close>): the versions of entities in a table and the statements that find, clamp, insert and revert them, as functions on lists of rows.
  \<^item> \<open>Layouts\<close>, \<open>Batch_Writes\<close> (\<open>relational.rs\<close>, \<open>deployment_store.rs\<close>): all tables of a deployment.
    Writing a combined batch is writing its parts; a lookup finds the last write; reverting undoes writing and keeps the history.
  \<^item> \<open>Data_Source_Store\<close> (\<open>store/postgres/src/dynds\<close>): the dynamic data sources.
  \<^item> \<open>Rollups\<close> (\<open>graph/src/schema/input/mod.rs\<close>, \<open>relational.rs\<close>): every bucket that ended is rolled up once.

  \<^bold>\<open>Deployments and the queue.\<close>
  \<^item> \<open>Deployment\<close>, \<open>Deployment_Laws\<close> (\<open>store/postgres/src/deployment.rs\<close>, \<open>deployment_store.rs\<close>,
    \<open>detail.rs\<close>): head, reorganization counters, errors and health. The relation \<open>dep_step\<close> has the operations as steps; its
    invariant, the direction of the head, and that a revert undoes a write are proved.
  \<^item> \<open>Bounded_Queue\<close> (\<open>graph/src/util/bounded_queue.rs\<close>): the operations as functions and as the atomic steps between which
    other tasks run.
  \<^item> \<open>Sync_Store\<close> (\<open>SyncStore\<close> in \<open>store/postgres/src/writable.rs\<close>, \<open>retry.rs\<close>): retried calls of
    the database, which may fail before or after the commit.
  \<^item> \<open>Versioned_Store\<close>: the locale \<open>versioned_store\<close>, the contract under which reading through a queue of pending
    operations is correct. \<open>Write_Queue_Laws\<close> interprets it with deployments.
  \<^item> \<open>Write_Queue\<close>, \<open>Write_Queue_Laws\<close>, \<open>Queue_Properties\<close> (\<open>writable.rs\<close>): requests, tracker, queue and
    writer. For all interleavings of client and writer, requests are written in order, reads are
    correct however far the writer is, a flush ends, and an error stops all writing.

  \<^bold>\<open>Bounds.\<close> \<open>retry_forever\<close> is given the answers of the database as a list and is \<open>None\<close> when the list is used up; the properties
  that say that a call returns give the list that suffices. The loop of \<open>evict\<close> has one unit of fuel more than
  the cache has entries, which suffices because every round removes an entry (\<open>evict_and_stats_returns\<close>). Loops that
  write in chunks are \<open>None\<close> for chunks of size 0, for which the code does not end, and return otherwise.

  \<^bold>\<open>Not modelled.\<close>
  \<^item> \<open>WritableStore\<close> in \<open>writable.rs\<close>, which selects the way of writing and remembers the head.
  \<^item> The meaning of SQL is not derived from the text of the statements: a statement is the function on rows that it
    denotes in PostgreSQL. Statements of the read path (filters, sorting, child queries), DDL, copying, grafting, pruning and
    dumps are not modelled. Database integers do not overflow.
  \<^item> \<open>ipfs.map\<close> is the only operation of a handler on the state of a block that is not a step of
    \<open>handler_step\<close>; the merging of states that it uses is modelled as \<open>block_state_extend\<close>.
  \<^item> The chain adapters, block streams, the subgraph runner, the WASM runtime, GraphQL schemas and execution, the servers
    and the command line tools: network and file I/O, and code around third-party engines and parsers. What the write path
    uses of the schema is a parameter.
  \<^item> Metrics, logging, gas, caching of connections, serialization and debug output.
\<close>

end
